(* ===== verification/Prelude.thy ===== *)
theory Prelude
  imports Main "HOL-Library.Word"
begin

text \<open>
  What every component of the CXL-SHM development shares: the machine integer types, the
  faults a run of the code can end in with the sequencing operator for fallible steps,
  bit fields inside a 64-bit cell, and singly linked lists threaded through a
  "next offset" function (free lists, page queues, message queue lists and hash buckets
  are all of this kind; offset 0 is the null reference everywhere).
\<close>

unbundle bit_operations_syntax

type_synonym u8 = "8 word"
type_synonym u16 = "16 word"
type_synonym u32 = "32 word"
type_synonym u64 = "64 word"

named_theorems layout \<comment> \<open>numeric values of the layout constants\<close>
named_theorems heap_simps \<comment> \<open>what the heap accessors read after an update\<close>
named_theorems frame \<comment> \<open>operations that leave a part of the heap alone\<close>


lemma unat_bound: "unat (w :: 'a::len word) < 2 ^ LENGTH('a)"
  by (rule unsigned_less)

text \<open>A number written with one digit in base \<open>b\<close> and a smaller remainder.\<close>

lemma digit_div: "r < b \<Longrightarrow> (q * b + r) div b = (q :: nat)"
  by simp

lemma digit_mod: "r < b \<Longrightarrow> (q * b + r) mod b = (r :: nat)"
  by simp


section \<open>Faults and sequencing\<close>

text \<open>
  A C++ run that dereferences a null pointer, divides by zero or indexes past an array has
  no defined result; a loop that never ends has none either. Each is a constructor of
  \<open>fault\<close>; \<open>Out_Of_Fuel\<close> is the value of a loop that did not end within its fuel.
\<close>

datatype fault = Null_Deref | Div_By_Zero | Bin_Out_Of_Range | Out_Of_Fuel

definition bnd :: "fault + 'a \<Rightarrow> ('a \<Rightarrow> fault + 'b) \<Rightarrow> fault + 'b" where
  "bnd r f = (case r of Inl e \<Rightarrow> Inl e | Inr a \<Rightarrow> f a)"

lemma bnd_simps [simp]:
  "bnd (Inl e) f = Inl e"
  "bnd (Inr a) f = f a"
  by (simp_all add: bnd_def)

lemma bnd_Inr_iff: "bnd r f = Inr b \<longleftrightarrow> (\<exists>a. r = Inr a \<and> f a = Inr b)"
  by (cases r) auto

lemma bnd_Inl_iff: "bnd r f = Inl e \<longleftrightarrow> r = Inl e \<or> (\<exists>a. r = Inr a \<and> f a = Inl e)"
  by (cases r) auto

lemma bnd_InrE:
  assumes "bnd r f = Inr b"
  obtains a where "r = Inr a" and "f a = Inr b"
  using assms by (auto simp: bnd_Inr_iff)

lemma bnd_cong [fundef_cong]:
  "r = r' \<Longrightarrow> (\<And>a. r' = Inr a \<Longrightarrow> f a = g a) \<Longrightarrow> bnd r f = bnd r' g"
  by (cases r') auto

lemma bnd_assoc: "bnd (bnd r f) g = bnd r (\<lambda>a. bnd (f a) g)"
  by (cases r) auto

text \<open>A dereference of a pointer that may be null.\<close>

definition deref :: "'a option \<Rightarrow> fault + 'a" where
  "deref p = (case p of None \<Rightarrow> Inl Null_Deref | Some a \<Rightarrow> Inr a)"

lemma deref_simps [simp]:
  "deref None = Inl Null_Deref"
  "deref (Some a) = Inr a"
  by (simp_all add: deref_def)

lemma deref_Inr_iff [simp]: "deref p = Inr a \<longleftrightarrow> p = Some a"
  by (cases p) auto


section \<open>Bit fields of a cell\<close>

text \<open>
  Fields narrower than 64 bits that share an aligned 8-byte cell are bit fields of it, at
  their little-endian position: \<open>get_field lo w\<close> reads the field that starts at bit \<open>lo\<close>
  (its width is that of the result type), \<open>put_field lo v w\<close> overwrites it.
\<close>

definition get_field :: "nat \<Rightarrow> u64 \<Rightarrow> 'a::len word" where
  "get_field lo w = ucast (drop_bit lo w)"

definition put_field :: "nat \<Rightarrow> 'a::len word \<Rightarrow> u64 \<Rightarrow> u64" where
  "put_field lo v w =
     (w AND NOT (push_bit lo (mask LENGTH('a)))) OR push_bit lo (ucast v)"

lemma bit_get_field:
  "bit (get_field lo w :: 'a::len word) n \<longleftrightarrow> n < LENGTH('a) \<and> bit w (lo + n)"
  by (simp add: get_field_def bit_simps)

lemma bit_put_field:
  "bit (put_field lo (v :: 'a::len word) w) n \<longleftrightarrow>
     n < 64 \<and> (if lo \<le> n \<and> n < lo + LENGTH('a) then bit v (n - lo) else bit w n)"
  by (auto simp: put_field_def bit_simps not_le dest: bit_imp_le_length)

lemma get_put_field_same [simp]:
  assumes "lo + LENGTH('a) \<le> 64"
  shows "get_field lo (put_field lo (v :: 'a::len word) w) = v"
  using assms by (intro bit_word_eqI) (auto simp: bit_get_field bit_put_field)

lemma get_put_field_other:
  assumes "lo + LENGTH('a) \<le> 64"
    and "lo + LENGTH('a) \<le> lo' \<or> lo' + LENGTH('b) \<le> lo"
  shows "get_field lo (put_field lo' (v :: 'b::len word) w) = (get_field lo w :: 'a::len word)"
  using assms by (intro bit_word_eqI) (auto simp: bit_get_field bit_put_field)

lemma get_field_zero [simp]: "get_field lo 0 = 0"
  by (simp add: get_field_def)


section \<open>Linked lists threaded through offsets\<close>

text \<open>
  \<open>chain nx a xs\<close>: starting at offset \<open>a\<close> and following \<open>nx\<close>, the nodes met are exactly
  \<open>xs\<close>, and the list ends at offset 0. \<open>path\<close> is the same for a list segment that ends at
  an arbitrary offset.
\<close>

fun path :: "(u64 \<Rightarrow> u64) \<Rightarrow> u64 \<Rightarrow> u64 list \<Rightarrow> u64 \<Rightarrow> bool" where
  "path nx a [] z \<longleftrightarrow> a = z"
| "path nx a (x # xs) z \<longleftrightarrow> a = x \<and> x \<noteq> 0 \<and> path nx (nx x) xs z"

definition chain :: "(u64 \<Rightarrow> u64) \<Rightarrow> u64 \<Rightarrow> u64 list \<Rightarrow> bool" where
  "chain nx a xs \<longleftrightarrow> path nx a xs 0"

lemma chain_simps [simp]:
  "chain nx a [] \<longleftrightarrow> a = 0"
  "chain nx a (x # xs) \<longleftrightarrow> a = x \<and> x \<noteq> 0 \<and> chain nx (nx x) xs"
  by (simp_all add: chain_def)

lemma chain_null [simp]: "chain nx 0 xs \<longleftrightarrow> xs = []"
  by (cases xs) auto

lemma chain_nonnull: "a \<noteq> 0 \<Longrightarrow> chain nx a xs \<longleftrightarrow> (\<exists>ys. xs = a # ys \<and> chain nx (nx a) ys)"
  by (cases xs) auto

lemma path_append: "path nx a (xs @ ys) z \<longleftrightarrow> (\<exists>m. path nx a xs m \<and> path nx m ys z)"
  by (induction xs arbitrary: a) auto

lemma chain_append: "chain nx a (xs @ ys) \<longleftrightarrow> (\<exists>m. path nx a xs m \<and> chain nx m ys)"
  by (simp add: chain_def path_append)

lemma path_cong:
  "(\<And>x. x \<in> set xs \<Longrightarrow> nx x = nx' x) \<Longrightarrow> path nx a xs z \<longleftrightarrow> path nx' a xs z"
  by (induction xs arbitrary: a) auto

lemma chain_cong:
  "(\<And>x. x \<in> set xs \<Longrightarrow> nx x = nx' x) \<Longrightarrow> chain nx a xs \<longleftrightarrow> chain nx' a xs"
  unfolding chain_def by (rule path_cong)

lemma path_upd [simp]: "u \<notin> set xs \<Longrightarrow> path (nx(u := v)) a xs z \<longleftrightarrow> path nx a xs z"
  by (rule path_cong) auto

lemma chain_upd [simp]: "u \<notin> set xs \<Longrightarrow> chain (nx(u := v)) a xs \<longleftrightarrow> chain nx a xs"
  by (rule chain_cong) auto

lemma chain_unique: "chain nx a xs \<Longrightarrow> chain nx a ys \<Longrightarrow> xs = ys"
proof (induction xs arbitrary: a ys)
  case Nil
  then show ?case by simp
next
  case (Cons x xs)
  then obtain ys' where "ys = x # ys'" "chain nx (nx x) ys'"
    by (auto simp: chain_nonnull)
  with Cons show ?case by auto
qed

lemma chain_nonzero: "chain nx a xs \<Longrightarrow> 0 \<notin> set xs"
  by (induction xs arbitrary: a) auto

lemma chain_tail_fresh: "chain nx (nx x) xs \<Longrightarrow> x \<notin> set xs"
proof
  assume ch: "chain nx (nx x) xs" and "x \<in> set xs"
  then obtain ys zs where xs: "xs = ys @ x # zs" by (auto simp: in_set_conv_decomp)
  with ch have "chain nx (nx x) zs" by (auto simp: chain_append)
  with ch have "zs = xs" by (blast intro: chain_unique)
  with xs show False by simp
qed

lemma chain_distinct: "chain nx a xs \<Longrightarrow> distinct xs"
  by (induction xs arbitrary: a) (auto dest: chain_tail_fresh)

lemma chain_head: "chain nx a xs \<Longrightarrow> a = (if xs = [] then 0 else hd xs)"
  by (cases xs) auto

lemma chain_push:
  assumes "chain nx a xs" and "x \<noteq> 0" and "x \<notin> set xs"
  shows "chain (nx(x := a)) x (x # xs)"
  using assms by simp

lemma path_last_next: "path nx a (xs @ [x]) z \<Longrightarrow> nx x = z"
  by (auto simp: path_append)

text \<open>Unlinking an inner node: its predecessor is redirected to its successor.\<close>

lemma path_redirect:
  assumes "path nx a (xs @ [p]) m" and "p \<notin> set xs"
  shows "path (nx(p := z)) a (xs @ [p]) z"
  using assms by (auto simp: path_append)

lemma chain_length_less:
  assumes "chain nx a xs"
  shows "length xs < 2 ^ 64"
proof -
  have "distinct xs" and nz: "0 \<notin> set xs"
    using assms by (auto dest: chain_distinct chain_nonzero)
  then have "length xs = card (set xs)" by (simp add: distinct_card)
  also have "\<dots> < card (UNIV :: u64 set)"
    using nz by (intro psubset_card_mono) auto
  also have "\<dots> = 2 ^ 64" by (simp add: card_word)
  finally show ?thesis .
qed

section \<open>Runs\<close>

text \<open>Runs of a system with labelled steps, and what every run keeps if every step does.\<close>

inductive runs :: "('e \<Rightarrow> 's \<Rightarrow> 's \<Rightarrow> bool) \<Rightarrow> 's \<Rightarrow> 'e list \<Rightarrow> 's \<Rightarrow> bool" for step where
  stop: "runs step s [] s"
| go: "step e s s1 \<Longrightarrow> runs step s1 es s2 \<Longrightarrow> runs step s (e # es) s2"

inductive_cases runs_ConsE [elim]: "runs step s (e # es) s'"

inductive_simps runs_Nil [simp]: "runs step s [] s'"

lemma runs_snoc: "runs step s es s1 \<Longrightarrow> step e s1 s2 \<Longrightarrow> runs step s (es @ [e]) s2"
  by (induction rule: runs.induct) (auto intro: runs.intros)

locale kept =
  fixes ok :: "'s \<Rightarrow> bool" and step :: "'e \<Rightarrow> 's \<Rightarrow> 's \<Rightarrow> bool"
  assumes stays_ok: "ok s \<Longrightarrow> step e s s' \<Longrightarrow> ok s'"
begin

lemma run_ok: "runs step s es s' \<Longrightarrow> ok s \<Longrightarrow> ok s'"
  by (induction rule: runs.induct) (auto dest: stays_ok)

end

end
