(* ===== verification/Shm_Types.thy ===== *)
theory Shm_Types
  imports Prelude
begin

text \<open>
  The data of \<open>include/cxlmalloc-types.h\<close> and \<open>include/cxlmalloc.h\<close>: the layout constants
  of the shared region, its structs as records, and the shared region itself
  (\<open>shm_heap\<close>). Pointers into the region are byte offsets from its start, as the code
  stores them (\<open>get_offset_for_data\<close> / \<open>get_data_at_addr\<close>), with 0 for null.

  Structs that live in an area of their own (segment allocation states, thread local
  states, segment headers, page headers, the era matrix) are typed maps keyed by the
  offset of the struct. Memory that the code reinterprets (a block is in turn a free-list
  node, a \<open>CXLObj\<close>, a \<open>RootRef\<close> or a message queue; hash buckets and nodes) is raw: a map
  of 64-bit cells keyed by their 8-aligned offset, with the fields of the overlaid structs
  at the offsets the C++ layout gives them.
\<close>

section \<open>Constants\<close>

definition INTPTR_SHIFT :: nat where "INTPTR_SHIFT = 3"
definition PAGE_SHIFT :: nat where "PAGE_SHIFT = 13 + INTPTR_SHIFT"
definition SEGMENT_SHIFT :: nat where "SEGMENT_SHIFT = 10 + PAGE_SHIFT"
definition PAGE_SIZE :: u64 where "PAGE_SIZE = push_bit PAGE_SHIFT 1"
definition SEGMENT_SIZE :: u64 where "SEGMENT_SIZE = push_bit SEGMENT_SHIFT 1"
definition SEGMENT_MASK :: u64 where "SEGMENT_MASK = SEGMENT_SIZE - 1"
definition PAGES_PER_SEGMENT :: nat where
  "PAGES_PER_SEGMENT = unat (SEGMENT_SIZE div PAGE_SIZE)"
definition SEGMENT_ALLOCATION_VEC_SIZE :: u64 where
  "SEGMENT_ALLOCATION_VEC_SIZE = push_bit 22 1"
definition ERA_ARRAY_START :: u64 where "ERA_ARRAY_START = push_bit 22 1"
definition THREAD_LOCAL_VEC_START :: u64 where "THREAD_LOCAL_VEC_START = push_bit 23 1"
definition HASH_TABLE_START :: u64 where "HASH_TABLE_START = push_bit 26 1"
definition HASH_TABLE_SIZE :: u64 where "HASH_TABLE_SIZE = push_bit 20 1"
definition SEGMENTS_AREA_START :: u64 where "SEGMENTS_AREA_START = push_bit 27 1"
definition CXL_BIN_SIZE :: nat where "CXL_BIN_SIZE = 66"
definition MESSAGE_BUFFER_SIZE :: u64 where "MESSAGE_BUFFER_SIZE = 16"
definition MAX_THREAD :: nat where "MAX_THREAD = 1024"
definition MAX_SEGMENT_NUM :: nat where "MAX_SEGMENT_NUM = 4096"
definition REDO_CACHELINE_CNT :: nat where "REDO_CACHELINE_CNT = 8"

text \<open>
  Sizes of the structs on x86-64 (natural alignment; \<open>RootRef\<close> aligned to 16, thread local
  states and message queues to 64).
\<close>

definition sizeof_CXLObj :: u64 where "sizeof_CXLObj = 24"
definition sizeof_RootRef :: u64 where "sizeof_RootRef = 16"
definition sizeof_msg_queue :: u64 where "sizeof_msg_queue = 192"
definition sizeof_page :: u64 where "sizeof_page = 48"
definition sizeof_segment :: u64 where
  "sizeof_segment = 8 + of_nat PAGES_PER_SEGMENT * sizeof_page"
definition sizeof_sas :: u64 where "sizeof_sas = 32"
definition sizeof_tls :: u64 where "sizeof_tls = 2176"

lemma layout_values [layout]:
  "PAGE_SHIFT = 16" "SEGMENT_SHIFT = 26"
  "PAGE_SIZE = 65536" "SEGMENT_SIZE = 67108864" "SEGMENT_MASK = 67108863"
  "PAGES_PER_SEGMENT = 1024"
  "SEGMENT_ALLOCATION_VEC_SIZE = 4194304" "ERA_ARRAY_START = 4194304"
  "THREAD_LOCAL_VEC_START = 8388608" "HASH_TABLE_START = 67108864"
  "HASH_TABLE_SIZE = 1048576" "SEGMENTS_AREA_START = 134217728"
  "CXL_BIN_SIZE = 66" "MESSAGE_BUFFER_SIZE = 16" "MAX_THREAD = 1024"
  "MAX_SEGMENT_NUM = 4096" "REDO_CACHELINE_CNT = 8"
  "sizeof_CXLObj = 24" "sizeof_RootRef = 16" "sizeof_msg_queue = 192"
  "sizeof_page = 48" "sizeof_segment = 49160" "sizeof_sas = 32" "sizeof_tls = 2176"
  by (simp_all add: INTPTR_SHIFT_def PAGE_SHIFT_def SEGMENT_SHIFT_def PAGE_SIZE_def
      SEGMENT_SIZE_def SEGMENT_MASK_def PAGES_PER_SEGMENT_def
      SEGMENT_ALLOCATION_VEC_SIZE_def ERA_ARRAY_START_def THREAD_LOCAL_VEC_START_def
      HASH_TABLE_START_def HASH_TABLE_SIZE_def SEGMENTS_AREA_START_def CXL_BIN_SIZE_def
      MESSAGE_BUFFER_SIZE_def MAX_THREAD_def MAX_SEGMENT_NUM_def REDO_CACHELINE_CNT_def
      sizeof_CXLObj_def sizeof_RootRef_def sizeof_msg_queue_def sizeof_page_def
      sizeof_segment_def sizeof_sas_def sizeof_tls_def unat_div)


section \<open>Structs\<close>

datatype redo_func_id = LINK_REF | UNLINK_REF

definition redo_func_code :: "redo_func_id \<Rightarrow> u16" where
  "redo_func_code f = (case f of LINK_REF \<Rightarrow> 1 | UNLINK_REF \<Rightarrow> 2)"

record redo_log =
  func_id :: u16
  saved_ref_cnt :: u16
  cur_era :: u32
  redo_ref :: u64
  redo_refed :: u64
  old_refed :: u64

record cxl_page_queue_t =
  pq_first :: u64
  pq_last :: u64
  pq_block_size :: u64

record cxl_page_t =
  pg_free :: u64
  pg_local_free :: u64
  pg_block_size :: u32
  pg_used :: u32
  pg_next :: u64
  pg_prev :: u64
  pg_is_msg_queue_page :: bool

text \<open>The header of a segment; its \<open>meta_page\<close> array is part of the page map.\<close>

record cxl_segment_t =
  seg_thread_id :: u16
  seg_used :: u32

text \<open>\<open>tls_redo i\<close> is the record in the i-th of the eight redo cache lines.\<close>

record cxl_tls_t =
  tls_redo :: "u32 \<Rightarrow> redo_log"
  tls_packed_id :: u64
  tls_pages :: "nat \<Rightarrow> cxl_page_queue_t"
  tls_free_page :: cxl_page_queue_t
  tls_sender_queue :: u64
  tls_receiver_queue :: u64

datatype segment_state = NORMAL | ABANDON | POTENTIAL_LEAKING

definition segment_state_code :: "segment_state \<Rightarrow> u64" where
  "segment_state_code s = (case s of NORMAL \<Rightarrow> 0 | ABANDON \<Rightarrow> 1 | POTENTIAL_LEAKING \<Rightarrow> 2)"

record state_free_info =
  sf_state :: u64
  sf_thread_free :: u64

record cxl_segment_allocation_state_t =
  sas_thread_id :: u32
  sas_ver :: u32
  sas_info :: state_free_info

text \<open>A handle on an object: the offsets of its root reference and of its data.\<close>

record CXLRef =
  ref_tbr :: u64
  ref_data :: u64

text \<open>The process-local part of a client (class \<open>cxl_shm\<close>, less the mapping's address).\<close>

record cxl_shm =
  shm_size :: u64
  shm_tls_offset :: u64
  shm_thread_id :: u32

text \<open>
  The shared region. \<open>h_era\<close> is the era matrix as the flat array it is (index
  \<open>(x-1) * MAX_THREAD + (y-1)\<close>, which the code computes in signed arithmetic).
\<close>

record shm_heap =
  h_sas :: "u64 \<Rightarrow> cxl_segment_allocation_state_t"
  h_era :: "int \<Rightarrow> u32"
  h_tls :: "u64 \<Rightarrow> cxl_tls_t"
  h_seg :: "u64 \<Rightarrow> cxl_segment_t"
  h_page :: "u64 \<Rightarrow> cxl_page_t"
  h_cell :: "u64 \<Rightarrow> u64"

text \<open>What \<open>memset(.., 0, ..)\<close> leaves of each struct.\<close>

definition zero_redo :: redo_log where
  "zero_redo = \<lparr>func_id = 0, saved_ref_cnt = 0, cur_era = 0, redo_ref = 0, redo_refed = 0,
     old_refed = 0\<rparr>"
definition zero_pq :: cxl_page_queue_t where
  "zero_pq = \<lparr>pq_first = 0, pq_last = 0, pq_block_size = 0\<rparr>"
definition zero_page :: cxl_page_t where
  "zero_page = \<lparr>pg_free = 0, pg_local_free = 0, pg_block_size = 0, pg_used = 0, pg_next = 0,
     pg_prev = 0, pg_is_msg_queue_page = False\<rparr>"
definition zero_seg :: cxl_segment_t where
  "zero_seg = \<lparr>seg_thread_id = 0, seg_used = 0\<rparr>"
definition zero_info :: state_free_info where
  "zero_info = \<lparr>sf_state = segment_state_code NORMAL, sf_thread_free = 0\<rparr>"
definition zero_sas :: cxl_segment_allocation_state_t where
  "zero_sas = \<lparr>sas_thread_id = 0, sas_ver = 0, sas_info = zero_info\<rparr>"
definition zero_tls :: cxl_tls_t where
  "zero_tls = \<lparr>tls_redo = (\<lambda>_. zero_redo), tls_packed_id = 0, tls_pages = (\<lambda>_. zero_pq),
     tls_free_page = zero_pq, tls_sender_queue = 0, tls_receiver_queue = 0\<rparr>"

text \<open>The region as its creator leaves it (\<open>memset(data, 0, length)\<close>).\<close>

definition zero_heap :: shm_heap where
  "zero_heap = \<lparr>h_sas = (\<lambda>_. zero_sas), h_era = (\<lambda>_. 0), h_tls = (\<lambda>_. zero_tls),
     h_seg = (\<lambda>_. zero_seg), h_page = (\<lambda>_. zero_page), h_cell = (\<lambda>_. 0)\<rparr>"

lemmas zero_defs = zero_redo_def zero_pq_def zero_page_def zero_seg_def zero_info_def
  zero_sas_def zero_tls_def zero_heap_def

lemma segment_state_code_simps [simp]:
  "segment_state_code NORMAL = 0"
  "segment_state_code ABANDON = 1"
  "segment_state_code POTENTIAL_LEAKING = 2"
  by (simp_all add: segment_state_code_def)

lemma redo_func_code_simps [simp]:
  "redo_func_code LINK_REF = 1"
  "redo_func_code UNLINK_REF = 2"
  by (simp_all add: redo_func_code_def)


section \<open>Updating one struct of the region\<close>

definition upd_sas ::
  "u64 \<Rightarrow> (cxl_segment_allocation_state_t \<Rightarrow> cxl_segment_allocation_state_t) \<Rightarrow> shm_heap \<Rightarrow> shm_heap"
  where "upd_sas a f h = h\<lparr>h_sas := (h_sas h)(a := f (h_sas h a))\<rparr>"
definition upd_tls :: "u64 \<Rightarrow> (cxl_tls_t \<Rightarrow> cxl_tls_t) \<Rightarrow> shm_heap \<Rightarrow> shm_heap" where
  "upd_tls a f h = h\<lparr>h_tls := (h_tls h)(a := f (h_tls h a))\<rparr>"
definition upd_seg :: "u64 \<Rightarrow> (cxl_segment_t \<Rightarrow> cxl_segment_t) \<Rightarrow> shm_heap \<Rightarrow> shm_heap" where
  "upd_seg a f h = h\<lparr>h_seg := (h_seg h)(a := f (h_seg h a))\<rparr>"
definition upd_page :: "u64 \<Rightarrow> (cxl_page_t \<Rightarrow> cxl_page_t) \<Rightarrow> shm_heap \<Rightarrow> shm_heap" where
  "upd_page a f h = h\<lparr>h_page := (h_page h)(a := f (h_page h a))\<rparr>"
definition set_cell :: "u64 \<Rightarrow> u64 \<Rightarrow> shm_heap \<Rightarrow> shm_heap" where
  "set_cell a v h = h\<lparr>h_cell := (h_cell h)(a := v)\<rparr>"
definition set_era :: "int \<Rightarrow> u32 \<Rightarrow> shm_heap \<Rightarrow> shm_heap" where
  "set_era i v h = h\<lparr>h_era := (h_era h)(i := v)\<rparr>"

text \<open>\<open>memset(b, 0, 8 * k)\<close> over raw cells.\<close>

primrec zero_cells :: "nat \<Rightarrow> u64 \<Rightarrow> (u64 \<Rightarrow> u64) \<Rightarrow> (u64 \<Rightarrow> u64)" where
  "zero_cells 0 b c = c"
| "zero_cells (Suc k) b c = zero_cells k (b + 8) (c(b := 0))"

definition memset_cells :: "nat \<Rightarrow> u64 \<Rightarrow> shm_heap \<Rightarrow> shm_heap" where
  "memset_cells k b h = h\<lparr>h_cell := zero_cells k b (h_cell h)\<rparr>"

lemma upd_sas_simps [heap_simps, simp]:
  "h_sas (upd_sas a f h) = (h_sas h)(a := f (h_sas h a))"
  "h_era (upd_sas a f h) = h_era h" "h_tls (upd_sas a f h) = h_tls h"
  "h_seg (upd_sas a f h) = h_seg h" "h_page (upd_sas a f h) = h_page h"
  "h_cell (upd_sas a f h) = h_cell h"
  by (simp_all add: upd_sas_def)

lemma upd_tls_simps [heap_simps, simp]:
  "h_tls (upd_tls a f h) = (h_tls h)(a := f (h_tls h a))"
  "h_sas (upd_tls a f h) = h_sas h" "h_era (upd_tls a f h) = h_era h"
  "h_seg (upd_tls a f h) = h_seg h" "h_page (upd_tls a f h) = h_page h"
  "h_cell (upd_tls a f h) = h_cell h"
  by (simp_all add: upd_tls_def)

lemma upd_seg_simps [heap_simps, simp]:
  "h_seg (upd_seg a f h) = (h_seg h)(a := f (h_seg h a))"
  "h_sas (upd_seg a f h) = h_sas h" "h_era (upd_seg a f h) = h_era h"
  "h_tls (upd_seg a f h) = h_tls h" "h_page (upd_seg a f h) = h_page h"
  "h_cell (upd_seg a f h) = h_cell h"
  by (simp_all add: upd_seg_def)

lemma upd_page_simps [heap_simps, simp]:
  "h_page (upd_page a f h) = (h_page h)(a := f (h_page h a))"
  "h_sas (upd_page a f h) = h_sas h" "h_era (upd_page a f h) = h_era h"
  "h_tls (upd_page a f h) = h_tls h" "h_seg (upd_page a f h) = h_seg h"
  "h_cell (upd_page a f h) = h_cell h"
  by (simp_all add: upd_page_def)

lemma set_cell_simps [heap_simps, simp]:
  "h_cell (set_cell a v h) = (h_cell h)(a := v)"
  "h_sas (set_cell a v h) = h_sas h" "h_era (set_cell a v h) = h_era h"
  "h_tls (set_cell a v h) = h_tls h" "h_seg (set_cell a v h) = h_seg h"
  "h_page (set_cell a v h) = h_page h"
  by (simp_all add: set_cell_def)

lemma set_era_simps [heap_simps, simp]:
  "h_era (set_era i w h) = (h_era h)(i := w)"
  "h_sas (set_era i w h) = h_sas h" "h_tls (set_era i w h) = h_tls h"
  "h_seg (set_era i w h) = h_seg h" "h_page (set_era i w h) = h_page h"
  "h_cell (set_era i w h) = h_cell h"
  by (simp_all add: set_era_def)

lemma memset_cells_simps [heap_simps, simp]:
  "h_cell (memset_cells k b h) = zero_cells k b (h_cell h)"
  "h_sas (memset_cells k b h) = h_sas h" "h_era (memset_cells k b h) = h_era h"
  "h_tls (memset_cells k b h) = h_tls h" "h_seg (memset_cells k b h) = h_seg h"
  "h_page (memset_cells k b h) = h_page h"
  by (simp_all add: memset_cells_def)

text \<open>Two updates of one struct are one; an update is determined by the value it writes.\<close>

lemma upd_fuse [simp]:
  "upd_page a f (upd_page a g h) = upd_page a (\<lambda>p. f (g p)) h"
  "upd_sas a f' (upd_sas a g' h) = upd_sas a (\<lambda>p. f' (g' p)) h"
  "upd_seg a f'' (upd_seg a g'' h) = upd_seg a (\<lambda>p. f'' (g'' p)) h"
  "upd_tls a f3 (upd_tls a g3 h) = upd_tls a (\<lambda>p. f3 (g3 p)) h"
  by (simp_all add: upd_page_def upd_sas_def upd_seg_def upd_tls_def)

lemma upd_page_eq: "f (h_page h a) = g (h_page h a) \<Longrightarrow> upd_page a f h = upd_page a g h"
  by (simp add: upd_page_def)

lemma page_record_full:
  "p\<lparr>pg_local_free := b, pg_block_size := c, pg_used := d, pg_next := e, pg_prev := f,
      pg_is_msg_queue_page := g\<rparr> =
   \<lparr>pg_free = pg_free p, pg_local_free = b, pg_block_size = c, pg_used = d, pg_next = e,
      pg_prev = f, pg_is_msg_queue_page = g\<rparr>"
  by (cases p) simp

lemma zero_cells_apply:
  "zero_cells k b c a = (if \<exists>i<k. a = b + 8 * of_nat i then 0 else c a)"
proof (induction k arbitrary: b c)
  case 0
  then show ?case by simp
next
  case (Suc k)
  have "(\<exists>i<Suc k. a = b + 8 * of_nat i) \<longleftrightarrow> a = b \<or> (\<exists>i<k. a = b + 8 + 8 * of_nat i)"
    by (auto simp: less_Suc_eq_0_disj algebra_simps)
  then show ?case by (auto simp: Suc.IH)
qed


section \<open>Structs overlaid on blocks\<close>

text \<open>
  \<open>CXLObj\<close>: next at 0, ref_info at 8, embedded_ref_cnt at 16, data from 24.
  \<open>RootRef\<close>: pptr at 0; in_use is byte 8 and ref_cnt bytes 10-11, both in the cell at 8.
  Message queue: start 0, end 8, sender_id and receiver_id (16 bits each) in the cell at
  16, sender_next 24, receiver_next 32, buffer from 40.
\<close>

definition blk_next :: "shm_heap \<Rightarrow> u64 \<Rightarrow> u64" where "blk_next h b = h_cell h b"

definition obj_ref_info :: "shm_heap \<Rightarrow> u64 \<Rightarrow> u64" where "obj_ref_info h o' = h_cell h (o' + 8)"
definition obj_embedded :: "shm_heap \<Rightarrow> u64 \<Rightarrow> u64" where "obj_embedded h o' = h_cell h (o' + 16)"

definition rr_pptr :: "shm_heap \<Rightarrow> u64 \<Rightarrow> u64" where "rr_pptr h r = h_cell h r"
definition rr_in_use :: "shm_heap \<Rightarrow> u64 \<Rightarrow> u8" where
  "rr_in_use h r = get_field 0 (h_cell h (r + 8))"
definition rr_ref_cnt :: "shm_heap \<Rightarrow> u64 \<Rightarrow> u16" where
  "rr_ref_cnt h r = get_field 16 (h_cell h (r + 8))"
definition set_rr_in_use :: "u64 \<Rightarrow> u8 \<Rightarrow> shm_heap \<Rightarrow> shm_heap" where
  "set_rr_in_use r v h = set_cell (r + 8) (put_field 0 v (h_cell h (r + 8))) h"
definition set_rr_ref_cnt :: "u64 \<Rightarrow> u16 \<Rightarrow> shm_heap \<Rightarrow> shm_heap" where
  "set_rr_ref_cnt r v h = set_cell (r + 8) (put_field 16 v (h_cell h (r + 8))) h"

definition mq_start :: "shm_heap \<Rightarrow> u64 \<Rightarrow> u64" where "mq_start h q = h_cell h q"
definition mq_end :: "shm_heap \<Rightarrow> u64 \<Rightarrow> u64" where "mq_end h q = h_cell h (q + 8)"
definition mq_sender_id :: "shm_heap \<Rightarrow> u64 \<Rightarrow> u16" where
  "mq_sender_id h q = get_field 0 (h_cell h (q + 16))"
definition mq_receiver_id :: "shm_heap \<Rightarrow> u64 \<Rightarrow> u16" where
  "mq_receiver_id h q = get_field 16 (h_cell h (q + 16))"
definition mq_sender_next :: "shm_heap \<Rightarrow> u64 \<Rightarrow> u64" where
  "mq_sender_next h q = h_cell h (q + 24)"
definition mq_receiver_next :: "shm_heap \<Rightarrow> u64 \<Rightarrow> u64" where
  "mq_receiver_next h q = h_cell h (q + 32)"
definition mq_slot :: "u64 \<Rightarrow> u64 \<Rightarrow> u64" where "mq_slot q i = q + 40 + 8 * i"
definition mq_buffer :: "shm_heap \<Rightarrow> u64 \<Rightarrow> u64 \<Rightarrow> u64" where
  "mq_buffer h q i = h_cell h (mq_slot q i)"
definition set_mq_sender_id :: "u64 \<Rightarrow> u16 \<Rightarrow> shm_heap \<Rightarrow> shm_heap" where
  "set_mq_sender_id q v h = set_cell (q + 16) (put_field 0 v (h_cell h (q + 16))) h"
definition set_mq_receiver_id :: "u64 \<Rightarrow> u16 \<Rightarrow> shm_heap \<Rightarrow> shm_heap" where
  "set_mq_receiver_id q v h = set_cell (q + 16) (put_field 16 v (h_cell h (q + 16))) h"

lemmas overlay_defs = blk_next_def obj_ref_info_def obj_embedded_def rr_pptr_def
  rr_in_use_def rr_ref_cnt_def set_rr_in_use_def set_rr_ref_cnt_def mq_start_def mq_end_def
  mq_sender_id_def mq_receiver_id_def mq_sender_next_def mq_receiver_next_def mq_slot_def
  mq_buffer_def set_mq_sender_id_def set_mq_receiver_id_def

lemma rr_field_updates [simp]:
  "rr_in_use (set_rr_in_use r v h) r = v"
  "rr_ref_cnt (set_rr_in_use r v h) r = rr_ref_cnt h r"
  "rr_ref_cnt (set_rr_ref_cnt r w h) r = w"
  "rr_in_use (set_rr_ref_cnt r w h) r = rr_in_use h r"
  "rr_pptr (set_rr_in_use r v h) r = rr_pptr h r"
  "rr_pptr (set_rr_ref_cnt r w h) r = rr_pptr h r"
  by (simp_all add: overlay_defs get_put_field_other)

lemma mq_id_updates [simp]:
  "mq_sender_id (set_mq_sender_id q v h) q = v"
  "mq_receiver_id (set_mq_sender_id q v h) q = mq_receiver_id h q"
  "mq_receiver_id (set_mq_receiver_id q v h) q = v"
  "mq_sender_id (set_mq_receiver_id q v h) q = mq_sender_id h q"
  by (simp_all add: overlay_defs get_put_field_other)

end
