(* ===== verification/Address.thy ===== *)
theory Address
  imports Shm_Types
begin

text \<open>
  Address arithmetic: from a block to the header of its page and of its segment
  (\<open>cxl_ptr_page\<close>, \<open>cxl_ptr_segment\<close>), from a page header to the page's blocks
  (\<open>cxl_page_start\<close>, \<open>cxl_page_block_at\<close>), from a segment to its allocation state, and the
  cells of the era matrix. The lemmas show that the maps are inverse to each other on the
  addresses the layout hands out, and that areas do not overlap.
\<close>

section \<open>Definitions\<close>

text \<open>Offsets are relative to the start of the region, so both conversions are identities.\<close>

definition get_data_at_addr :: "u64 \<Rightarrow> u64 \<Rightarrow> u64" where "get_data_at_addr p offset = p + offset"
definition get_offset_for_data :: "u64 \<Rightarrow> u64 \<Rightarrow> u64" where "get_offset_for_data p data = data - p"

definition cxl_segment_page_of :: "u64 \<Rightarrow> u64 \<Rightarrow> u64" where
  "cxl_segment_page_of segment p =
     (let diff = p - segment; idx = drop_bit PAGE_SHIFT diff
      in segment + 8 + idx * sizeof_page)"

definition cxl_page_start :: "u64 \<Rightarrow> u64 \<Rightarrow> u64" where
  "cxl_page_start segment page =
     (let idx = (page - (segment + 8)) div sizeof_page in segment + idx * PAGE_SIZE)"

definition cxl_page_block_at :: "u64 \<Rightarrow> u64 \<Rightarrow> u64 \<Rightarrow> u64" where
  "cxl_page_block_at page_start block_size i = page_start + i * block_size"

definition cxl_ptr_segment :: "u64 \<Rightarrow> u64" where
  "cxl_ptr_segment p = p AND NOT SEGMENT_MASK"

definition cxl_ptr_page :: "u64 \<Rightarrow> u64" where
  "cxl_ptr_page p = cxl_segment_page_of (cxl_ptr_segment p) p"

definition get_page_by_offset :: "u64 \<Rightarrow> u64 option" where
  "get_page_by_offset page_offset = (if page_offset = 0 then None else Some page_offset)"

definition get_block_by_offset :: "u64 \<Rightarrow> u64 option" where
  "get_block_by_offset block_offset = (if block_offset = 0 then None else Some block_offset)"

lemma offset_data_inverse [simp]: "get_offset_for_data p (get_data_at_addr p offset) = offset"
  by (simp add: get_offset_for_data_def get_data_at_addr_def)

text \<open>The allocation state of a segment: \<open>(segment - SEGMENTS_AREA_START) / SEGMENT_SIZE\<close>.\<close>

definition segment_index :: "u64 \<Rightarrow> u64" where
  "segment_index segment = (segment - SEGMENTS_AREA_START) div SEGMENT_SIZE"

definition sas_of_segment :: "u64 \<Rightarrow> u64" where
  "sas_of_segment segment = segment_index segment * sizeof_sas"

text \<open>\<open>era(x, y)\<close>, computed in signed arithmetic: \<open>(x-1) * MAX_THREAD + (y-1)\<close>.\<close>

definition era :: "int \<Rightarrow> int \<Rightarrow> int" where
  "era x y = (x - 1) * int MAX_THREAD + (y - 1)"

text \<open>The addresses the layout hands out: segment \<open>s\<close>, header and first byte of its page \<open>j\<close>.\<close>

definition seg_at :: "nat \<Rightarrow> u64" where
  "seg_at s = SEGMENTS_AREA_START + of_nat s * SEGMENT_SIZE"
definition meta_at :: "u64 \<Rightarrow> nat \<Rightarrow> u64" where
  "meta_at segment j = segment + 8 + of_nat j * sizeof_page"
definition page_area :: "u64 \<Rightarrow> nat \<Rightarrow> u64" where
  "page_area segment j = segment + of_nat j * PAGE_SIZE"
definition tls_at :: "nat \<Rightarrow> u64" where
  "tls_at i = THREAD_LOCAL_VEC_START + of_nat i * sizeof_tls"
definition sas_at :: "nat \<Rightarrow> u64" where
  "sas_at i = of_nat i * sizeof_sas"

lemma get_by_offset_simps [simp]:
  "get_page_by_offset 0 = None" "a \<noteq> 0 \<Longrightarrow> get_page_by_offset a = Some a"
  "get_block_by_offset 0 = None" "a \<noteq> 0 \<Longrightarrow> get_block_by_offset a = Some a"
  by (simp_all add: get_page_by_offset_def get_block_by_offset_def)

lemma get_by_offset_iff [simp]:
  "get_page_by_offset a = None \<longleftrightarrow> a = 0" "get_page_by_offset a = Some b \<longleftrightarrow> a \<noteq> 0 \<and> a = b"
  "get_block_by_offset a = None \<longleftrightarrow> a = 0" "get_block_by_offset a = Some b \<longleftrightarrow> a \<noteq> 0 \<and> a = b"
  by (auto simp: get_page_by_offset_def get_block_by_offset_def)


section \<open>The same arithmetic on natural numbers\<close>

lemma unat_of_nat_64: "n < 2 ^ 64 \<Longrightarrow> unat (of_nat n :: u64) = n"
  by (simp add: unsigned_of_nat take_bit_nat_eq_self)

lemma of_nat_eq_64: "m < 2 ^ 64 \<Longrightarrow> n < 2 ^ 64 \<Longrightarrow> (of_nat m :: u64) = of_nat n \<longleftrightarrow> m = n"
  by (metis unat_of_nat_64)

lemma of_nat_less_64:
  "m < 2 ^ 64 \<Longrightarrow> n < 2 ^ 64 \<Longrightarrow> (of_nat m :: u64) < of_nat n \<longleftrightarrow> m < n"
  by (simp add: word_less_nat_alt unat_of_nat_64)

lemma of_nat_div_64:
  assumes "m < 2 ^ 64" and "n < 2 ^ 64"
  shows "(of_nat m :: u64) div of_nat n = of_nat (m div n)"
proof -
  have "m div n < 2 ^ 64"
    using assms(1) div_le_dividend [of m n] by linarith
  then show ?thesis
    using assms by (simp add: word_unat_eq_iff unat_div_distrib unat_of_nat_64 del: of_nat_div)
qed

lemma and_not_mask: "p AND NOT (mask n) = push_bit n (drop_bit n (p :: u64))"
  by (rule bit_word_eqI) (auto simp: bit_simps)

lemma segment_mask: "SEGMENT_MASK = mask 26"
  by (simp add: layout mask_eq_exp_minus_1)

lemma cxl_ptr_segment_nat:
  assumes "n < 2 ^ 64"
  shows "cxl_ptr_segment (of_nat n) = of_nat (n div 2 ^ 26 * 2 ^ 26)"
proof -
  have "n div 2 ^ 26 * 2 ^ 26 < (2 :: nat) ^ 64"
    using assms div_times_less_eq_dividend [of n "2 ^ 26"] by linarith
  then show ?thesis
    unfolding cxl_ptr_segment_def segment_mask and_not_mask word_unat_eq_iff
    using assms
    by (simp only: unsigned_push_bit_eq unat_drop_bit_eq unat_of_nat_64)
       (simp add: push_bit_eq_mult drop_bit_eq_div take_bit_eq_mod)
qed

lemma cxl_segment_page_of_nat:
  assumes "s \<le> n" and "n < 2 ^ 64"
  shows "cxl_segment_page_of (of_nat s) (of_nat n) = of_nat (s + 8 + (n - s) div 2 ^ 16 * 48)"
proof -
  have "of_nat n - of_nat s = (of_nat (n - s) :: u64)"
    using assms(1) by simp
  moreover have "drop_bit 16 (of_nat (n - s) :: u64) = of_nat ((n - s) div 2 ^ 16)"
    using of_nat_div_64 [of "n - s" "2 ^ 16"] assms(2) by (simp add: drop_bit_eq_div)
  ultimately show ?thesis
    by (simp add: cxl_segment_page_of_def Let_def layout)
qed


section \<open>Blocks, pages and segments\<close>

lemma seg_at_nat: "seg_at s = of_nat (2 ^ 27 + s * 2 ^ 26)"
  by (simp add: seg_at_def layout)

lemma meta_at_nat: "meta_at (seg_at s) j = of_nat (2 ^ 27 + s * 2 ^ 26 + 8 + j * 48)"
  by (simp add: meta_at_def seg_at_nat layout)

lemma page_area_nat: "page_area (seg_at s) j = of_nat (2 ^ 27 + s * 2 ^ 26 + j * 2 ^ 16)"
  by (simp add: page_area_def seg_at_nat layout)

text \<open>An address inside page \<open>j\<close> of segment \<open>s\<close>.\<close>

lemma in_page_nat:
  "page_area (seg_at s) j + of_nat k = of_nat (2 ^ 27 + s * 2 ^ 26 + j * 2 ^ 16 + k)"
  by (simp add: page_area_nat)

lemma cxl_ptr_segment_in:
  assumes "s < MAX_SEGMENT_NUM" and "k < 2 ^ 26"
  shows "cxl_ptr_segment (seg_at s + of_nat k) = seg_at s"
proof -
  have eq: "seg_at s + of_nat k = of_nat (2 ^ 27 + s * 2 ^ 26 + k)"
    by (simp add: seg_at_nat)
  have bound: "2 ^ 27 + s * 2 ^ 26 + k < (2 :: nat) ^ 64"
    using assms by (simp add: layout)
  have "(2 ^ 27 + s * 2 ^ 26 + k) div 2 ^ 26 = (2 + s :: nat)"
    using digit_div [OF assms(2), of "2 + s"] by (simp add: algebra_simps)
  then show ?thesis
    unfolding eq cxl_ptr_segment_nat [OF bound] by (simp add: seg_at_nat)
qed

lemma cxl_ptr_segment_seg [simp]: "s < MAX_SEGMENT_NUM \<Longrightarrow> cxl_ptr_segment (seg_at s) = seg_at s"
  using cxl_ptr_segment_in [of s 0] by simp

lemma cxl_ptr_segment_page:
  assumes "s < MAX_SEGMENT_NUM" and "j < PAGES_PER_SEGMENT" and "k < 2 ^ 16"
  shows "cxl_ptr_segment (page_area (seg_at s) j + of_nat k) = seg_at s"
proof -
  have "j * 2 ^ 16 + k < 2 ^ 26" using assms(2,3) by (simp add: layout)
  moreover have "page_area (seg_at s) j + of_nat k = seg_at s + of_nat (j * 2 ^ 16 + k)"
    by (simp add: page_area_def layout)
  ultimately show ?thesis using cxl_ptr_segment_in [OF assms(1)] by metis
qed

lemma cxl_ptr_segment_meta:
  assumes "s < MAX_SEGMENT_NUM" and "j < PAGES_PER_SEGMENT"
  shows "cxl_ptr_segment (meta_at (seg_at s) j) = seg_at s"
proof -
  have "8 + j * 48 < 2 ^ 26" using assms(2) by (simp add: layout)
  moreover have "meta_at (seg_at s) j = seg_at s + of_nat (8 + j * 48)"
    by (simp add: meta_at_def layout)
  ultimately show ?thesis using cxl_ptr_segment_in [OF assms(1)] by metis
qed

lemma cxl_ptr_page_in:
  assumes "s < MAX_SEGMENT_NUM" and "j < PAGES_PER_SEGMENT" and "k < 2 ^ 16"
  shows "cxl_ptr_page (page_area (seg_at s) j + of_nat k) = meta_at (seg_at s) j"
proof -
  let ?n = "2 ^ 27 + s * 2 ^ 26 + j * 2 ^ 16 + k"
  have b: "?n < (2 :: nat) ^ 64" using assms by (simp add: layout)
  have "(?n - (2 ^ 27 + s * 2 ^ 26)) div 2 ^ 16 = j"
    using digit_div [OF assms(3), of j] by simp
  moreover have "cxl_ptr_page (page_area (seg_at s) j + of_nat k)
      = cxl_segment_page_of (of_nat (2 ^ 27 + s * 2 ^ 26)) (of_nat ?n)"
    by (simp only: cxl_ptr_page_def cxl_ptr_segment_page [OF assms])
       (simp only: in_page_nat seg_at_nat [symmetric])
  ultimately show ?thesis
    unfolding meta_at_nat using cxl_segment_page_of_nat [OF _ b, of "2 ^ 27 + s * 2 ^ 26"]
    by (metis add.assoc le_add1)
qed

lemma cxl_page_start_meta:
  assumes "j < PAGES_PER_SEGMENT"
  shows "cxl_page_start seg (meta_at seg j) = page_area seg j"
proof -
  have "of_nat (j * 48) div of_nat 48 = (of_nat (j * 48 div 48) :: u64)"
    using assms by (intro of_nat_div_64) (simp_all add: layout)
  then show ?thesis
    by (simp add: cxl_page_start_def meta_at_def page_area_def layout)
qed

lemma segment_index_seg_at:
  assumes "s < MAX_SEGMENT_NUM"
  shows "segment_index (seg_at s) = of_nat s"
proof -
  have "of_nat (s * 2 ^ 26) div of_nat (2 ^ 26) = (of_nat (s * 2 ^ 26 div 2 ^ 26) :: u64)"
    using assms by (intro of_nat_div_64) (simp_all add: layout)
  then show ?thesis
    by (simp add: segment_index_def seg_at_def layout)
qed

lemma sas_of_segment_seg_at: "s < MAX_SEGMENT_NUM \<Longrightarrow> sas_of_segment (seg_at s) = sas_at s"
  by (simp add: sas_of_segment_def sas_at_def segment_index_seg_at)

lemma seg_at_inj: "s < MAX_SEGMENT_NUM \<Longrightarrow> s' < MAX_SEGMENT_NUM \<Longrightarrow> seg_at s = seg_at s' \<longleftrightarrow> s = s'"
  unfolding seg_at_nat by (subst of_nat_eq_64) (simp_all add: layout)

lemma sas_at_inj: "s < MAX_SEGMENT_NUM \<Longrightarrow> s' < MAX_SEGMENT_NUM \<Longrightarrow> sas_at s = sas_at s' \<longleftrightarrow> s = s'"
proof -
  assume a: "s < MAX_SEGMENT_NUM" "s' < MAX_SEGMENT_NUM"
  have "sas_at s = of_nat (s * 32)" "sas_at s' = of_nat (s' * 32)"
    by (simp_all add: sas_at_def layout)
  then show ?thesis using a of_nat_eq_64 [of "s * 32" "s' * 32"] by (simp add: layout)
qed

lemma meta_at_inj:
  assumes "s < MAX_SEGMENT_NUM" "j < PAGES_PER_SEGMENT"
    and "s' < MAX_SEGMENT_NUM" "j' < PAGES_PER_SEGMENT"
  shows "meta_at (seg_at s) j = meta_at (seg_at s') j' \<longleftrightarrow> s = s' \<and> j = j'"
proof
  assume eq: "meta_at (seg_at s) j = meta_at (seg_at s') j'"
  have "2 ^ 27 + s * 2 ^ 26 + 8 + j * 48 = 2 ^ 27 + s' * 2 ^ 26 + 8 + j' * 48"
    using eq assms unfolding meta_at_nat by (subst (asm) of_nat_eq_64) (simp_all add: layout)
  moreover have "s = s'"
    using cxl_ptr_segment_meta [OF assms(1,2)] cxl_ptr_segment_meta [OF assms(3,4)] eq
      seg_at_inj [OF assms(1,3)] by simp
  ultimately show "s = s' \<and> j = j'" by simp
qed simp

lemma meta_at_nonzero:
  assumes "s < MAX_SEGMENT_NUM" "j < PAGES_PER_SEGMENT"
  shows "meta_at (seg_at s) j \<noteq> 0"
  using assms of_nat_eq_64 [of "2 ^ 27 + s * 2 ^ 26 + 8 + j * 48" 0]
  unfolding meta_at_nat by (simp add: layout)

text \<open>
  C19. Address arithmetic is sound: whatever byte of page \<open>j\<close> of segment \<open>s\<close> a block starts
  at, \<open>cxl_ptr_page\<close> finds that page's header, \<open>cxl_ptr_segment\<close> its segment,
  \<open>cxl_page_start\<close> leads back from the header to the page, and the allocation state computed
  for the segment is the \<open>s\<close>-th.
\<close>

theorem block_to_page_and_back:
  assumes "s < MAX_SEGMENT_NUM" and "j < PAGES_PER_SEGMENT" and "k < 65536"
  defines "b \<equiv> page_area (seg_at s) j + of_nat k"
  shows "cxl_ptr_page b = meta_at (seg_at s) j \<and> cxl_ptr_segment b = seg_at s
    \<and> cxl_page_start (cxl_ptr_segment (cxl_ptr_page b)) (cxl_ptr_page b) = page_area (seg_at s) j
    \<and> sas_of_segment (cxl_ptr_segment b) = sas_at s"
  using assms(1-3) unfolding b_def
  by (simp add: cxl_ptr_page_in cxl_ptr_segment_page cxl_ptr_segment_meta cxl_page_start_meta
      sas_of_segment_seg_at)

theorem block_to_page_and_back_witness:
  "cxl_ptr_page (page_area (seg_at 3) 5 + of_nat 4096) = meta_at (seg_at 3) 5"
  using block_to_page_and_back [of 3 5 4096] by (simp add: layout)

end
