(* ===== verification/Page_Queue.thy ===== *)
theory Page_Queue
  imports Address
begin

text \<open>
  The doubly linked page queues of \<open>src/page_queue.cpp\<close> (the 66 size bins and the queue of
  free pages of a client). An operation maps the queue object and the page headers to new
  ones; \<open>dlist\<close> is the list of pages a queue stands for, and the two operations refine
  consing and removing on it.
\<close>

type_synonym pages = "u64 \<Rightarrow> cxl_page_t"

section \<open>Operations\<close>

definition set_next :: "u64 \<Rightarrow> u64 \<Rightarrow> pages \<Rightarrow> pages" where
  "set_next a v pg = pg(a := (pg a)\<lparr>pg_next := v\<rparr>)"
definition set_prev :: "u64 \<Rightarrow> u64 \<Rightarrow> pages \<Rightarrow> pages" where
  "set_prev a v pg = pg(a := (pg a)\<lparr>pg_prev := v\<rparr>)"

definition cxl_page_queue_push ::
  "cxl_page_queue_t \<Rightarrow> u64 \<Rightarrow> pages \<Rightarrow> cxl_page_queue_t \<times> pages" where
  "cxl_page_queue_push q page pg =
     (let page_offset = page;
          pg = set_next page (pq_first q) pg;
          pg = set_prev page 0 pg
      in if pq_first q \<noteq> 0
         then (q\<lparr>pq_first := page_offset\<rparr>, set_prev (pq_first q) page_offset pg)
         else (q\<lparr>pq_first := page_offset, pq_last := page_offset\<rparr>, pg))"

definition cxl_page_queue_remove ::
  "cxl_page_queue_t \<Rightarrow> u64 \<Rightarrow> pages \<Rightarrow> cxl_page_queue_t \<times> pages" where
  "cxl_page_queue_remove q page pg =
     (let page_offset = page;
          prev_page = pg_prev (pg page);
          next_page = pg_next (pg page);
          pg = (if prev_page \<noteq> 0 then set_next prev_page (pg_next (pg page)) pg else pg);
          pg = (if next_page \<noteq> 0 then set_prev next_page (pg_prev (pg page)) pg else pg);
          q = (if page_offset = pq_last q then q\<lparr>pq_last := pg_prev (pg page)\<rparr> else q);
          q = (if page_offset = pq_first q then q\<lparr>pq_first := pg_next (pg page)\<rparr> else q);
          pg = set_next page 0 pg;
          pg = set_prev page 0 pg
      in (q, pg))"

lemma set_next_prev_simps [simp]:
  "pg_next (set_next a v pg x) = (if x = a then v else pg_next (pg x))"
  "pg_prev (set_next a v pg x) = pg_prev (pg x)"
  "pg_next (set_prev a v pg x) = pg_next (pg x)"
  "pg_prev (set_prev a v pg x) = (if x = a then v else pg_prev (pg x))"
  by (simp_all add: set_next_def set_prev_def)

lemma set_next_prev_other [simp]:
  "pg_free (set_next a v pg x) = pg_free (pg x)"
  "pg_local_free (set_next a v pg x) = pg_local_free (pg x)"
  "pg_block_size (set_next a v pg x) = pg_block_size (pg x)"
  "pg_used (set_next a v pg x) = pg_used (pg x)"
  "pg_is_msg_queue_page (set_next a v pg x) = pg_is_msg_queue_page (pg x)"
  "pg_free (set_prev a v pg x) = pg_free (pg x)"
  "pg_local_free (set_prev a v pg x) = pg_local_free (pg x)"
  "pg_block_size (set_prev a v pg x) = pg_block_size (pg x)"
  "pg_used (set_prev a v pg x) = pg_used (pg x)"
  "pg_is_msg_queue_page (set_prev a v pg x) = pg_is_msg_queue_page (pg x)"
  by (simp_all add: set_next_def set_prev_def)

text \<open>The queue links of a header aside, neither operation changes any page header.\<close>

definition page_data_eq :: "pages \<Rightarrow> pages \<Rightarrow> bool" where
  "page_data_eq pg pg' \<longleftrightarrow> (\<forall>a. pg_free (pg' a) = pg_free (pg a)
     \<and> pg_local_free (pg' a) = pg_local_free (pg a) \<and> pg_block_size (pg' a) = pg_block_size (pg a)
     \<and> pg_used (pg' a) = pg_used (pg a)
     \<and> pg_is_msg_queue_page (pg' a) = pg_is_msg_queue_page (pg a))"

lemma page_data_eq_refl [simp]: "page_data_eq pg pg"
  by (simp add: page_data_eq_def)

lemma page_data_eq_trans: "page_data_eq pg pg' \<Longrightarrow> page_data_eq pg' pg'' \<Longrightarrow> page_data_eq pg pg''"
  by (simp add: page_data_eq_def)

lemma page_data_eq_set [simp]:
  "page_data_eq pg (set_next a v pg') \<longleftrightarrow> page_data_eq pg pg'"
  "page_data_eq pg (set_prev a v pg') \<longleftrightarrow> page_data_eq pg pg'"
  by (simp_all add: page_data_eq_def)

lemma page_data_eqD:
  assumes "page_data_eq pg pg'"
  shows "pg_free (pg' a) = pg_free (pg a)" "pg_local_free (pg' a) = pg_local_free (pg a)"
    "pg_block_size (pg' a) = pg_block_size (pg a)" "pg_used (pg' a) = pg_used (pg a)"
    "pg_is_msg_queue_page (pg' a) = pg_is_msg_queue_page (pg a)"
  using assms by (simp_all add: page_data_eq_def)

lemma push_page_data: "page_data_eq pg (snd (cxl_page_queue_push q page pg))"
  by (simp add: cxl_page_queue_push_def Let_def)

lemma remove_page_data: "page_data_eq pg (snd (cxl_page_queue_remove q page pg))"
  by (simp add: cxl_page_queue_remove_def Let_def)


section \<open>The list a queue stands for\<close>

definition dlist :: "pages \<Rightarrow> cxl_page_queue_t \<Rightarrow> u64 list \<Rightarrow> bool" where
  "dlist pg q xs \<longleftrightarrow>
     chain (\<lambda>a. pg_next (pg a)) (pq_first q) xs \<and>
     chain (\<lambda>a. pg_prev (pg a)) (pq_last q) (rev xs)"

definition queue_empty :: "cxl_page_queue_t \<Rightarrow> bool" where
  "queue_empty q \<longleftrightarrow> pq_first q = 0"

lemma dlist_unique: "dlist pg q xs \<Longrightarrow> dlist pg q ys \<Longrightarrow> xs = ys"
  unfolding dlist_def by (blast intro: chain_unique)

lemma dlist_distinct: "dlist pg q xs \<Longrightarrow> distinct xs"
  unfolding dlist_def by (blast intro: chain_distinct)

lemma dlist_nonzero: "dlist pg q xs \<Longrightarrow> 0 \<notin> set xs"
  unfolding dlist_def by (blast dest: chain_nonzero)

lemma dlist_first: "dlist pg q xs \<Longrightarrow> pq_first q = (if xs = [] then 0 else hd xs)"
  unfolding dlist_def by (blast dest: chain_head)

lemma dlist_last: "dlist pg q xs \<Longrightarrow> pq_last q = (if xs = [] then 0 else last xs)"
  unfolding dlist_def by (auto dest: chain_head simp: hd_rev)

lemma dlist_empty_iff: "dlist pg q xs \<Longrightarrow> queue_empty q \<longleftrightarrow> xs = []"
  by (cases xs) (auto simp: queue_empty_def dlist_def)

lemma dlist_Nil [simp]: "dlist pg q [] \<longleftrightarrow> pq_first q = 0 \<and> pq_last q = 0"
  by (simp add: dlist_def)

lemma dlist_cong:
  assumes "\<And>x. x \<in> set xs \<Longrightarrow> pg_next (pg x) = pg_next (pg' x) \<and> pg_prev (pg x) = pg_prev (pg' x)"
    and "pq_first q = pq_first q'" and "pq_last q = pq_last q'"
  shows "dlist pg q xs \<longleftrightarrow> dlist pg' q' xs"
  unfolding dlist_def using assms by (metis (no_types, lifting) chain_cong set_rev)

text \<open>The neighbours of an element of the list are what its header says.\<close>

lemma chain_next_at:
  assumes "chain nx a (xs @ p # ys)"
  shows "nx p = (if ys = [] then 0 else hd ys)"
  using assms by (auto simp: chain_append dest: chain_head)

lemma dlist_neighbours:
  assumes "dlist pg q (xs @ p # ys)"
  shows "pg_next (pg p) = (if ys = [] then 0 else hd ys)"
    and "pg_prev (pg p) = (if xs = [] then 0 else last xs)"
proof -
  from assms have n: "chain (\<lambda>a. pg_next (pg a)) (pq_first q) (xs @ p # ys)"
    and r: "chain (\<lambda>a. pg_prev (pg a)) (pq_last q) (rev ys @ p # rev xs)"
    by (simp_all add: dlist_def)
  show "pg_next (pg p) = (if ys = [] then 0 else hd ys)"
    using chain_next_at [OF n] by simp
  show "pg_prev (pg p) = (if xs = [] then 0 else last xs)"
    using chain_next_at [OF r] by (simp add: hd_rev)
qed

text \<open>
  Unlinking an inner node of a chain, in either direction: it is enough that the successor
  of the node before it becomes its own successor and all others stay.
\<close>

lemma chain_unlink:
  assumes c: "chain nx a (xs @ p # ys)"
    and upd: "\<And>u. u \<in> set xs \<union> set ys \<Longrightarrow>
      nx' u = (if xs \<noteq> [] \<and> u = last xs then nx p else nx u)"
  shows "chain nx' (if xs = [] then nx p else a) (xs @ ys)"
proof (cases xs rule: rev_cases)
  case Nil
  with c have "chain nx (nx p) ys" by simp
  with upd Nil show ?thesis by (subst chain_cong [of _ _ nx]) auto
next
  case (snoc as l)
  have dist: "distinct (as @ l # p # ys)" using chain_distinct [OF c] snoc by simp
  from c snoc have 1: "path nx a as l" "l \<noteq> 0" "chain nx (nx p) ys"
    by (auto simp: chain_append)
  from 1(1) have "path nx' a as l"
    using upd snoc dist by (subst path_cong [of _ _ nx]) auto
  moreover have "nx' l = nx p" using upd [of l] snoc by simp
  moreover from 1(3) have "chain nx' (nx p) ys"
    using upd snoc dist by (subst chain_cong [of _ _ nx]) auto
  ultimately show ?thesis using 1(2) snoc by (auto simp: chain_append)
qed


section \<open>Refinement\<close>

lemma push_fst:
  "pq_first (fst (cxl_page_queue_push q page pg)) = page"
  "pq_last (fst (cxl_page_queue_push q page pg)) = (if pq_first q = 0 then page else pq_last q)"
  "pq_block_size (fst (cxl_page_queue_push q page pg)) = pq_block_size q"
  by (simp_all add: cxl_page_queue_push_def Let_def)

lemma push_snd:
  "pg_next (snd (cxl_page_queue_push q page pg) a) = (if a = page then pq_first q else pg_next (pg a))"
  "pg_prev (snd (cxl_page_queue_push q page pg) a) =
     (if pq_first q \<noteq> 0 \<and> a = pq_first q then page else if a = page then 0 else pg_prev (pg a))"
  by (simp_all add: cxl_page_queue_push_def Let_def)

lemma remove_snd:
  assumes "pg_prev (pg p) \<noteq> p" and "pg_next (pg p) \<noteq> p"
  shows "pg_next (snd (cxl_page_queue_remove q p pg) a) =
      (if a = p then 0 else if pg_prev (pg p) \<noteq> 0 \<and> a = pg_prev (pg p)
       then pg_next (pg p) else pg_next (pg a))"
    and "pg_prev (snd (cxl_page_queue_remove q p pg) a) =
      (if a = p then 0 else if pg_next (pg p) \<noteq> 0 \<and> a = pg_next (pg p)
       then pg_prev (pg p) else pg_prev (pg a))"
  using assms by (auto simp: cxl_page_queue_remove_def Let_def)

lemma remove_fst:
  assumes "pg_prev (pg p) \<noteq> p" and "pg_next (pg p) \<noteq> p"
  shows "pq_first (fst (cxl_page_queue_remove q p pg)) =
      (if p = pq_first q then pg_next (pg p) else pq_first q)"
    and "pq_last (fst (cxl_page_queue_remove q p pg)) =
      (if p = pq_last q then pg_prev (pg p) else pq_last q)"
    and "pq_block_size (fst (cxl_page_queue_remove q p pg)) = pq_block_size q"
  using assms by (auto simp: cxl_page_queue_remove_def Let_def)

lemma push_dlist:
  assumes "dlist pg q xs" and "page \<noteq> 0" and "page \<notin> set xs"
  defines "r \<equiv> cxl_page_queue_push q page pg"
  shows "dlist (snd r) (fst r) (page # xs)"
proof -
  have n: "chain (\<lambda>a. pg_next (pg a)) (pq_first q) xs"
    and p: "chain (\<lambda>a. pg_prev (pg a)) (pq_last q) (rev xs)"
    using assms(1) by (simp_all add: dlist_def)
  have "chain (\<lambda>a. pg_next (snd r a)) (pq_first q) xs"
    using n assms(3) by (subst chain_cong [of _ _ "\<lambda>a. pg_next (pg a)"]) (auto simp: r_def push_snd)
  then have 1: "chain (\<lambda>a. pg_next (snd r a)) page (page # xs)"
    using assms(2) by (simp add: r_def push_snd)
  have 2: "chain (\<lambda>a. pg_prev (snd r a)) (pq_last (fst r)) (rev xs @ [page])"
  proof (cases xs)
    case Nil
    with assms show ?thesis by (simp add: r_def push_snd push_fst)
  next
    case (Cons y ys)
    have d: "distinct xs" by (rule dlist_distinct [OF assms(1)])
    have y: "pq_first q = y" "y \<noteq> 0" using n Cons by auto
    have "path (\<lambda>a. pg_prev (pg a)) (pq_last q) (rev ys) y"
      using p Cons by (auto simp: chain_append)
    then have "path (\<lambda>a. pg_prev (snd r a)) (pq_last q) (rev ys) y"
      using d assms(3) Cons y
      by (subst path_cong [of _ _ "\<lambda>a. pg_prev (pg a)"]) (auto simp: r_def push_snd)
    then show ?thesis
      using y assms(2,3) Cons by (auto simp: chain_append r_def push_snd push_fst)
  qed
  from 1 2 show ?thesis by (simp add: dlist_def r_def push_fst)
qed

lemma remove_dlist:
  assumes d: "dlist pg q (xs @ p # ys)"
  defines "r \<equiv> cxl_page_queue_remove q p pg"
  shows "dlist (snd r) (fst r) (xs @ ys)"
    and "pg_next (snd r p) = 0" and "pg_prev (snd r p) = 0"
proof -
  have dist: "distinct (xs @ p # ys)" and nz: "0 \<notin> set (xs @ p # ys)"
    using dlist_distinct [OF d] dlist_nonzero [OF d] by simp_all
  note nb = dlist_neighbours [OF d]
  have lx: "xs \<noteq> [] \<Longrightarrow> last xs \<in> set xs" and hy: "ys \<noteq> [] \<Longrightarrow> hd ys \<in> set ys"
    by simp_all
  have pn: "pg_prev (pg p) \<noteq> p" "pg_next (pg p) \<noteq> p"
    using nb dist nz lx hy by (cases "xs = []"; cases "ys = []"; force)+
  note rs = remove_snd [where pg = pg and p = p and q = q, OF pn, folded r_def]
  show "pg_next (snd r p) = 0" "pg_prev (snd r p) = 0" by (simp_all add: rs)
  have first: "pq_first (fst r) = (if xs = [] then pg_next (pg p) else pq_first q)"
    using remove_fst(1) [where pg = pg and p = p and q = q, OF pn] dlist_first [OF d] dist by (cases xs) (auto simp: r_def)
  have last: "pq_last (fst r) = (if rev ys = [] then pg_prev (pg p) else pq_last q)"
    using remove_fst(2) [where pg = pg and p = p and q = q, OF pn] dlist_last [OF d] dist
    by (cases ys rule: rev_cases) (auto simp: r_def)
  have c: "chain (\<lambda>a. pg_next (pg a)) (pq_first q) (xs @ p # ys)"
    "chain (\<lambda>a. pg_prev (pg a)) (pq_last q) (rev ys @ p # rev xs)"
    using d by (simp_all add: dlist_def)
  have "chain (\<lambda>a. pg_next (snd r a)) (pq_first (fst r)) (xs @ ys)"
    unfolding first by (rule chain_unlink [OF c(1)]) (use dist nz nb lx in \<open>auto simp: rs\<close>)
  moreover have "chain (\<lambda>a. pg_prev (snd r a)) (pq_last (fst r)) (rev ys @ rev xs)"
    unfolding last by (rule chain_unlink [OF c(2)]) (use dist nz nb hy in \<open>auto simp: rs last_rev\<close>)
  ultimately show "dlist (snd r) (fst r) (xs @ ys)" by (simp add: dlist_def)
qed


text \<open>An operation on one queue leaves a queue of other pages alone.\<close>

lemma push_frame:
  assumes "dlist pg q ys" and "dlist pg q0 xs" and "page \<notin> set ys" and "set xs \<inter> set ys = {}"
  shows "dlist (snd (cxl_page_queue_push q0 page pg)) q ys"
proof -
  have "pq_first q0 \<noteq> 0 \<Longrightarrow> pq_first q0 \<in> set xs"
    using dlist_first [OF assms(2)] by (cases xs) auto
  then show ?thesis
    using assms by (subst dlist_cong [of _ _ pg _ q]) (auto simp: push_snd)
qed

lemma remove_frame:
  assumes "dlist pg q ys" and "dlist pg q0 (as @ p # bs)" and "set (as @ p # bs) \<inter> set ys = {}"
  shows "dlist (snd (cxl_page_queue_remove q0 p pg)) q ys"
proof -
  note nb = dlist_neighbours [OF assms(2)]
  have d: "distinct (as @ p # bs)" "0 \<notin> set (as @ p # bs)"
    using dlist_distinct [OF assms(2)] dlist_nonzero [OF assms(2)] by simp_all
  have m: "as \<noteq> [] \<Longrightarrow> last as \<in> set as" "bs \<noteq> [] \<Longrightarrow> hd bs \<in> set bs" by simp_all
  have m1: "as \<noteq> [] \<Longrightarrow> last as \<notin> set ys"
    using assms(3) by (cases as rule: rev_cases) simp_all
  have m2: "bs \<noteq> [] \<Longrightarrow> hd bs \<notin> set ys" using assms(3) by (cases bs) simp_all
  have m3: "p \<notin> set ys" using assms(3) by simp
  from m have pn: "pg_prev (pg p) \<noteq> p" "pg_next (pg p) \<noteq> p"
    using nb d by (auto split: if_splits)
  have "x \<noteq> p \<and> (pg_prev (pg p) \<noteq> 0 \<longrightarrow> x \<noteq> pg_prev (pg p)) \<and> (pg_next (pg p) \<noteq> 0 \<longrightarrow> x \<noteq> pg_next (pg p))"
    if "x \<in> set ys" for x
    using that nb m1 m2 m3 by (auto split: if_splits)
  then show ?thesis
    using assms(1) by (subst dlist_cong [of _ _ pg _ q]) (auto simp: remove_snd [where pg = pg and p = p, OF pn])
qed


section \<open>The queue as an interface\<close>

text \<open>
  What users of a page queue rely on: pushing a new page conses it, removing a member
  removes it, and nothing is in a queue twice. Pushing or removing whole batches of pages
  (a segment's pages enter and leave the free queue together) follows once and for all.
\<close>

locale page_list =
  fixes rep :: "'s \<Rightarrow> 'a list \<Rightarrow> bool"
    and push :: "'a \<Rightarrow> 's \<Rightarrow> 's"
    and remove :: "'a \<Rightarrow> 's \<Rightarrow> 's"
    and ok :: "'a \<Rightarrow> bool"
  assumes rep_push: "rep s xs \<Longrightarrow> ok x \<Longrightarrow> x \<notin> set xs \<Longrightarrow> rep (push x s) (x # xs)"
    and rep_remove: "rep s xs \<Longrightarrow> x \<in> set xs \<Longrightarrow> rep (remove x s) (remove1 x xs)"
    and rep_distinct: "rep s xs \<Longrightarrow> distinct xs"
    and rep_ok: "rep s xs \<Longrightarrow> x \<in> set xs \<Longrightarrow> ok x"
begin

lemma push_all:
  assumes "rep s xs" and "distinct ys" and "\<forall>y \<in> set ys. ok y" and "set ys \<inter> set xs = {}"
  shows "rep (fold push ys s) (rev ys @ xs)"
  using assms
proof (induction ys arbitrary: s xs)
  case Nil
  then show ?case by simp
next
  case (Cons y ys)
  have "rep (push y s) (y # xs)" using Cons.prems by (intro rep_push) auto
  then have "rep (fold push ys (push y s)) (rev ys @ y # xs)"
    using Cons.prems by (intro Cons.IH) auto
  then show ?case by simp
qed

lemma remove_all:
  assumes "rep s xs" and "distinct ys" and "set ys \<subseteq> set xs"
  shows "rep (fold remove ys s) (filter (\<lambda>x. x \<notin> set ys) xs)"
  using assms
proof (induction ys arbitrary: s xs)
  case Nil
  then show ?case by simp
next
  case (Cons y ys)
  have d: "distinct xs" by (rule rep_distinct [OF Cons.prems(1)])
  have "rep (remove y s) (remove1 y xs)" using Cons.prems by (intro rep_remove) auto
  then have "rep (fold remove ys (remove y s)) (filter (\<lambda>x. x \<notin> set ys) (remove1 y xs))"
    using Cons.prems d by (intro Cons.IH) auto
  moreover have "filter (\<lambda>x. x \<notin> set ys) (remove1 y xs) = filter (\<lambda>x. x \<notin> set (y # ys)) xs"
    using d by (simp add: distinct_remove1_removeAll removeAll_filter_not_eq) (auto intro: filter_cong)
  ultimately show ?case by simp
qed

lemma push_remove:
  assumes "rep s xs" and "ok x" and "x \<notin> set xs"
  shows "rep (remove x (push x s)) xs"
  using rep_remove [OF rep_push [OF assms], of x] by simp

end

definition dlist_state :: "cxl_page_queue_t \<times> pages \<Rightarrow> u64 list \<Rightarrow> bool" where
  "dlist_state s xs \<longleftrightarrow> dlist (snd s) (fst s) xs"
definition push_state :: "u64 \<Rightarrow> cxl_page_queue_t \<times> pages \<Rightarrow> cxl_page_queue_t \<times> pages" where
  "push_state page s = cxl_page_queue_push (fst s) page (snd s)"
definition remove_state :: "u64 \<Rightarrow> cxl_page_queue_t \<times> pages \<Rightarrow> cxl_page_queue_t \<times> pages" where
  "remove_state page s = cxl_page_queue_remove (fst s) page (snd s)"

interpretation pq: page_list dlist_state push_state remove_state "\<lambda>a. a \<noteq> 0"
proof unfold_locales
  fix s xs and x :: u64
  assume s: "dlist_state s xs"
  show "distinct xs" using s by (auto simp: dlist_state_def dest: dlist_distinct)
  show "x \<noteq> 0" if "x \<in> set xs" using s that by (auto simp: dlist_state_def dest: dlist_nonzero)
  show "dlist_state (push_state x s) (x # xs)" if "x \<noteq> 0" "x \<notin> set xs"
    using push_dlist s that by (simp add: dlist_state_def push_state_def)
  show "dlist_state (remove_state x s) (remove1 x xs)" if x: "x \<in> set xs"
  proof -
    from x obtain as bs where xs: "xs = as @ x # bs" "x \<notin> set as" by (meson split_list_first)
    with s show ?thesis
      using remove_dlist(1) [of "snd s" "fst s" as x bs]
      by (simp add: dlist_state_def remove_state_def remove1_append)
  qed
qed

lemma push_all_frame:
  assumes "dlist pg q ys" and "dlist pg q0 xs" and "distinct ps" and "0 \<notin> set ps"
    and "set ps \<inter> set xs = {}" and "set ys \<inter> (set ps \<union> set xs) = {}"
  shows "dlist (snd (fold push_state ps (q0, pg))) q ys"
  using assms
proof (induction ps arbitrary: q0 pg xs)
  case (Cons p ps)
  have y: "p \<notin> set ys" "set xs \<inter> set ys = {}" using Cons.prems(6) by auto
  have x: "p \<noteq> 0" "p \<notin> set xs" using Cons.prems(4,5) by auto
  have "dlist (snd (push_state p (q0, pg))) q ys"
    using push_frame [OF Cons.prems(1,2) y] by (simp add: push_state_def)
  moreover have "dlist (snd (push_state p (q0, pg))) (fst (push_state p (q0, pg))) (p # xs)"
    using push_dlist [OF Cons.prems(2) x] by (simp add: push_state_def)
  ultimately show ?case
    using Cons.IH [of "snd (push_state p (q0, pg))" "fst (push_state p (q0, pg))" "p # xs"] Cons.prems by auto
qed simp

lemma remove_all_frame:
  assumes "dlist pg q ys" and "dlist pg q0 xs" and "distinct ps" and "set ps \<subseteq> set xs" and "set ys \<inter> set xs = {}"
  shows "dlist (snd (fold remove_state ps (q0, pg))) q ys"
  using assms
proof (induction ps arbitrary: q0 pg xs)
  case (Cons p ps)
  obtain as bs where xs: "xs = as @ p # bs" using Cons.prems(4) by (auto simp: in_set_conv_decomp)
  have d: "dlist pg q0 (as @ p # bs)" "set (as @ p # bs) \<inter> set ys = {}" using Cons.prems(2,5) by (auto simp: xs)
  have "dlist (snd (remove_state p (q0, pg))) q ys"
    using remove_frame [OF Cons.prems(1) d] by (simp add: remove_state_def)
  moreover have "dlist (snd (remove_state p (q0, pg))) (fst (remove_state p (q0, pg))) (as @ bs)"
    using remove_dlist(1) [OF d(1)] by (simp add: remove_state_def)
  moreover have "set ps \<subseteq> set (as @ bs)" using Cons.prems(3,4) by (auto simp: xs)
  moreover have "set ys \<inter> set (as @ bs) = {}" using d(2) by auto
  ultimately show ?case
    using Cons.IH [of "snd (remove_state p (q0, pg))" "fst (remove_state p (q0, pg))" "as @ bs"] Cons.prems(3) by simp
qed simp

text \<open>
  C20. Pushing a page that is not in the queue puts it at the front: the queue then stands
  for the old list with the page consed on, from both ends.
\<close>

theorem push_refines_cons:
  assumes "dlist pg q xs" and "page \<noteq> 0" and "page \<notin> set xs"
  shows "dlist (snd (cxl_page_queue_push q page pg)) (fst (cxl_page_queue_push q page pg)) (page # xs)"
  using pq.rep_push [of "(q, pg)" xs page] assms by (simp add: dlist_state_def push_state_def)

theorem push_refines_cons_witness:
  "dlist (snd (cxl_page_queue_push zero_pq 64 (\<lambda>_. zero_page)))
     (fst (cxl_page_queue_push zero_pq 64 (\<lambda>_. zero_page))) [64]"
  by (rule push_refines_cons) (simp_all add: zero_defs)

text \<open>
  C21. Removing a page that is in the queue, wherever it stands, removes exactly that page,
  keeps the order of the others, clears the removed page's links and changes no other field
  of any page header.
\<close>

theorem remove_refines_remove1:
  assumes "dlist pg q xs" and "page \<in> set xs"
  defines "r \<equiv> cxl_page_queue_remove q page pg"
  shows "dlist (snd r) (fst r) (remove1 page xs)
    \<and> pg_next (snd r page) = 0 \<and> pg_prev (snd r page) = 0 \<and> page_data_eq pg (snd r)"
proof (intro conjI)
  show "dlist (snd r) (fst r) (remove1 page xs)"
    using pq.rep_remove [of "(q, pg)" xs page] assms by (simp add: dlist_state_def remove_state_def)
qed (simp_all add: r_def cxl_page_queue_remove_def Let_def)

definition two_page_queue :: "cxl_page_queue_t \<times> pages" where
  "two_page_queue = push_state 48 (push_state 64 (zero_pq, \<lambda>_. zero_page))"

lemma two_page_queue_dlist: "dlist (snd two_page_queue) (fst two_page_queue) [48, 64]"
  by (simp add: two_page_queue_def push_state_def cxl_page_queue_push_def dlist_def zero_defs)

theorem remove_refines_remove1_witness:
  "dlist (snd (cxl_page_queue_remove (fst two_page_queue) 64 (snd two_page_queue)))
    (fst (cxl_page_queue_remove (fst two_page_queue) 64 (snd two_page_queue))) [48]"
  using remove_refines_remove1 [OF two_page_queue_dlist, of 64] by simp

end
