(* ===== verification/Ref_Info.thy ===== *)
theory Ref_Info
  imports Shm_Types
begin

text \<open>
  The packed words of \<open>include/cxlmalloc-internal.h\<close>: \<open>ref_info\<close> holds, in one word that a
  compare-and-swap can replace, who last changed an object's reference count (\<open>lcid\<close>, 16
  bits), the count (16 bits) and that client's era at the change (\<open>lenum\<close>, 32 bits).
\<close>

definition pack_machine_process_id :: "u64 \<Rightarrow> u16 \<Rightarrow> u64" where
  "pack_machine_process_id machine_id process_id = push_bit 16 machine_id + ucast process_id"

definition pack_ref_info :: "u64 \<Rightarrow> u64 \<Rightarrow> u32 \<Rightarrow> u64" where
  "pack_ref_info lcid ref_cnt lenum = push_bit 48 lcid + push_bit 32 ref_cnt + ucast lenum"

definition get_ref_cnt_from_info :: "u64 \<Rightarrow> u64" where
  "get_ref_cnt_from_info ref_info = drop_bit 32 ref_info AND (push_bit 16 1 - 1)"

definition get_lenum_from_info :: "u64 \<Rightarrow> u64" where
  "get_lenum_from_info ref_info = ref_info AND (push_bit 32 1 - 1)"

definition get_lcid_from_info :: "u64 \<Rightarrow> u64" where
  "get_lcid_from_info ref_info = drop_bit 48 ref_info AND (push_bit 16 1 - 1)"

lemma mask_words: "push_bit 16 1 - 1 = (mask 16 :: u64)" "push_bit 32 1 - 1 = (mask 32 :: u64)"
  by (simp_all add: mask_eq_exp_minus_1)

lemma get_ref_cnt_alt: "get_ref_cnt_from_info w = take_bit 16 (drop_bit 32 w)"
  by (simp only: get_ref_cnt_from_info_def mask_words take_bit_eq_mask)

lemma get_lenum_alt: "get_lenum_from_info w = take_bit 32 w"
  by (simp only: get_lenum_from_info_def mask_words take_bit_eq_mask)

lemma get_lcid_alt: "get_lcid_from_info w = drop_bit 48 w"
proof -
  have "get_lcid_from_info w = take_bit 16 (drop_bit 48 w)"
    by (simp only: get_lcid_from_info_def mask_words take_bit_eq_mask)
  also have "\<dots> = drop_bit 48 w"
    by (rule bit_word_eqI) (auto simp: bit_simps dest: bit_imp_le_length)
  finally show ?thesis .
qed

text \<open>In terms of natural numbers the three fields are digits of the word.\<close>

lemma unat_fields:
  "unat (get_lcid_from_info w) = unat w div 2 ^ 48"
  "unat (get_ref_cnt_from_info w) = unat w div 2 ^ 32 mod 2 ^ 16"
  "unat (get_lenum_from_info w) = unat w mod 2 ^ 32"
  by (simp_all add: get_lcid_alt get_ref_cnt_alt get_lenum_alt take_bit_eq_mod drop_bit_eq_div
      unat_div_distrib unat_mod_distrib)

lemma unat_push_bit_64: "unat (push_bit n (l :: u64)) = unat l * 2 ^ n mod 2 ^ 64"
  by (simp only: unsigned_push_bit_eq take_bit_eq_mod push_bit_eq_mult [where 'a = nat]) simp

lemma unat_ucast_u32 [simp]: "unat (ucast (e :: u32) :: u64) = unat e"
  using unat_bound [of e] by (simp add: unsigned_ucast_eq take_bit_nat_eq_self_iff)

lemma unat_ucast_u16 [simp]: "unat (ucast (e :: u16) :: u64) = unat e"
  using unat_bound [of e] by (simp add: unsigned_ucast_eq take_bit_nat_eq_self_iff)

lemma unat_pack:
  "unat (pack_ref_info l c e) = (unat l * 2 ^ 48 + unat c * 2 ^ 32 + unat e) mod 2 ^ 64"
  unfolding pack_ref_info_def unat_word_ariths unat_push_bit_64 unat_ucast_u32
  by (simp add: mod_simps)

text \<open>Three digits read back from their sum.\<close>

lemma digits_nat:
  fixes l c e :: nat
  assumes "l < 2 ^ 16" and "c < 2 ^ 16" and "e < 2 ^ 32"
  defines "n \<equiv> (l * 2 ^ 48 + c * 2 ^ 32 + e) mod 2 ^ 64"
  shows "n div 2 ^ 48 = l" and "n div 2 ^ 32 mod 2 ^ 16 = c" and "n mod 2 ^ 32 = e"
proof -
  have n: "n = l * 2 ^ 48 + (c * 2 ^ 32 + e)"
    using assms(1-3) unfolding n_def by simp
  have r: "c * 2 ^ 32 + e < 2 ^ 48" using assms(2,3) by simp
  have n': "n = (l * 2 ^ 16 + c) * 2 ^ 32 + e" unfolding n by simp
  show "n div 2 ^ 48 = l" unfolding n by (rule digit_div [OF r])
  have "n div 2 ^ 32 = l * 2 ^ 16 + c" unfolding n' by (rule digit_div [OF assms(3)])
  then show "n div 2 ^ 32 mod 2 ^ 16 = c" using digit_mod [OF assms(2)] by simp
  show "n mod 2 ^ 32 = e" unfolding n' by (rule digit_mod [OF assms(3)])
qed

lemma pack_fields:
  assumes "unat l < 2 ^ 16" and "unat c < 2 ^ 16"
  shows "get_lcid_from_info (pack_ref_info l c e) = l"
    and "get_ref_cnt_from_info (pack_ref_info l c e) = c"
    and "get_lenum_from_info (pack_ref_info l c e) = ucast e"
  unfolding word_unat_eq_iff unat_fields unat_pack unat_ucast_u32
  using assms unat_bound [of e] digits_nat [of "unat l" "unat c" "unat e"] by simp_all

text \<open>
  C18. Packing and unpacking \<open>ref_info\<close> loses nothing while client id and count fit their 16
  bits: each accessor reads back the field that was packed.
\<close>

theorem ref_info_roundtrip:
  assumes "unat lcid < 2 ^ 16" and "unat cnt < 2 ^ 16"
  shows "get_lcid_from_info (pack_ref_info lcid cnt lenum) = lcid
    \<and> get_ref_cnt_from_info (pack_ref_info lcid cnt lenum) = cnt
    \<and> get_lenum_from_info (pack_ref_info lcid cnt lenum) = ucast lenum"
  using pack_fields [OF assms] by blast

theorem ref_info_roundtrip_witness:
  "get_lcid_from_info (pack_ref_info 7 3 41) = 7
    \<and> get_ref_cnt_from_info (pack_ref_info 7 3 41) = 3
    \<and> get_lenum_from_info (pack_ref_info 7 3 41) = 41"
  using ref_info_roundtrip [of 7 3 41] by simp

end
