(* ===== verification/Thread_State.thy ===== *)
theory Thread_State
  imports Page_Queue Ref_Info
begin

text \<open>
  The thread local states: how a client claims one (\<open>thread_init\<close> in \<open>src/cxl_shm.cpp\<close>,
  \<open>get_mac\<close> in \<open>include/cxlmalloc-internal.h\<close>), its 66 size bins, and the bin a block size
  belongs to (\<open>cxl_page_queue\<close>).
\<close>

section \<open>Size bins\<close>

text \<open>
  \<open>cxl_page_queue(special, size)\<close>: the index of the bin. The code returns the address of
  the array element without checking the index; an index past the array is a fault here.
\<close>

definition cxl_page_queue :: "bool \<Rightarrow> u64 \<Rightarrow> fault + nat" where
  "cxl_page_queue special sz =
     (if special \<and> sz = 16 then Inr 0
      else if special \<and> sz = sizeof_msg_queue then Inr 1
      else let i = unat (drop_bit 4 (sz - 1) + 2)
           in if i < CXL_BIN_SIZE then Inr i else Inl Bin_Out_Of_Range)"

text \<open>The bins as \<open>thread_init\<close> and the garbage collections reset them.\<close>

definition init_bins :: "(nat \<Rightarrow> cxl_page_queue_t) \<Rightarrow> nat \<Rightarrow> cxl_page_queue_t" where
  "init_bins old i =
     (if i = 0 then \<lparr>pq_first = 0, pq_last = 0, pq_block_size = 16\<rparr>
      else if i = 1 then \<lparr>pq_first = 0, pq_last = 0,
             pq_block_size = 16 * drop_bit 4 (sizeof_msg_queue - 1) + 16\<rparr>
      else if i < CXL_BIN_SIZE then \<lparr>pq_first = 0, pq_last = 0,
             pq_block_size = 16 * (of_nat i - 1)\<rparr>
      else old i)"

definition reset_tls :: "cxl_tls_t \<Rightarrow> cxl_tls_t" where
  "reset_tls t = t\<lparr>tls_pages := init_bins (tls_pages t), tls_free_page := zero_pq,
     tls_sender_queue := 0, tls_receiver_queue := 0\<rparr>"

lemma bin_index:
  assumes "1 \<le> n" and "n \<le> 1024"
  shows "cxl_page_queue False (of_nat n) = Inr ((n - 1) div 16 + 2)"
proof -
  have "drop_bit 4 (of_nat n - 1 :: u64) = of_nat ((n - 1) div 16)"
    using of_nat_div_64 [of "n - 1" 16] assms by (simp add: drop_bit_eq_div of_nat_diff)
  moreover have "unat (of_nat ((n - 1) div 16) + 2 :: u64) = (n - 1) div 16 + 2"
    using unat_of_nat_64 [of "(n - 1) div 16 + 2"] assms by (simp add: algebra_simps)
  moreover have "(n - 1) div 16 < 64" using assms by (simp add: less_mult_imp_div_less)
  ultimately show ?thesis by (simp add: cxl_page_queue_def Let_def layout)
qed

text \<open>
  C22. Every size from 1 to 1024 has a bin, the bin is one of the 64 object bins, and its
  block size (as \<open>thread_init\<close> sets it) holds the request with less than 16 bytes to spare.
\<close>

theorem bin_holds_request:
  assumes "1 \<le> n" and "n \<le> 1024"
  shows "\<exists>i bs. cxl_page_queue False (of_nat n) = Inr i \<and> 2 \<le> i \<and> i < CXL_BIN_SIZE
    \<and> pq_block_size (init_bins old i) = of_nat bs \<and> n \<le> bs \<and> bs < n + 16"
proof (intro exI conjI)
  let ?i = "(n - 1) div 16 + 2" and ?bs = "16 * ((n - 1) div 16 + 1)"
  show "cxl_page_queue False (of_nat n) = Inr ?i" by (rule bin_index [OF assms])
  show "?i < CXL_BIN_SIZE" using assms by (simp add: layout less_mult_imp_div_less)
  then show "pq_block_size (init_bins old ?i) = of_nat ?bs"
    by (simp add: init_bins_def algebra_simps)
  show "n \<le> ?bs" "?bs < n + 16" using assms by (simp, presburger)+
qed simp

theorem bin_holds_request_witness:
  "\<exists>i bs. cxl_page_queue False (of_nat 56) = Inr i \<and> 2 \<le> i \<and> i < CXL_BIN_SIZE
    \<and> pq_block_size (init_bins (\<lambda>_. zero_pq) i) = of_nat bs \<and> 56 \<le> bs \<and> bs < 56 + (16 :: nat)"
  by (rule bin_holds_request) simp_all

text \<open>
  C24. Nothing bounds the size: any request over 1024 bytes (header included), and the size
  0, index past the 66 bins.
\<close>

theorem bin_out_of_range:
  assumes "sz = 0 \<or> 1024 < sz"
  shows "cxl_page_queue False sz = Inl Bin_Out_Of_Range"
proof -
  have s: "1024 \<le> sz - 1"
  proof (cases "sz = 0")
    case False
    then show ?thesis using assms by (simp add: word_le_nat_alt word_less_nat_alt unat_sub_if_size)
  qed simp
  have d: "unat (drop_bit 4 (sz - 1)) = unat (sz - 1) div 16"
    by (simp add: drop_bit_eq_div unat_div_distrib)
  have "64 \<le> unat (drop_bit 4 (sz - 1))"
    using s unfolding d word_le_nat_alt by simp
  moreover have "unat (drop_bit 4 (sz - 1)) < 2 ^ 60"
    using unat_bound [of "sz - 1"] unfolding d by (simp add: less_mult_imp_div_less)
  ultimately have "66 \<le> unat (drop_bit 4 (sz - 1) + 2)"
    by (simp add: unat_word_ariths)
  then show ?thesis by (simp add: cxl_page_queue_def Let_def layout)
qed

theorem bin_out_of_range_witness: "cxl_page_queue False 1032 = Inl Bin_Out_Of_Range"
  by (rule bin_out_of_range) simp

lemma special_bins [simp]:
  "cxl_page_queue True 16 = Inr 0" "cxl_page_queue True sizeof_msg_queue = Inr 1"
  "pq_block_size (init_bins old 0) = 16" "pq_block_size (init_bins old 1) = sizeof_msg_queue"
  by (simp_all add: cxl_page_queue_def init_bins_def layout)


section \<open>Claiming a thread local state\<close>

text \<open>
  \<open>get_mac\<close> packs the six octets it prints and scans back, most significant first; the
  octets themselves come from the operating system.
\<close>

definition get_mac :: "u8 list \<Rightarrow> u64" where
  "get_mac octets = foldl (\<lambda>result u. push_bit 8 result + ucast u) 0 octets"

text \<open>
  The search has no bound of its own: it ends at the first slot whose id it can swap from
  0, so not returning is \<open>None\<close>.
\<close>

partial_function (option) find_tls :: "shm_heap \<Rightarrow> u64 \<Rightarrow> u64 option" where
  "find_tls h offset =
     (let offset = offset + sizeof_tls
      in if tls_packed_id (h_tls h offset) = 0 then Some offset else find_tls h offset)"

definition thread_init ::
  "u64 \<Rightarrow> u16 \<Rightarrow> cxl_shm \<Rightarrow> shm_heap \<Rightarrow> (cxl_shm \<times> shm_heap) option" where
  "thread_init machine_id process_id sh h =
     (let tls_id = pack_machine_process_id machine_id process_id
      in case find_tls h (THREAD_LOCAL_VEC_START - sizeof_tls) of
           None \<Rightarrow> None
         | Some offset \<Rightarrow>
             let h = upd_tls offset (\<lambda>t. t\<lparr>tls_packed_id := tls_id\<rparr>) h;
                 tid = ucast ((offset - THREAD_LOCAL_VEC_START) div sizeof_tls + 1);
                 sh = sh\<lparr>shm_tls_offset := offset, shm_thread_id := tid\<rparr>;
                 h = upd_tls offset reset_tls h;
                 i = era (uint tid) (uint tid);
                 h = set_era i (h_era h i + 1) h
             in Some (sh, h))"

lemma tls_at_nat: "tls_at i = of_nat (2 ^ 23 + i * 2176)"
  by (simp add: tls_at_def layout)

lemma tls_at_inj:
  assumes "i < MAX_THREAD" "j < MAX_THREAD"
  shows "tls_at i = tls_at j \<longleftrightarrow> i = j"
  unfolding tls_at_nat using assms by (subst of_nat_eq_64) (simp_all add: layout)

lemma tls_at_step: "tls_at i - sizeof_tls + sizeof_tls = tls_at i"
  "tls_at i + sizeof_tls = tls_at (Suc i)"
  by (simp_all add: tls_at_def algebra_simps)

lemma find_tls_first:
  assumes "i \<le> k" and "tls_packed_id (h_tls h (tls_at k)) = 0"
    and "\<And>j. i \<le> j \<Longrightarrow> j < k \<Longrightarrow> tls_packed_id (h_tls h (tls_at j)) \<noteq> 0"
  shows "find_tls h (tls_at i - sizeof_tls) = Some (tls_at k)"
  using assms
proof (induction i rule: inc_induct)
  case base
  then show ?case by (subst find_tls.simps) (simp add: tls_at_step)
next
  case (step i)
  then have "tls_packed_id (h_tls h (tls_at i)) \<noteq> 0" by simp
  moreover have "tls_at i = tls_at (Suc i) - sizeof_tls" by (simp add: tls_at_def algebra_simps)
  moreover have "find_tls h (tls_at (Suc i) - sizeof_tls) = Some (tls_at k)"
    using step by simp
  ultimately show ?case by (subst find_tls.simps) (simp add: tls_at_step)
qed

lemma tls_index:
  assumes "k < MAX_THREAD"
  shows "ucast ((tls_at k - THREAD_LOCAL_VEC_START) div sizeof_tls + 1) = (of_nat (k + 1) :: u32)"
    and "unat (of_nat (k + 1) :: u32) = k + 1"
proof -
  have "of_nat (k * 2176) div of_nat 2176 = (of_nat (k * 2176 div 2176) :: u64)"
    using assms by (intro of_nat_div_64) (simp_all add: layout)
  then have i: "(tls_at k - THREAD_LOCAL_VEC_START) div sizeof_tls + 1 = of_nat (k + 1)"
    by (simp add: tls_at_def layout)
  show u: "unat (of_nat (k + 1) :: u32) = k + 1"
    using assms by (simp add: unsigned_of_nat take_bit_nat_eq_self layout del: of_nat_add of_nat_Suc)
  show "ucast ((tls_at k - THREAD_LOCAL_VEC_START) div sizeof_tls + 1) = (of_nat (k + 1) :: u32)"
    unfolding i word_unat_eq_iff u unsigned_ucast_eq
    using assms by (subst unat_of_nat_64) (simp_all add: take_bit_nat_eq_self layout)
qed

lemma thread_init_spec:
  assumes "k < MAX_THREAD"
    and "\<forall>j < k. tls_packed_id (h_tls h (tls_at j)) \<noteq> 0"
    and "tls_packed_id (h_tls h (tls_at k)) = 0"
  shows "\<exists>sh' h'. thread_init machine_id process_id sh h = Some (sh', h')
    \<and> shm_tls_offset sh' = tls_at k \<and> unat (shm_thread_id sh') = k + 1
    \<and> shm_size sh' = shm_size sh
    \<and> h_tls h' = (h_tls h)(tls_at k := reset_tls ((h_tls h (tls_at k))
        \<lparr>tls_packed_id := pack_machine_process_id machine_id process_id\<rparr>))
    \<and> h_era h' (era (int k + 1) (int k + 1)) = h_era h (era (int k + 1) (int k + 1)) + 1
    \<and> h_page h' = h_page h \<and> h_cell h' = h_cell h \<and> h_seg h' = h_seg h \<and> h_sas h' = h_sas h"
proof -
  have "find_tls h (tls_at 0 - sizeof_tls) = Some (tls_at k)"
    using assms by (intro find_tls_first) auto
  then have f: "find_tls h (THREAD_LOCAL_VEC_START - sizeof_tls) = Some (tls_at k)"
    by (simp add: tls_at_def)
  have u: "uint (of_nat (k + 1) :: u32) = int k + 1"
    using tls_index(2) [OF assms(1)] by (metis int_nat_eq of_nat_1 of_nat_add uint_nat)
  show ?thesis
    using tls_index [OF assms(1)] u
    by (simp add: thread_init_def Let_def f del: of_nat_add of_nat_Suc)
qed

text \<open>
  C25. \<open>thread_init\<close> claims the first free slot: if slots before \<open>k\<close> are taken and slot \<open>k\<close>
  is free, it returns, the client gets thread id \<open>k + 1\<close>, the slot carries its process id
  and empty bins of the right sizes, no other slot changes, and its own era advances.
\<close>

theorem thread_init_claims_first_free:
  assumes "k < MAX_THREAD"
    and "\<forall>j < k. tls_packed_id (h_tls h (tls_at j)) \<noteq> 0"
    and "tls_packed_id (h_tls h (tls_at k)) = 0"
  shows "\<exists>sh' h'. thread_init machine_id process_id sh h = Some (sh', h')
    \<and> shm_tls_offset sh' = tls_at k \<and> unat (shm_thread_id sh') = k + 1
    \<and> shm_size sh' = shm_size sh
    \<and> h_tls h' = (h_tls h)(tls_at k := reset_tls ((h_tls h (tls_at k))
        \<lparr>tls_packed_id := pack_machine_process_id machine_id process_id\<rparr>))
    \<and> h_era h' (era (int k + 1) (int k + 1)) = h_era h (era (int k + 1) (int k + 1)) + 1
    \<and> h_page h' = h_page h \<and> h_cell h' = h_cell h"
  using thread_init_spec [OF assms] by blast

theorem thread_init_claims_first_free_witness:
  "\<exists>sh' h'. thread_init 1 7 \<lparr>shm_size = 0, shm_tls_offset = 0, shm_thread_id = 0\<rparr> zero_heap = Some (sh', h')
    \<and> unat (shm_thread_id sh') = 1"
  using thread_init_claims_first_free [of 0 zero_heap 1 7 "\<lparr>shm_size = 0, shm_tls_offset = 0, shm_thread_id = 0\<rparr>"]
  by (auto simp: zero_defs layout)

end
