(* ===== verification/Segment.thy ===== *)
theory Segment
  imports Thread_State
begin

text \<open>
  Segments (\<open>src/segment.cpp\<close>): a client claims a 64 MiB segment by swapping its thread id
  into the segment's allocation state, puts the pages 1 to 1023 of the segment (page 0 holds
  the headers) in its queue of free pages, takes pages from that queue, and gives a segment
  back when no page of it is used.
\<close>

section \<open>The client's queue of free pages\<close>

abbreviation free_queue :: "cxl_shm \<Rightarrow> shm_heap \<Rightarrow> cxl_page_queue_t" where
  "free_queue sh h \<equiv> tls_free_page (h_tls h (shm_tls_offset sh))"

definition with_free_queue ::
  "cxl_shm \<Rightarrow> (cxl_page_queue_t \<times> pages \<Rightarrow> cxl_page_queue_t \<times> pages) \<Rightarrow> shm_heap \<Rightarrow> shm_heap"
  where "with_free_queue sh f h =
    (let (q, pg) = f (free_queue sh h, h_page h)
     in upd_tls (shm_tls_offset sh) (\<lambda>t. t\<lparr>tls_free_page := q\<rparr>) (h\<lparr>h_page := pg\<rparr>))"

lemma with_free_queue_simps [heap_simps, simp]:
  "(free_queue sh (with_free_queue sh f h), h_page (with_free_queue sh f h)) =
     f (free_queue sh h, h_page h)"
  "h_sas (with_free_queue sh f h) = h_sas h" "h_era (with_free_queue sh f h) = h_era h"
  "h_seg (with_free_queue sh f h) = h_seg h" "h_cell (with_free_queue sh f h) = h_cell h"
  by (simp_all add: with_free_queue_def split: prod.splits)

lemma with_free_queue_page [heap_simps, simp]:
  "h_page (with_free_queue sh f h) = snd (f (free_queue sh h, h_page h))"
  "free_queue sh (with_free_queue sh f h) = fst (f (free_queue sh h, h_page h))"
  by (simp_all add: with_free_queue_def split: prod.splits)

lemma with_free_queue_tls [heap_simps, simp]:
  "tls_pages (h_tls (with_free_queue sh f h) a) = tls_pages (h_tls h a)"
  "tls_redo (h_tls (with_free_queue sh f h) a) = tls_redo (h_tls h a)"
  "tls_packed_id (h_tls (with_free_queue sh f h) a) = tls_packed_id (h_tls h a)"
  "tls_sender_queue (h_tls (with_free_queue sh f h) a) = tls_sender_queue (h_tls h a)"
  "tls_receiver_queue (h_tls (with_free_queue sh f h) a) = tls_receiver_queue (h_tls h a)"
  "a \<noteq> shm_tls_offset sh \<Longrightarrow> h_tls (with_free_queue sh f h) a = h_tls h a"
  by (simp_all add: with_free_queue_def split: prod.splits)

text \<open>
  What an allocator operation leaves of the thread local states: all of the others, and of its
  own the id and the message queue lists.
\<close>

definition tls_frame :: "cxl_shm \<Rightarrow> shm_heap \<Rightarrow> shm_heap \<Rightarrow> bool" where
  "tls_frame sh h h' \<longleftrightarrow> (\<forall>a. a \<noteq> shm_tls_offset sh \<longrightarrow> h_tls h' a = h_tls h a)
     \<and> (\<forall>a. tls_packed_id (h_tls h' a) = tls_packed_id (h_tls h a)
       \<and> tls_sender_queue (h_tls h' a) = tls_sender_queue (h_tls h a)
       \<and> tls_receiver_queue (h_tls h' a) = tls_receiver_queue (h_tls h a))"

lemma tls_frame_trans: "tls_frame sh h h1 \<Longrightarrow> tls_frame sh h1 h2 \<Longrightarrow> tls_frame sh h h2"
  by (simp add: tls_frame_def)

lemma tls_frame_same [simp]: "h_tls h' = h_tls h \<Longrightarrow> tls_frame sh h h'"
  by (simp add: tls_frame_def)

lemma tls_frame_other: "tls_frame sh h h' \<Longrightarrow> a \<noteq> shm_tls_offset sh \<Longrightarrow> h_tls h' a = h_tls h a"
  by (simp add: tls_frame_def)

text \<open>A run of queue operations on the heap is the run on the queue, stored back once.\<close>

lemma with_free_queue_fold:
  "fold (\<lambda>i. with_free_queue sh (f i)) is h =
     (if is = [] then h else with_free_queue sh (fold f is) h)"
proof (induction "is" arbitrary: h)
  case Nil
  then show ?case by simp
next
  case (Cons i js)
  have "with_free_queue sh g (with_free_queue sh (f i) h) = with_free_queue sh (g \<circ> f i) h" for g
    by (simp add: with_free_queue_def upd_tls_def fun_eq_iff split: prod.splits)
  then show ?case using Cons.IH [of "with_free_queue sh (f i) h"] by (cases js) auto
qed


section \<open>Operations\<close>

text \<open>
  The search for a free slot: \<open>count\<close> counts the slots tried; the test against the region's
  size comes before the slot is looked at. The sum is taken over \<open>nat\<close>: the 64-bit one of the code wraps
  only for a region of nearly \<open>2 ^ 64\<close> bytes, which cannot be mapped (\<open>region_fits\<close> bounds it).
\<close>

function claim_segment :: "cxl_shm \<Rightarrow> shm_heap \<Rightarrow> nat \<Rightarrow> nat option" where
  "claim_segment sh h count =
     (let count = count + 1
      in if unat SEGMENTS_AREA_START + count * unat SEGMENT_SIZE > unat (shm_size sh) then None
         else if sas_thread_id (h_sas h (sas_at (count - 1))) = 0 then Some count
         else claim_segment sh h count)"
  by pat_completeness auto
termination
  by (relation "measure (\<lambda>(sh, h, count). unat (shm_size sh) - count)") (auto simp: layout)

declare claim_segment.simps [simp del]

definition cxl_segment_alloc :: "cxl_shm \<Rightarrow> shm_heap \<Rightarrow> u64 option \<times> shm_heap" where
  "cxl_segment_alloc sh h =
     (case claim_segment sh h 0 of
        None \<Rightarrow> (None, h)
      | Some count \<Rightarrow>
          let sas = sas_at (count - 1);
              h = upd_sas sas (\<lambda>s. s\<lparr>sas_thread_id := shm_thread_id sh\<rparr>) h;
              h = upd_sas sas (\<lambda>s. s\<lparr>sas_ver := ucast (segment_state_code NORMAL)\<rparr>) h;
              h = upd_sas sas (\<lambda>s. s\<lparr>sas_info := \<lparr>sf_state = 0, sf_thread_free = 0\<rparr>\<rparr>) h;
              segment = seg_at (count - 1);
              h = upd_seg segment (\<lambda>g. g\<lparr>seg_thread_id := ucast (shm_thread_id sh)\<rparr>) h;
              h = upd_seg segment (\<lambda>g. g\<lparr>seg_used := 0\<rparr>) h;
              h = fold (\<lambda>i. with_free_queue sh (push_state (meta_at segment i)))
                    (rev [1..<PAGES_PER_SEGMENT]) h
          in (Some segment, h))"

text \<open>\<open>memset(segment, 0, sizeof(cxl_segment_t))\<close>: the header and all 1024 page headers.\<close>

definition memset_segment :: "u64 \<Rightarrow> shm_heap \<Rightarrow> shm_heap" where
  "memset_segment segment h =
     (upd_seg segment (\<lambda>_. zero_seg) h)
       \<lparr>h_page := (\<lambda>a. if a \<in> set (map (meta_at segment) [0..<PAGES_PER_SEGMENT])
                       then zero_page else h_page h a)\<rparr>"

text \<open>
  The final loop swaps the owner's id for 0 and retries until it succeeds: with another id
  in the slot it never ends.
\<close>

definition release_segment :: "u32 \<Rightarrow> u64 \<Rightarrow> shm_heap \<Rightarrow> fault + shm_heap" where
  "release_segment tid sas h =
     (if sas_thread_id (h_sas h sas) = tid
      then Inr (upd_sas sas (\<lambda>s. s\<lparr>sas_thread_id := 0\<rparr>) h) else Inl Out_Of_Fuel)"

definition cxl_segment_free :: "cxl_shm \<Rightarrow> u64 \<Rightarrow> shm_heap \<Rightarrow> fault + shm_heap" where
  "cxl_segment_free sh segment h =
     (let h = fold (\<lambda>i. with_free_queue sh (remove_state (meta_at segment i)))
                [1..<PAGES_PER_SEGMENT] h;
          h = memset_segment segment h
      in release_segment (shm_thread_id sh) (sas_of_segment segment) h)"


section \<open>The search\<close>

lemma claim_segment_spec:
  assumes "claim_segment sh h n = Some count"
  shows "n < count" and "sas_thread_id (h_sas h (sas_at (count - 1))) = 0"
    and "2 ^ 27 + count * 2 ^ 26 \<le> unat (shm_size sh)"
    and "\<And>j. n \<le> j \<Longrightarrow> j < count - 1 \<Longrightarrow> sas_thread_id (h_sas h (sas_at j)) \<noteq> 0"
proof -
  have "n < count \<and> sas_thread_id (h_sas h (sas_at (count - 1))) = 0
    \<and> 2 ^ 27 + count * 2 ^ 26 \<le> unat (shm_size sh)
    \<and> (\<forall>j. n \<le> j \<and> j < count - 1 \<longrightarrow> sas_thread_id (h_sas h (sas_at j)) \<noteq> 0)"
    using assms
  proof (induction sh h n rule: claim_segment.induct)
    case (1 sh h n)
    let ?big = "unat SEGMENTS_AREA_START + (n + 1) * unat SEGMENT_SIZE > unat (shm_size sh)"
    have nb: "\<not> ?big" using "1.prems" by (auto simp: claim_segment.simps [of sh h n])
    show ?case
    proof (cases "sas_thread_id (h_sas h (sas_at n)) = 0")
      case True
      with nb "1.prems" have "count = n + 1" by (simp add: claim_segment.simps [of sh h n])
      with True nb show ?thesis by (auto simp: layout)
    next
      case False
      with nb "1.prems" have "claim_segment sh h (n + 1) = Some count"
        by (simp add: claim_segment.simps [of sh h n])
      with "1.IH" nb False have "n + 1 < count \<and> sas_thread_id (h_sas h (sas_at (count - 1))) = 0
        \<and> 2 ^ 27 + count * 2 ^ 26 \<le> unat (shm_size sh)
        \<and> (\<forall>j. n + 1 \<le> j \<and> j < count - 1 \<longrightarrow> sas_thread_id (h_sas h (sas_at j)) \<noteq> 0)"
        by simp
      with False show ?thesis by (metis Suc_eq_plus1 Suc_leI le_neq_implies_less less_or_eq_imp_le less_trans lessI)
    qed
  qed
  then show "n < count" and "sas_thread_id (h_sas h (sas_at (count - 1))) = 0"
    and "2 ^ 27 + count * 2 ^ 26 \<le> unat (shm_size sh)"
    and "\<And>j. n \<le> j \<Longrightarrow> j < count - 1 \<Longrightarrow> sas_thread_id (h_sas h (sas_at j)) \<noteq> 0"
    by blast+
qed

lemma claim_segment_first:
  assumes "n \<le> s" and "sas_thread_id (h_sas h (sas_at s)) = 0"
    and "\<And>j. n \<le> j \<Longrightarrow> j < s \<Longrightarrow> sas_thread_id (h_sas h (sas_at j)) \<noteq> 0"
    and "2 ^ 27 + (s + 1) * 2 ^ 26 \<le> unat (shm_size sh)"
  shows "claim_segment sh h n = Some (s + 1)"
  using assms
proof (induction n rule: inc_induct)
  case base
  then show ?case by (subst claim_segment.simps) (simp add: layout)
next
  case (step n)
  then have "claim_segment sh h (n + 1) = Some (s + 1)" by simp
  moreover have "2 ^ 27 + (n + 1) * 2 ^ 26 \<le> unat (shm_size sh)" using step by simp
  ultimately show ?case using step by (subst claim_segment.simps) (simp add: layout)
qed

lemma claim_segment_none:
  assumes "\<And>j. n \<le> j \<Longrightarrow> 2 ^ 27 + (j + 1) * 2 ^ 26 \<le> unat (shm_size sh)
      \<Longrightarrow> sas_thread_id (h_sas h (sas_at j)) \<noteq> 0"
  shows "claim_segment sh h n = None"
proof (rule ccontr)
  assume "claim_segment sh h n \<noteq> None"
  then obtain count where c: "claim_segment sh h n = Some count" by auto
  note spec = claim_segment_spec [OF c]
  from spec(1) have "count - 1 + 1 = count" "n \<le> count - 1" by simp_all
  then show False using assms [of "count - 1"] spec(2,3) by simp
qed


section \<open>The pages of a segment enter and leave the free queue\<close>

definition free_list :: "cxl_shm \<Rightarrow> shm_heap \<Rightarrow> u64 list \<Rightarrow> bool" where
  "free_list sh h xs \<longleftrightarrow> dlist (h_page h) (free_queue sh h) xs"

definition segment_pages :: "u64 \<Rightarrow> u64 list" where
  "segment_pages segment = map (meta_at segment) [1..<PAGES_PER_SEGMENT]"

lemma free_list_state: "free_list sh h xs \<longleftrightarrow> dlist_state (free_queue sh h, h_page h) xs"
  by (simp add: free_list_def dlist_state_def)

lemma set_segment_pages: "set (segment_pages seg) = meta_at seg ` {1..<PAGES_PER_SEGMENT}"
  by (simp add: segment_pages_def)

lemma meta_at_inj_on:
  assumes "s < MAX_SEGMENT_NUM"
  shows "inj_on (meta_at (seg_at s)) {0..<PAGES_PER_SEGMENT}"
  using meta_at_inj [OF assms _ assms] by (auto simp: inj_on_def)

lemma segment_pages_distinct:
  assumes "s < MAX_SEGMENT_NUM"
  shows "distinct (segment_pages (seg_at s))" and "0 \<notin> set (segment_pages (seg_at s))"
proof -
  have "inj_on (meta_at (seg_at s)) {1..<PAGES_PER_SEGMENT}"
    by (rule inj_on_subset [OF meta_at_inj_on [OF assms]]) auto
  then show "distinct (segment_pages (seg_at s))"
    by (simp add: segment_pages_def distinct_map)
  show "0 \<notin> set (segment_pages (seg_at s))"
    using meta_at_nonzero [OF assms] by (fastforce simp: set_segment_pages)
qed

lemma fold_push_pages:
  "fold (\<lambda>i. with_free_queue sh (push_state (meta_at seg i))) (rev [1..<PAGES_PER_SEGMENT]) h =
     with_free_queue sh (fold push_state (rev (segment_pages seg))) h"
  unfolding with_free_queue_fold
  by (simp add: segment_pages_def rev_map fold_map comp_def layout)

lemma fold_remove_pages:
  "fold (\<lambda>i. with_free_queue sh (remove_state (meta_at seg i))) [1..<PAGES_PER_SEGMENT] h =
     with_free_queue sh (fold remove_state (segment_pages seg)) h"
  unfolding with_free_queue_fold
  by (simp add: segment_pages_def fold_map comp_def layout)

lemma sas_record_full:
  "x\<lparr>sas_thread_id := a, sas_ver := b, sas_info := c\<rparr>
     = \<lparr>sas_thread_id = a, sas_ver = b, sas_info = c\<rparr>"
  "g\<lparr>seg_thread_id := t, seg_used := u\<rparr> = \<lparr>seg_thread_id = t, seg_used = u\<rparr>"
  by (cases x, simp) (cases g, simp)

text \<open>The queue operations touch queue links only.\<close>

lemma push_state_data: "page_data_eq (snd s) (snd (push_state x s))"
  by (simp add: push_state_def push_page_data)

lemma remove_state_data: "page_data_eq (snd s) (snd (remove_state x s))"
  by (simp add: remove_state_def remove_page_data)

lemma fold_data:
  assumes "\<And>x s. page_data_eq (snd s) (snd (f x s))"
  shows "page_data_eq (snd s) (snd (fold f xs s))"
proof (induction xs arbitrary: s)
  case (Cons x xs)
  show ?case using page_data_eq_trans [OF assms Cons.IH] by simp
qed simp

text \<open>
  Allocating a segment claims the first free one that fits in the region. The client's
  thread id goes into its allocation state and header, its state becomes \<open>NORMAL\<close> with no
  foreign frees, and its pages 1 to 1023 enter the free queue, in address order, ahead of
  the pages already there; no page header changes except for its links.
\<close>

lemma segment_alloc_spec:
  assumes "s < MAX_SEGMENT_NUM" and "2 ^ 27 + (s + 1) * 2 ^ 26 \<le> unat (shm_size sh)"
    and "sas_thread_id (h_sas h (sas_at s)) = 0"
    and "\<forall>j < s. sas_thread_id (h_sas h (sas_at j)) \<noteq> 0"
    and "free_list sh h xs" and "set (segment_pages (seg_at s)) \<inter> set xs = {}"
  shows "\<exists>h'. cxl_segment_alloc sh h = (Some (seg_at s), h')
    \<and> h_sas h' = (h_sas h)(sas_at s := \<lparr>sas_thread_id = shm_thread_id sh, sas_ver = 0, sas_info = zero_info\<rparr>)
    \<and> h_seg h' = (h_seg h)(seg_at s := \<lparr>seg_thread_id = ucast (shm_thread_id sh), seg_used = 0\<rparr>)
    \<and> free_list sh h' (segment_pages (seg_at s) @ xs)
    \<and> page_data_eq (h_page h) (h_page h') \<and> h_cell h' = h_cell h \<and> h_era h' = h_era h
    \<and> (\<forall>a. tls_pages (h_tls h' a) = tls_pages (h_tls h a))
    \<and> tls_frame sh h h'
    \<and> (\<forall>q ys. dlist (h_page h) q ys \<and> set ys \<inter> (set (segment_pages (seg_at s)) \<union> set xs) = {}
         \<longrightarrow> dlist (h_page h') q ys)"
proof -
  have c: "claim_segment sh h 0 = Some (s + 1)"
    using assms by (intro claim_segment_first) auto
  define h1 where "h1 = (h\<lparr>h_sas := (h_sas h)(sas_at s := \<lparr>sas_thread_id = shm_thread_id sh, sas_ver = 0, sas_info = zero_info\<rparr>),
    h_seg := (h_seg h)(seg_at s := \<lparr>seg_thread_id = ucast (shm_thread_id sh), seg_used = 0\<rparr>)\<rparr>)"
  have r: "cxl_segment_alloc sh h =
      (Some (seg_at s), with_free_queue sh (fold push_state (rev (segment_pages (seg_at s)))) h1)"
    unfolding cxl_segment_alloc_def c option.case Let_def fold_push_pages
    by (simp add: h1_def upd_sas_def upd_seg_def zero_info_def sas_record_full)
  have "dlist_state (free_queue sh h1, h_page h1) xs"
    using assms(5) by (simp add: free_list_state h1_def)
  then have "dlist_state (fold push_state (rev (segment_pages (seg_at s))) (free_queue sh h1, h_page h1))
      (rev (rev (segment_pages (seg_at s))) @ xs)"
    using assms(6) segment_pages_distinct [OF assms(1)] by (intro pq.push_all) auto
  moreover have "page_data_eq (h_page h1)
      (snd (fold push_state (rev (segment_pages (seg_at s))) (free_queue sh h1, h_page h1)))"
    using fold_data [where f = push_state, OF push_state_data, of "(free_queue sh h1, h_page h1)"] by simp
  moreover have "dlist (snd (fold push_state (rev (segment_pages (seg_at s))) (free_queue sh h1, h_page h1))) q ys"
    if "dlist (h_page h) q ys" "set ys \<inter> (set (segment_pages (seg_at s)) \<union> set xs) = {}" for q ys
    using assms(5,6) segment_pages_distinct [OF assms(1)] that
    by (intro push_all_frame [of _ _ _ _ xs]) (auto simp: free_list_def h1_def)
  ultimately show ?thesis
    unfolding r by (simp add: free_list_state with_free_queue_simps(1)) (simp add: h1_def tls_frame_def)
qed

text \<open>
  With every segment that fits in the region taken, segment allocation returns null and
  changes nothing.
\<close>

lemma segment_alloc_full:
  assumes "\<forall>j. 2 ^ 27 + (j + 1) * 2 ^ 26 \<le> unat (shm_size sh)
      \<longrightarrow> sas_thread_id (h_sas h (sas_at j)) \<noteq> 0"
  shows "cxl_segment_alloc sh h = (None, h)"
  using claim_segment_none [of 0 sh h] assms by (simp add: cxl_segment_alloc_def)

lemma segment_alloc_full_witness:
  "cxl_segment_alloc \<lparr>shm_size = 2 ^ 27, shm_tls_offset = tls_at 0, shm_thread_id = 1\<rparr> zero_heap = (None, zero_heap)"
  by (rule segment_alloc_full) simp

text \<open>
  Freeing a segment whose 1023 pages are all in the free queue takes exactly those out
  of it, keeps the order of the rest, clears the segment's header and all its page headers,
  and gives the segment back: its allocation state carries no owner.
\<close>

lemma segment_free_spec:
  assumes "s < MAX_SEGMENT_NUM" and "sas_thread_id (h_sas h (sas_at s)) = shm_thread_id sh"
    and "free_list sh h xs" and "set (segment_pages (seg_at s)) \<subseteq> set xs"
    and "meta_at (seg_at s) 0 \<notin> set xs"
  shows "\<exists>h'. cxl_segment_free sh (seg_at s) h = Inr h'
    \<and> free_list sh h' (filter (\<lambda>a. a \<notin> set (segment_pages (seg_at s))) xs)
    \<and> h_sas h' = (h_sas h)(sas_at s := (h_sas h (sas_at s))\<lparr>sas_thread_id := 0\<rparr>)
    \<and> h_seg h' = (h_seg h)(seg_at s := zero_seg)
    \<and> (\<forall>i < PAGES_PER_SEGMENT. h_page h' (meta_at (seg_at s) i) = zero_page)
    \<and> h_cell h' = h_cell h \<and> h_era h' = h_era h \<and> (\<forall>a. tls_pages (h_tls h' a) = tls_pages (h_tls h a))
    \<and> tls_frame sh h h'
    \<and> (\<forall>a. a \<notin> meta_at (seg_at s) ` {0..<PAGES_PER_SEGMENT} \<longrightarrow> pg_free (h_page h' a) = pg_free (h_page h a)
         \<and> pg_local_free (h_page h' a) = pg_local_free (h_page h a)
         \<and> pg_block_size (h_page h' a) = pg_block_size (h_page h a) \<and> pg_used (h_page h' a) = pg_used (h_page h a)
         \<and> pg_is_msg_queue_page (h_page h' a) = pg_is_msg_queue_page (h_page h a))
    \<and> (\<forall>q zs. dlist (h_page h) q zs \<and> set zs \<inter> (set xs \<union> meta_at (seg_at s) ` {0..<PAGES_PER_SEGMENT}) = {}
         \<longrightarrow> dlist (h_page h') q zs)"
proof -
  let ?ys = "filter (\<lambda>a. a \<notin> set (segment_pages (seg_at s))) xs"
  define h1 where "h1 = with_free_queue sh (fold remove_state (segment_pages (seg_at s))) h"
  define h2 where "h2 = memset_segment (seg_at s) h1"
  have sas: "h_sas h2 = h_sas h" by (simp add: h2_def h1_def memset_segment_def)
  have r: "cxl_segment_free sh (seg_at s) h =
      Inr (upd_sas (sas_at s) (\<lambda>x. x\<lparr>sas_thread_id := 0\<rparr>) h2)"
    unfolding cxl_segment_free_def Let_def fold_remove_pages sas_of_segment_seg_at [OF assms(1)]
      h1_def [symmetric] h2_def [symmetric]
    by (simp add: release_segment_def sas assms(2))
  have "dlist_state (fold remove_state (segment_pages (seg_at s)) (free_queue sh h, h_page h)) ?ys"
    using assms(3,4) segment_pages_distinct [OF assms(1)]
    by (intro pq.remove_all) (auto simp: free_list_state)
  then have d1: "dlist (h_page h1) (free_queue sh h1) ?ys"
    by (simp add: h1_def dlist_state_def)
  have "a \<notin> set (map (meta_at (seg_at s)) [0..<PAGES_PER_SEGMENT])" if "a \<in> set ?ys" for a
  proof
    assume "a \<in> set (map (meta_at (seg_at s)) [0..<PAGES_PER_SEGMENT])"
    then obtain i where i: "a = meta_at (seg_at s) i" "i < PAGES_PER_SEGMENT" by auto
    with that assms(5) have "i \<noteq> 0" by (cases "i = 0") auto
    with i that show False by (auto simp: set_segment_pages)
  qed
  then have "h_page h2 a = h_page h1 a" if "a \<in> set ?ys" for a
    using that unfolding h2_def memset_segment_def by simp
  then have "dlist (h_page h2) (free_queue sh h1) ?ys"
    using d1 by (subst dlist_cong [of _ _ "h_page h1" _ "free_queue sh h1"]) auto
  moreover have "free_queue sh h2 = free_queue sh h1"
    by (simp add: h2_def memset_segment_def)
  ultimately have f2: "free_list sh h2 ?ys" by (simp add: free_list_def)
  have data: "page_data_eq (h_page h) (h_page h1)"
    using fold_data [where f = remove_state, OF remove_state_data, of "(free_queue sh h, h_page h)"] by (simp add: h1_def)
  have keep: "h_page h2 a = h_page h1 a" if "a \<notin> meta_at (seg_at s) ` {0..<PAGES_PER_SEGMENT}" for a
    using that by (simp add: h2_def memset_segment_def)
  have frame: "dlist (h_page h2) q zs"
    if "dlist (h_page h) q zs" "set zs \<inter> (set xs \<union> meta_at (seg_at s) ` {0..<PAGES_PER_SEGMENT}) = {}" for q zs
  proof -
    have "dlist (h_page h1) q zs"
      using that assms(3,4) segment_pages_distinct [OF assms(1)]
      by (auto simp: h1_def free_list_def intro!: remove_all_frame [of _ _ _ _ xs])
    then show ?thesis using keep that(2) by (subst dlist_cong [of _ _ "h_page h1" _ q]) auto
  qed
  have zero: "h_page h2 (meta_at (seg_at s) i) = zero_page" if "i < PAGES_PER_SEGMENT" for i
    using that by (simp add: h2_def memset_segment_def)
  have rest: "h_seg h2 = (h_seg h)(seg_at s := zero_seg)" "h_cell h2 = h_cell h" "h_era h2 = h_era h"
    "tls_pages (h_tls h2 a) = tls_pages (h_tls h a)" "tls_frame sh h h2" for a
    by (simp_all add: h2_def h1_def memset_segment_def upd_seg_def tls_frame_def)
  show ?thesis
    unfolding r using f2 sas zero rest keep page_data_eqD [OF data] frame
    by (simp add: free_list_def upd_sas_def tls_frame_def)
qed

text \<open>
  C27. Freeing a segment that was just allocated undoes the allocation: the free queue is
  the old one again and the segment can be claimed anew.
\<close>

theorem segment_alloc_free_roundtrip:
  assumes "s < MAX_SEGMENT_NUM" and "2 ^ 27 + (s + 1) * 2 ^ 26 \<le> unat (shm_size sh)"
    and "sas_thread_id (h_sas h (sas_at s)) = 0"
    and "\<forall>j < s. sas_thread_id (h_sas h (sas_at j)) \<noteq> 0"
    and "free_list sh h xs" and "\<forall>i < PAGES_PER_SEGMENT. meta_at (seg_at s) i \<notin> set xs"
  shows "\<exists>h''. cxl_segment_free sh (seg_at s) (snd (cxl_segment_alloc sh h)) = Inr h''
    \<and> free_list sh h'' xs \<and> sas_thread_id (h_sas h'' (sas_at s)) = 0
    \<and> cxl_segment_alloc sh h'' = (Some (seg_at s), snd (cxl_segment_alloc sh h''))"
proof -
  have disj: "set (segment_pages (seg_at s)) \<inter> set xs = {}"
    using assms(6) by (auto simp: set_segment_pages)
  from segment_alloc_spec [OF assms(1-5) disj] obtain h' where
    h': "cxl_segment_alloc sh h = (Some (seg_at s), h')"
    "h_sas h' = (h_sas h)(sas_at s := \<lparr>sas_thread_id = shm_thread_id sh, sas_ver = 0, sas_info = zero_info\<rparr>)"
    "free_list sh h' (segment_pages (seg_at s) @ xs)" by blast
  have m0: "meta_at (seg_at s) 0 \<notin> set (segment_pages (seg_at s) @ xs)"
  proof -
    have "meta_at (seg_at s) 0 \<noteq> meta_at (seg_at s) i" if "i \<in> {1..<PAGES_PER_SEGMENT}" for i
      using meta_at_inj [OF assms(1) _ assms(1), of 0 i] that by (simp add: layout)
    then have "meta_at (seg_at s) 0 \<notin> set (segment_pages (seg_at s))"
      unfolding set_segment_pages by blast
    then show ?thesis using assms(6) by (simp add: layout)
  qed
  from segment_free_spec [OF assms(1) _ h'(3) _ m0] h'(2) obtain h'' where
    h'': "cxl_segment_free sh (seg_at s) h' = Inr h''"
    "free_list sh h'' (filter (\<lambda>a. a \<notin> set (segment_pages (seg_at s))) (segment_pages (seg_at s) @ xs))"
    "h_sas h'' = (h_sas h')(sas_at s := (h_sas h' (sas_at s))\<lparr>sas_thread_id := 0\<rparr>)"
    by auto
  have eq: "filter (\<lambda>a. a \<notin> set (segment_pages (seg_at s))) (segment_pages (seg_at s) @ xs) = xs"
    using disj by (auto simp: filter_id_conv)
  have "sas_thread_id (h_sas h'' (sas_at s)) = 0" by (simp add: h''(3))
  moreover have "\<forall>j < s. sas_thread_id (h_sas h'' (sas_at j)) \<noteq> 0"
    using assms(1,4) h''(3) h'(2) by (auto simp: sas_at_inj)
  ultimately show ?thesis
    using h' h'' eq segment_alloc_spec [OF assms(1,2), of h'' xs] disj by auto
qed

theorem segment_alloc_free_roundtrip_witness:
  "\<exists>h''. cxl_segment_free \<lparr>shm_size = 2 ^ 28, shm_tls_offset = tls_at 0, shm_thread_id = 1\<rparr> (seg_at 0)
      (snd (cxl_segment_alloc \<lparr>shm_size = 2 ^ 28, shm_tls_offset = tls_at 0, shm_thread_id = 1\<rparr> zero_heap)) = Inr h''
    \<and> sas_thread_id (h_sas h'' (sas_at 0)) = 0"
  using segment_alloc_free_roundtrip [of 0 "\<lparr>shm_size = 2 ^ 28, shm_tls_offset = tls_at 0, shm_thread_id = 1\<rparr>" zero_heap "[]"]
  by (auto simp: zero_defs layout free_list_def)


section \<open>Taking a page\<close>

lemma segment_pages_Cons:
  "segment_pages seg = meta_at seg 1 # map (meta_at seg) [2..<PAGES_PER_SEGMENT]"
proof -
  have "1 < PAGES_PER_SEGMENT" by (simp add: layout)
  then have "[1..<PAGES_PER_SEGMENT] = 1 # [Suc 1..<PAGES_PER_SEGMENT]" by (rule upt_conv_Cons)
  then show ?thesis by (simp add: segment_pages_def numeral_2_eq_2)
qed

lemma fold_push_first:
  "pq_first (fst (fold push_state (rev (segment_pages seg)) s)) = meta_at seg 1"
  by (simp add: segment_pages_Cons push_state_def push_fst)

lemma segment_alloc_first:
  assumes "cxl_segment_alloc sh h = (Some seg, h')"
  shows "pq_first (free_queue sh h') = meta_at seg 1" and "meta_at seg 1 \<noteq> 0"
proof -
  from assms obtain count where c: "claim_segment sh h 0 = Some count"
    by (cases "claim_segment sh h 0") (simp_all add: cxl_segment_alloc_def)
  have seg: "seg = seg_at (count - 1)"
    using assms by (simp add: cxl_segment_alloc_def c Let_def)
  show "pq_first (free_queue sh h') = meta_at seg 1"
    using assms unfolding cxl_segment_alloc_def c option.case Let_def fold_push_pages
    by (auto simp: fold_push_first)
  have "2 ^ 27 + count * 2 ^ 26 < 2 ^ 64"
    using claim_segment_spec(3) [OF c] unat_bound [of "shm_size sh"] by simp
  moreover have "count = count - 1 + 1" using claim_segment_spec(1) [OF c] by simp
  ultimately have "2 ^ 27 + (count - 1) * 2 ^ 26 + 8 + 1 * 48 < (2 :: nat) ^ 64" by simp
  then show "meta_at seg 1 \<noteq> 0"
    using of_nat_eq_64 [of "2 ^ 27 + (count - 1) * 2 ^ 26 + 8 + 1 * 48" 0]
    unfolding seg meta_at_nat by simp
qed

text \<open>The recursion after a fresh segment is one deep: the free queue is not empty then.\<close>

function cxl_segment_page_alloc :: "cxl_shm \<Rightarrow> shm_heap \<Rightarrow> u64 option \<times> shm_heap" where
  "cxl_segment_page_alloc sh h =
     (case get_page_by_offset (pq_first (free_queue sh h)) of
        None \<Rightarrow>
          (case cxl_segment_alloc sh h of
             (None, h') \<Rightarrow> (None, h')
           | (Some segment, h') \<Rightarrow> cxl_segment_page_alloc sh h')
      | Some page \<Rightarrow>
          let h = with_free_queue sh (remove_state page) h;
              segment = cxl_ptr_segment page;
              h = upd_seg segment (\<lambda>g. g\<lparr>seg_used := seg_used g + 1\<rparr>) h
          in (Some page, h))"
  by pat_completeness auto
termination
proof (relation "measure (\<lambda>(sh, h). if pq_first (free_queue sh h) = 0 then 1 else 0)", goal_cases)
  case (2 sh h)
  then show ?case using segment_alloc_first [OF sym] by auto
qed simp

declare cxl_segment_page_alloc.simps [simp del]

lemma page_alloc_hit:
  assumes "free_list sh h (p # xs)"
  shows "cxl_segment_page_alloc sh h = (Some p,
    upd_seg (cxl_ptr_segment p) (\<lambda>g. g\<lparr>seg_used := seg_used g + 1\<rparr>) (with_free_queue sh (remove_state p) h))"
proof -
  have "pq_first (free_queue sh h) = p" "p \<noteq> 0"
    using assms by (auto simp: free_list_def dest: dlist_first dlist_nonzero)
  then show ?thesis by (simp add: cxl_segment_page_alloc.simps)
qed

lemma free_list_hit:
  assumes "free_list sh h (p # xs)"
  shows "free_list sh (with_free_queue sh (remove_state p) h) xs"
  using pq.rep_remove [of "(free_queue sh h, h_page h)" "p # xs" p] assms
  by (simp add: free_list_state)

text \<open>
  While the free queue is not empty, allocating a page takes its first page and counts
  it in that page's segment; nothing is taken from the region.
\<close>

lemma page_alloc_takes_first:
  assumes "free_list sh h (p # xs)"
  shows "\<exists>h'. cxl_segment_page_alloc sh h = (Some p, h') \<and> free_list sh h' xs
    \<and> seg_used (h_seg h' (cxl_ptr_segment p)) = seg_used (h_seg h (cxl_ptr_segment p)) + 1
    \<and> h_sas h' = h_sas h \<and> page_data_eq (h_page h) (h_page h') \<and> h_cell h' = h_cell h
    \<and> pg_next (h_page h' p) = 0 \<and> pg_prev (h_page h' p) = 0"
proof -
  let ?h = "with_free_queue sh (remove_state p) h"
  have "free_list sh (upd_seg (cxl_ptr_segment p) (\<lambda>g. g\<lparr>seg_used := seg_used g + 1\<rparr>) ?h) xs"
    using free_list_hit [OF assms] by (simp add: free_list_def)
  moreover have "page_data_eq (h_page h) (h_page ?h)"
    using remove_state_data [of "(free_queue sh h, h_page h)" p] by simp
  moreover have "pg_next (h_page ?h p) = 0" "pg_prev (h_page ?h p) = 0"
    by (simp_all add: remove_state_def cxl_page_queue_remove_def Let_def)
  ultimately show ?thesis unfolding page_alloc_hit [OF assms] by simp
qed

text \<open>A client and a small region to run examples on.\<close>

definition demo_shm :: cxl_shm where
  "demo_shm = \<lparr>shm_size = 2 ^ 28, shm_tls_offset = tls_at 0, shm_thread_id = 1\<rparr>"

definition demo_client :: shm_heap where
  "demo_client = upd_tls (tls_at 0) reset_tls zero_heap"

definition demo_one_page :: shm_heap where
  "demo_one_page = with_free_queue demo_shm (push_state (meta_at (seg_at 0) 5)) demo_client"

lemma demo_client_simps:
  "free_queue demo_shm demo_client = zero_pq" "h_page demo_client = (\<lambda>_. zero_page)"
  "h_sas demo_client = (\<lambda>_. zero_sas)" "h_seg demo_client = (\<lambda>_. zero_seg)"
  "tls_pages (h_tls demo_client (shm_tls_offset demo_shm)) = init_bins (\<lambda>_. zero_pq)"
  by (simp_all add: demo_client_def demo_shm_def reset_tls_def zero_heap_def zero_tls_def)

lemma demo_one_page_free: "free_list demo_shm demo_one_page [meta_at (seg_at 0) 5]"
  using pq.rep_push [of "(zero_pq, \<lambda>_. zero_page)" "[]" "meta_at (seg_at 0) 5"] meta_at_nonzero [of 0 5]
  by (simp add: demo_one_page_def free_list_state demo_client_simps)
     (simp add: dlist_state_def zero_pq_def layout)

text \<open>
  C28. With an empty free queue the page comes from a segment claimed for it: if none fits,
  the result is null and nothing changes; if segment \<open>s\<close> is the first free one that fits,
  its page 1 is handed out and the other 1022 pages are left in the queue.
\<close>

theorem page_alloc_fresh_segment:
  assumes "s < MAX_SEGMENT_NUM" and "2 ^ 27 + (s + 1) * 2 ^ 26 \<le> unat (shm_size sh)"
    and "sas_thread_id (h_sas h (sas_at s)) = 0"
    and "\<forall>j < s. sas_thread_id (h_sas h (sas_at j)) \<noteq> 0"
    and "free_list sh h []"
  shows "\<exists>h'. cxl_segment_page_alloc sh h = (Some (meta_at (seg_at s) 1), h')
    \<and> free_list sh h' (map (meta_at (seg_at s)) [2..<PAGES_PER_SEGMENT])
    \<and> seg_used (h_seg h' (seg_at s)) = 1
    \<and> sas_thread_id (h_sas h' (sas_at s)) = shm_thread_id sh
    \<and> page_data_eq (h_page h) (h_page h') \<and> h_cell h' = h_cell h"
proof -
  from segment_alloc_spec [OF assms] obtain h1 where
    h1: "cxl_segment_alloc sh h = (Some (seg_at s), h1)"
    "h_sas h1 = (h_sas h)(sas_at s := \<lparr>sas_thread_id = shm_thread_id sh, sas_ver = 0, sas_info = zero_info\<rparr>)"
    "h_seg h1 = (h_seg h)(seg_at s := \<lparr>seg_thread_id = ucast (shm_thread_id sh), seg_used = 0\<rparr>)"
    "free_list sh h1 (meta_at (seg_at s) 1 # map (meta_at (seg_at s)) [2..<PAGES_PER_SEGMENT])"
    "page_data_eq (h_page h) (h_page h1)" "h_cell h1 = h_cell h"
    by (auto simp: segment_pages_Cons)
  from page_alloc_takes_first [OF h1(4)] obtain h2 where
    h2: "cxl_segment_page_alloc sh h1 = (Some (meta_at (seg_at s) 1), h2)"
    "free_list sh h2 (map (meta_at (seg_at s)) [2..<PAGES_PER_SEGMENT])"
    "seg_used (h_seg h2 (cxl_ptr_segment (meta_at (seg_at s) 1))) =
       seg_used (h_seg h1 (cxl_ptr_segment (meta_at (seg_at s) 1))) + 1"
    "h_sas h2 = h_sas h1" "page_data_eq (h_page h1) (h_page h2)" "h_cell h2 = h_cell h1" by blast
  have "cxl_ptr_segment (meta_at (seg_at s) 1) = seg_at s"
    using assms(1) by (simp add: cxl_ptr_segment_meta layout)
  moreover have "pq_first (free_queue sh h) = 0" using assms(5) by (simp add: free_list_def)
  then have "cxl_segment_page_alloc sh h = cxl_segment_page_alloc sh h1"
    by (simp add: cxl_segment_page_alloc.simps [of sh h] h1)
  ultimately show ?thesis
    using h1 h2 page_data_eq_trans by auto
qed

theorem page_alloc_fresh_segment_witness:
  "\<exists>h'. cxl_segment_page_alloc demo_shm zero_heap
      = (Some (meta_at (seg_at 0) 1), h')"
  using page_alloc_fresh_segment [of 0 "demo_shm" zero_heap]
  by (auto simp: zero_defs layout free_list_def demo_shm_def)

end
