(* ===== verification/Page.thy ===== *)
theory Page
  imports Segment
begin

text \<open>
  Pages (\<open>src/page.cpp\<close>): a fresh page's blocks are threaded into its free list; frees of the
  owner collect in the page's \<open>local_free\<close> list, frees of other clients in the
  \<open>thread_free\<close> list of the segment, and both flow back into \<open>free\<close> when the page runs dry.
\<close>

section \<open>A client's size bins\<close>

abbreviation bin_queue :: "cxl_shm \<Rightarrow> nat \<Rightarrow> shm_heap \<Rightarrow> cxl_page_queue_t" where
  "bin_queue sh i h \<equiv> tls_pages (h_tls h (shm_tls_offset sh)) i"

definition with_bin ::
  "cxl_shm \<Rightarrow> nat \<Rightarrow> (cxl_page_queue_t \<times> pages \<Rightarrow> cxl_page_queue_t \<times> pages) \<Rightarrow> shm_heap \<Rightarrow> shm_heap"
  where "with_bin sh i f h =
    (let (q, pg) = f (bin_queue sh i h, h_page h)
     in upd_tls (shm_tls_offset sh) (\<lambda>t. t\<lparr>tls_pages := (tls_pages t)(i := q)\<rparr>) (h\<lparr>h_page := pg\<rparr>))"

lemma with_bin_tls [heap_simps, simp]: "a \<noteq> shm_tls_offset sh \<Longrightarrow> h_tls (with_bin sh i f h) a = h_tls h a"
  by (simp add: with_bin_def split: prod.splits)

lemma with_bin_tls_fields [heap_simps, simp]:
  "tls_packed_id (h_tls (with_bin sh i f h) a) = tls_packed_id (h_tls h a)"
  "tls_sender_queue (h_tls (with_bin sh i f h) a) = tls_sender_queue (h_tls h a)"
  "tls_receiver_queue (h_tls (with_bin sh i f h) a) = tls_receiver_queue (h_tls h a)"
  by (simp_all add: with_bin_def split: prod.splits)

lemma with_bin_simps [heap_simps, simp]:
  "h_page (with_bin sh i f h) = snd (f (bin_queue sh i h, h_page h))"
  "bin_queue sh i (with_bin sh i f h) = fst (f (bin_queue sh i h, h_page h))"
  "j \<noteq> i \<Longrightarrow> bin_queue sh j (with_bin sh i f h) = bin_queue sh j h"
  "free_queue sh (with_bin sh i f h) = free_queue sh h"
  "h_sas (with_bin sh i f h) = h_sas h" "h_era (with_bin sh i f h) = h_era h"
  "h_seg (with_bin sh i f h) = h_seg h" "h_cell (with_bin sh i f h) = h_cell h"
  by (simp_all add: with_bin_def split: prod.splits)

definition bin_list :: "cxl_shm \<Rightarrow> nat \<Rightarrow> shm_heap \<Rightarrow> u64 list \<Rightarrow> bool" where
  "bin_list sh i h xs \<longleftrightarrow> dlist (h_page h) (bin_queue sh i h) xs"


section \<open>Initialising a page\<close>

text \<open>
  The loop \<open>while (block < last_block)\<close>: special blocks are cleared for
  \<open>sizeof(block_size)\<close> = 8 bytes, others for \<open>sizeof(CXLObj)\<close> = 24. It runs once per block but
  the last, so the number of blocks is fuel enough.
\<close>

fun init_blocks :: "nat \<Rightarrow> bool \<Rightarrow> u64 \<Rightarrow> u64 \<Rightarrow> u64 \<Rightarrow> shm_heap \<Rightarrow> fault + shm_heap" where
  "init_blocks fuel special block_size block last_block h =
     (if block < last_block
      then (case fuel of
              0 \<Rightarrow> Inl Out_Of_Fuel
            | Suc n \<Rightarrow>
                let h = (if special then memset_cells 1 block h else memset_cells 3 block h);
                    nxt = block + block_size;
                    h = set_cell block nxt h
                in init_blocks n special block_size nxt last_block h)
      else Inr h)"

declare init_blocks.simps [simp del]

definition cxl_page_init ::
  "bool \<Rightarrow> u64 option \<Rightarrow> u64 \<Rightarrow> shm_heap \<Rightarrow> fault + shm_heap" where
  "cxl_page_init special page block_size h =
     bnd (deref page) (\<lambda>page.
       let h = upd_page page (\<lambda>p. p\<lparr>pg_local_free := 0\<rparr>) h;
           h = upd_page page (\<lambda>p. p\<lparr>pg_block_size := ucast block_size\<rparr>) h;
           h = upd_page page (\<lambda>p. p\<lparr>pg_used := 0\<rparr>) h;
           h = upd_page page (\<lambda>p. p\<lparr>pg_next := 0\<rparr>) h;
           h = upd_page page (\<lambda>p. p\<lparr>pg_prev := 0\<rparr>) h;
           h = upd_page page (\<lambda>p. p\<lparr>pg_is_msg_queue_page := False\<rparr>) h
       in if block_size = 0 then Inl Div_By_Zero
          else
            let page_area = cxl_page_start (cxl_ptr_segment page) page;
                start_block = cxl_page_block_at page_area block_size 0;
                last_block = cxl_page_block_at page_area block_size (PAGE_SIZE div block_size - 1)
            in bnd (init_blocks (unat (PAGE_SIZE div block_size)) special block_size
                      start_block last_block h) (\<lambda>h.
                 let h = set_cell last_block (pg_free (h_page h page)) h;
                     h = upd_page page (\<lambda>p. p\<lparr>pg_free := start_block\<rparr>) h
                 in Inr h))"


section \<open>Collecting frees\<close>

text \<open>The loop over the blocks other clients freed; each goes to its own page's local list.\<close>

fun collect_blocks :: "nat \<Rightarrow> u64 \<Rightarrow> shm_heap \<Rightarrow> fault + shm_heap" where
  "collect_blocks fuel tail h =
     (if tail = 0 then Inr h
      else (case fuel of
              0 \<Rightarrow> Inl Out_Of_Fuel
            | Suc n \<Rightarrow>
                let nxt = blk_next h tail;
                    p = cxl_ptr_page tail;
                    h = set_cell tail (pg_local_free (h_page h p)) h;
                    h = upd_page p (\<lambda>g. g\<lparr>pg_local_free := tail\<rparr>) h;
                    h = upd_page p (\<lambda>g. g\<lparr>pg_used := pg_used g - 1\<rparr>) h
                in collect_blocks n nxt h))"

declare collect_blocks.simps [simp del]

definition cxl_thread_free_collect :: "nat \<Rightarrow> u64 \<Rightarrow> shm_heap \<Rightarrow> fault + shm_heap" where
  "cxl_thread_free_collect fuel page h =
     (let segment = cxl_ptr_segment page;
          sas = sas_of_segment segment;
          info = sas_info (h_sas h sas)
      in if sf_thread_free info = 0 then Inr h
         else
           let h = upd_sas sas (\<lambda>s. s\<lparr>sas_info := \<lparr>sf_state = sf_state info, sf_thread_free = 0\<rparr>\<rparr>) h
           in collect_blocks fuel (sf_thread_free info) h)"

definition cxl_page_free_collect :: "nat \<Rightarrow> u64 \<Rightarrow> shm_heap \<Rightarrow> fault + shm_heap" where
  "cxl_page_free_collect fuel page h =
     bnd (cxl_thread_free_collect fuel page h) (\<lambda>h.
       if pg_local_free (h_page h page) \<noteq> 0 \<and> pg_free (h_page h page) = 0
       then let h = upd_page page (\<lambda>p. p\<lparr>pg_free := pg_local_free p\<rparr>) h;
                h = upd_page page (\<lambda>p. p\<lparr>pg_local_free := 0\<rparr>) h
            in Inr h
       else Inr h)"


section \<open>Finding and releasing pages\<close>

definition cxl_page_fresh :: "cxl_shm \<Rightarrow> nat \<Rightarrow> shm_heap \<Rightarrow> fault + (u64 \<times> shm_heap)" where
  "cxl_page_fresh sh pq h =
     (let special = (pq = 0 \<or> pq = 1);
          (page, h) = cxl_segment_page_alloc sh h
      in bnd (cxl_page_init special page (pq_block_size (bin_queue sh pq h)) h) (\<lambda>h.
         bnd (deref page) (\<lambda>page.
           let h = (if pq = 1 then upd_page page (\<lambda>p. p\<lparr>pg_is_msg_queue_page := True\<rparr>) h else h);
               h = with_bin sh pq (push_state page) h
           in Inr (page, h))))"

text \<open>The walk over the pages of a bin; \<open>n\<close> bounds the pages, \<open>fuel\<close> each collection.\<close>

fun find_free_walk :: "nat \<Rightarrow> nat \<Rightarrow> u64 option \<Rightarrow> shm_heap \<Rightarrow> fault + (u64 option \<times> shm_heap)" where
  "find_free_walk n fuel None h = Inr (None, h)"
| "find_free_walk 0 fuel (Some page) h = Inl Out_Of_Fuel"
| "find_free_walk (Suc n) fuel (Some page) h =
     (let nxt = get_page_by_offset (pg_next (h_page h page))
      in bnd (cxl_page_free_collect fuel page h) (\<lambda>h.
           if pg_free (h_page h page) \<noteq> 0 then Inr (Some page, h)
           else find_free_walk n fuel nxt h))"

definition cxl_page_queue_find_free_ex ::
  "nat \<Rightarrow> cxl_shm \<Rightarrow> nat \<Rightarrow> shm_heap \<Rightarrow> fault + (u64 option \<times> shm_heap)" where
  "cxl_page_queue_find_free_ex fuel sh pq h =
     bnd (find_free_walk fuel fuel (get_page_by_offset (pq_first (bin_queue sh pq h))) h) (\<lambda>(page, h).
       case page of
         None \<Rightarrow> bnd (cxl_page_fresh sh pq h) (\<lambda>(page, h). Inr (Some page, h))
       | Some page \<Rightarrow> Inr (Some page, h))"

definition cxl_page_free :: "cxl_shm \<Rightarrow> u64 \<Rightarrow> nat \<Rightarrow> shm_heap \<Rightarrow> fault + shm_heap" where
  "cxl_page_free sh page pq h =
     (let h = with_bin sh pq (remove_state page) h;
          segment = cxl_ptr_segment page;
          h = upd_page page (\<lambda>_. zero_page) h;
          h = with_free_queue sh (push_state page) h;
          h = upd_seg segment (\<lambda>g. g\<lparr>seg_used := seg_used g - 1\<rparr>) h
      in if seg_used (h_seg h segment) = 0 then cxl_segment_free sh segment h else Inr h)"


section \<open>A fresh page's free list\<close>

text \<open>The blocks of \<open>n\<close> bytes in page \<open>j\<close> of segment \<open>s\<close>, in address order.\<close>

definition page_blocks :: "nat \<Rightarrow> nat \<Rightarrow> nat \<Rightarrow> u64 list" where
  "page_blocks s j n = map (\<lambda>k. page_area (seg_at s) j + of_nat (k * n)) [0..<65536 div n]"

lemma init_blocks_spec:
  fixes B n K :: nat
  assumes fit: "B + K * n < 2 ^ 64" and K: "0 < K" and w: "(if special then 8 else 24) \<le> n"
    and i: "i \<le> K - 1" and fuel: "K - 1 - i \<le> fuel"
  shows "\<exists>c. init_blocks fuel special (of_nat n) (of_nat (B + i * n)) (of_nat (B + (K - 1) * n)) h
      = Inr (h\<lparr>h_cell := c\<rparr>)
    \<and> (\<forall>k. i \<le> k \<and> k < K - 1 \<longrightarrow> c (of_nat (B + k * n)) = of_nat (B + (k + 1) * n))
    \<and> (\<forall>k. \<not> special \<and> i \<le> k \<and> k < K - 1 \<longrightarrow>
         c (of_nat (B + k * n + 8)) = 0 \<and> c (of_nat (B + k * n + 16)) = 0)
    \<and> (\<forall>m < 2 ^ 64. m < B + i * n \<or> B + (K - 1) * n \<le> m \<longrightarrow> c (of_nat m) = h_cell h (of_nat m))"
  using i fuel
proof (induction i arbitrary: fuel h rule: inc_induct)
  case base
  then show ?case by (intro exI [of _ "h_cell h"]) (subst init_blocks.simps, auto)
next
  case (step i)
  have le: "(i + 1) * n \<le> (K - 1) * n" "K * n = (K - 1) * n + n"
    using step.hyps by (intro mult_le_mono1, simp) (use K in \<open>cases K; simp\<close>)
  then have bnd: "B + i * n < 2 ^ 64" "B + i * n + 24 < 2 ^ 64 \<or> special" "B + (K - 1) * n < 2 ^ 64"
    "B + (i + 1) * n < 2 ^ 64"
    using fit w by (auto split: if_splits)
  have lt: "(of_nat (B + i * n) :: u64) < of_nat (B + (K - 1) * n)"
    using bnd(1,3) le w step.hyps by (subst of_nat_less_64) (auto split: if_splits)
  obtain fuel' where f: "fuel = Suc fuel'" "K - 1 - Suc i \<le> fuel'"
    using step.prems step.hyps by (cases fuel) auto
  let ?b = "of_nat (B + i * n) :: u64"
  define h1 where "h1 = set_cell ?b (of_nat (B + Suc i * n))
    (if special then memset_cells 1 ?b h else memset_cells 3 ?b h)"
  from step.IH [OF f(2), of h1] obtain c where
    c: "init_blocks fuel' special (of_nat n) (of_nat (B + Suc i * n)) (of_nat (B + (K - 1) * n)) h1
      = Inr (h1\<lparr>h_cell := c\<rparr>)"
    "\<And>k. Suc i \<le> k \<Longrightarrow> k < K - 1 \<Longrightarrow> c (of_nat (B + k * n)) = of_nat (B + (k + 1) * n)"
    "\<And>k. \<not> special \<Longrightarrow> Suc i \<le> k \<Longrightarrow> k < K - 1 \<Longrightarrow>
         c (of_nat (B + k * n + 8)) = 0 \<and> c (of_nat (B + k * n + 16)) = 0"
    "\<And>m. m < 2 ^ 64 \<Longrightarrow> m < B + Suc i * n \<or> B + (K - 1) * n \<le> m \<Longrightarrow> c (of_nat m) = h_cell h1 (of_nat m)"
    by blast
  have h1c: "h_cell h1 a = (if a = ?b then of_nat (B + Suc i * n)
      else if \<not> special \<and> (a = of_nat (B + i * n + 8) \<or> a = of_nat (B + i * n + 16)) then 0 else h_cell h a)" for a
    by (auto simp: h1_def numeral_3_eq_3 add.assoc)
  have h1u: "h1\<lparr>h_cell := c\<rparr> = h\<lparr>h_cell := c\<rparr>"
    by (simp add: h1_def set_cell_def memset_cells_def)
  have "init_blocks fuel special (of_nat n) ?b (of_nat (B + (K - 1) * n)) h = Inr (h\<lparr>h_cell := c\<rparr>)"
    using lt c(1) unfolding f(1) h1u
    by (subst init_blocks.simps) (simp add: Let_def h1_def algebra_simps)
  moreover have "c (of_nat (B + k * n)) = of_nat (B + (k + 1) * n)" if "i \<le> k" "k < K - 1" for k
  proof (cases "k = i")
    case True
    then show ?thesis using c(4) [OF bnd(1)] w h1c by (auto split: if_splits)
  next
    case False
    then show ?thesis using c(2) that by simp
  qed
  moreover have "c (of_nat (B + k * n + 8)) = 0 \<and> c (of_nat (B + k * n + 16)) = 0"
    if "\<not> special" "i \<le> k" "k < K - 1" for k
  proof (cases "k = i")
    case True
    then show ?thesis using c(4) [of "B + i * n + 8"] c(4) [of "B + i * n + 16"] w h1c bnd that
      by (auto simp: of_nat_eq_64)
  next
    case False
    then show ?thesis using c(3) that by simp
  qed
  moreover have "c (of_nat m) = h_cell h (of_nat m)"
    if m: "m < 2 ^ 64" "m < B + i * n \<or> B + (K - 1) * n \<le> m" for m
  proof -
    have "B + i * n + (if special then 0 else 16) < B + (K - 1) * n"
      using le w step.hyps by (auto split: if_splits)
    then have m': "m \<noteq> B + i * n" "special \<or> m \<noteq> B + i * n + 8" "special \<or> m \<noteq> B + i * n + 16"
      using m(2) by (auto split: if_splits)
    have ne: "(of_nat m :: u64) \<noteq> of_nat x" if "m \<noteq> x" "x < 2 ^ 64" for x
      using of_nat_eq_64 [OF m(1) that(2)] that(1) by blast
    have b: "special \<or> B + i * n + 8 < 2 ^ 64" "special \<or> B + i * n + 16 < 2 ^ 64"
      using bnd(2) by auto
    have "of_nat m \<noteq> ?b" by (rule ne [OF m'(1) bnd(1)])
    moreover have "special \<or> of_nat m \<noteq> (of_nat (B + i * n + 8) :: u64)"
      using ne m'(2) b(1) by blast
    moreover have "special \<or> of_nat m \<noteq> (of_nat (B + i * n + 16) :: u64)"
      using ne m'(3) b(2) by blast
    ultimately have "h_cell h1 (of_nat m) = h_cell h (of_nat m)"
      unfolding h1c by auto
    then show ?thesis using c(4) m by auto
  qed
  ultimately show ?case by blast
qed

lemma chain_of_steps:
  assumes "\<And>k. i \<le> k \<Longrightarrow> k < K - 1 \<Longrightarrow> c (f k) = f (k + 1)" and "c (f (K - 1)) = 0"
    and "\<And>k. k < K \<Longrightarrow> f k \<noteq> 0" and "i < K"
  shows "chain c (f i) (map f [i..<K])"
  using assms(4,1)
proof (induction "K - i" arbitrary: i)
  case 0
  then show ?case by simp
next
  case (Suc d)
  show ?case
  proof (cases "i = K - 1")
    case True
    then have "[i..<K] = [K - 1]" using Suc.prems by (simp add: upt_rec)
    then show ?thesis using assms(2,3) Suc.prems True by simp
  next
    case False
    then have "i + 1 < K" using Suc.prems by simp
    moreover have "d = K - (i + 1)" using Suc.hyps(2) by simp
    ultimately have "chain c (f (i + 1)) (map f [i + 1..<K])"
      using Suc.hyps(1) Suc.prems(2) by simp
    moreover have "c (f i) = f (i + 1)" using Suc.prems False by simp
    ultimately show ?thesis using assms(3) Suc.prems by (simp add: upt_conv_Cons)
  qed
qed

lemma init_blocks_chain:
  fixes B n K :: nat
  assumes B: "0 < B" "B + 65536 < 2 ^ 64" and K: "0 < K" "K * n \<le> 65536"
    and w: "(if special then 8 else 24) \<le> n"
  defines "l \<equiv> B + (K - 1) * n"
  shows "\<exists>c. init_blocks K special (of_nat n) (of_nat B) (of_nat l) h = Inr (h\<lparr>h_cell := c\<rparr>)
    \<and> chain (c(of_nat l := 0)) (of_nat B) (map (\<lambda>k. of_nat (B + k * n)) [0..<K])
    \<and> (\<forall>m < 2 ^ 64. m < B \<or> B + 65536 \<le> m \<longrightarrow> (c(of_nat l := 0)) (of_nat m) = h_cell h (of_nat m))
    \<and> (\<forall>k d. \<not> special \<and> k < K - 1 \<and> (d = 8 \<or> d = 16) \<longrightarrow> (c(of_nat l := 0)) (of_nat (B + k * n + d)) = 0)"
proof -
  have n0: "0 < n" using w by (auto split: if_splits)
  have Kn: "(K - 1) * n + n = K * n" using K(1) by (cases K) auto
  have l64: "l < 2 ^ 64" unfolding l_def using Kn K(2) B by linarith
  obtain c where c: "init_blocks K special (of_nat n) (of_nat B) (of_nat l) h = Inr (h\<lparr>h_cell := c\<rparr>)"
    "\<And>k. k < K - 1 \<Longrightarrow> c (of_nat (B + k * n)) = of_nat (B + (k + 1) * n)"
    "\<And>k. \<not> special \<Longrightarrow> k < K - 1 \<Longrightarrow> c (of_nat (B + k * n + 8)) = 0 \<and> c (of_nat (B + k * n + 16)) = 0"
    "\<And>m. m < 2 ^ 64 \<Longrightarrow> m < B \<or> l \<le> m \<Longrightarrow> c (of_nat m) = h_cell h (of_nat m)"
    using init_blocks_spec [of B K n special 0 K h] B K w by (auto simp: l_def)
  have lt: "k * n + (if special then 8 else 24) \<le> (K - 1) * n" "B + k * n < 2 ^ 64" if "k < K - 1" for k
  proof -
    have "(k + 1) * n \<le> (K - 1) * n" using that by (intro mult_le_mono1) simp
    then show "k * n + (if special then 8 else 24) \<le> (K - 1) * n" "B + k * n < 2 ^ 64"
      using n0 w K Kn B that by (auto split: if_splits)
  qed
  have step: "(c(of_nat l := 0)) (of_nat (B + k * n)) = of_nat (B + (k + 1) * n)" if "k < K - 1" for k
    using c(2) [OF that] lt [OF that] of_nat_eq_64 [OF lt(2) [OF that] l64]
    by (auto simp: l_def split: if_splits)
  have nz: "of_nat (B + k * n) \<noteq> (0 :: u64)" if "k < K" for k
  proof -
    have "k * n \<le> (K - 1) * n" using that by (intro mult_le_mono1) simp
    then have a: "B + k * n < 2 ^ 64" using l64 unfolding l_def by linarith
    have "(of_nat (B + k * n) :: u64) = of_nat 0 \<longleftrightarrow> B + k * n = 0"
      by (rule of_nat_eq_64 [OF a]) simp
    then show ?thesis using B(1) by (simp del: of_nat_add of_nat_mult)
  qed
  have "chain (c(of_nat l := 0)) (of_nat (B + 0 * n)) (map (\<lambda>k. of_nat (B + k * n)) [0..<K])"
    by (rule chain_of_steps [where f = "\<lambda>k. of_nat (B + k * n)" and i = 0])
       (use step nz K in \<open>simp_all add: l_def\<close>)
  then have "chain (c(of_nat l := 0)) (of_nat B) (map (\<lambda>k. of_nat (B + k * n)) [0..<K])"
    by simp
  moreover have "(c(of_nat l := 0)) (of_nat m) = h_cell h (of_nat m)"
    if "m < 2 ^ 64" "m < B \<or> B + 65536 \<le> m" for m
  proof -
    have "m \<noteq> l" "l \<le> m \<or> m < B" using that(2) Kn K n0 by (auto simp: l_def)
    then show ?thesis
      using c(4) [OF that(1)] of_nat_eq_64 [OF that(1) l64] by auto
  qed
  moreover have "(c(of_nat l := 0)) (of_nat (B + k * n + d)) = 0"
    if "\<not> special" "k < K - 1" "d = 8 \<or> d = 16" for k d
  proof -
    have "B + k * n + d < l" using lt [OF that(2)] that by (auto simp: l_def)
    then show ?thesis
      using c(3) [OF that(1,2)] that(3) of_nat_eq_64 [of "B + k * n + d" l] l64 by auto
  qed
  ultimately show ?thesis using c(1) by blast
qed

text \<open>
  Initialising a fresh page of block size \<open>n\<close> threads all \<open>65536 div n\<close> blocks, in
  address order, into its free list, leaves its local list empty and its use count 0, and
  writes no cell outside the page and no other page header. In an object page every block
  but the last starts with a zero \<open>ref_info\<close> and no embedded references.
\<close>

lemma page_init_threads_blocks:
  assumes s: "s < MAX_SEGMENT_NUM" "j < PAGES_PER_SEGMENT"
    and n: "(if special then 8 else 24) \<le> n" "n \<le> 65536"
    and fresh: "pg_free (h_page h (meta_at (seg_at s) j)) = 0"
  shows "\<exists>h'. cxl_page_init special (Some (meta_at (seg_at s) j)) (of_nat n) h = Inr h'
    \<and> h_page h' = (h_page h)(meta_at (seg_at s) j :=
        zero_page\<lparr>pg_free := page_area (seg_at s) j, pg_block_size := of_nat n\<rparr>)
    \<and> chain (h_cell h') (page_area (seg_at s) j) (page_blocks s j n)
    \<and> (\<forall>m < 2 ^ 64. m < unat (page_area (seg_at s) j) \<or> unat (page_area (seg_at s) j) + 65536 \<le> m
         \<longrightarrow> h_cell h' (of_nat m) = h_cell h (of_nat m))
    \<and> (\<forall>k. \<not> special \<and> k < 65536 div n - 1 \<longrightarrow>
         obj_ref_info h' (page_area (seg_at s) j + of_nat (k * n)) = 0
         \<and> obj_embedded h' (page_area (seg_at s) j + of_nat (k * n)) = 0)
    \<and> h_tls h' = h_tls h \<and> h_sas h' = h_sas h \<and> h_seg h' = h_seg h \<and> h_era h' = h_era h"
proof -
  let ?page = "meta_at (seg_at s) j"
  define B where "B = 2 ^ 27 + s * 2 ^ 26 + j * 2 ^ 16"
  define K where "K = 65536 div n"
  have area: "page_area (seg_at s) j = of_nat B" by (simp add: page_area_nat B_def)
  have B: "B + 65536 < 2 ^ 64" "0 < B" using s by (simp_all add: B_def layout)
  have uB: "unat (page_area (seg_at s) j) = B"
    unfolding area using B(1) by (intro unat_of_nat_64) simp
  have n0: "0 < n" "n < 2 ^ 64" using n by (auto split: if_splits)
  have K: "0 < K" "K * n \<le> 65536" using n n0 by (simp_all add: K_def div_greater_zero_iff)
  have Kn: "(K - 1) * n + n = K * n" using K(1) by (cases K) auto
  have div: "PAGE_SIZE div of_nat n = of_nat K"
    using of_nat_div_64 [of 65536 n] n0 by (simp add: layout K_def)
  have K64: "K < 2 ^ 64" using K(2) n0(1) by (metis B(1) le_add2 le_less_trans less_mult_imp_div_less nonzero_mult_div_cancel_right order_le_less_trans mult.commute add_lessD1 K_def div_le_dividend)
  have uK: "unat (PAGE_SIZE div of_nat n) = K" unfolding div by (rule unat_of_nat_64 [OF K64])
  have last: "cxl_page_block_at (of_nat B) (of_nat n) (PAGE_SIZE div of_nat n - 1) = of_nat (B + (K - 1) * n)"
    using K(1) by (simp add: cxl_page_block_at_def div of_nat_diff)
  have nn: "(of_nat n :: u64) \<noteq> 0" using of_nat_eq_64 [of n 0] n0 by simp
  have start: "cxl_page_start (cxl_ptr_segment ?page) ?page = of_nat B"
    using s by (simp add: cxl_ptr_segment_meta cxl_page_start_meta area)
  let ?fresh = "\<lparr>pg_free = 0, pg_local_free = 0, pg_block_size = of_nat n, pg_used = 0, pg_next = 0,
    pg_prev = 0, pg_is_msg_queue_page = False\<rparr> :: cxl_page_t"
  define h0 where "h0 = upd_page ?page (\<lambda>_. ?fresh) h"
  have uc: "ucast (of_nat n :: u64) = (of_nat n :: u32)"
    using n(2) by (simp add: word_unat_eq_iff unsigned_ucast_eq unsigned_of_nat take_bit_nat_eq_self)
  have h0e: "upd_page ?page (\<lambda>p. p\<lparr>pg_local_free := 0, pg_block_size := of_nat n, pg_used := 0,
      pg_next := 0, pg_prev := 0, pg_is_msg_queue_page := False\<rparr>) h = h0"
    unfolding h0_def by (rule upd_page_eq) (simp add: page_record_full fresh)
  have init: "cxl_page_init special (Some ?page) (of_nat n) h =
      bnd (init_blocks K special (of_nat n) (of_nat (B + 0 * n)) (of_nat (B + (K - 1) * n)) h0) (\<lambda>h.
        Inr (upd_page ?page (\<lambda>p. p\<lparr>pg_free := of_nat B\<rparr>)
          (set_cell (of_nat (B + (K - 1) * n)) (pg_free (h_page h ?page)) h)))"
    unfolding cxl_page_init_def deref_simps bnd_simps Let_def start uK last uc upd_fuse h0e
    using nn by (simp add: cxl_page_block_at_def)
  have pb: "page_blocks s j n = map (\<lambda>k. of_nat (B + k * n)) [0..<K]"
    by (simp add: page_blocks_def area K_def)
  have h0c: "h_cell h0 = h_cell h" by (simp add: h0_def)
  obtain c where c: "init_blocks K special (of_nat n) (of_nat B) (of_nat (B + (K - 1) * n)) h0
        = Inr (h0\<lparr>h_cell := c\<rparr>)"
    and ch: "chain (c(of_nat (B + (K - 1) * n) := 0)) (of_nat B) (page_blocks s j n)"
    and out: "\<And>m. m < 2 ^ 64 \<Longrightarrow> m < B \<or> B + 65536 \<le> m
        \<Longrightarrow> (c(of_nat (B + (K - 1) * n) := 0)) (of_nat m) = h_cell h (of_nat m)"
    and info: "\<And>k d. \<not> special \<Longrightarrow> k < K - 1 \<Longrightarrow> d = 8 \<or> d = 16
        \<Longrightarrow> (c(of_nat (B + (K - 1) * n) := 0)) (of_nat (B + k * n + d)) = 0"
    using init_blocks_chain [OF B(2,1) K n(1), of h0, unfolded h0c] unfolding pb by blast
  define c' where "c' = c(of_nat (B + (K - 1) * n) := 0)"
  note ch' = ch [folded c'_def] and out' = out [folded c'_def] and info' = info [folded c'_def]
  let ?h' = "h\<lparr>h_page := (h_page h)(?page := ?fresh\<lparr>pg_free := of_nat B\<rparr>), h_cell := c'\<rparr>"
  have r: "cxl_page_init special (Some ?page) (of_nat n) h = Inr ?h'"
    unfolding init using c by (simp add: h0_def c'_def upd_page_def set_cell_def)
  have "obj_ref_info ?h' (of_nat B + of_nat (k * n)) = 0 \<and> obj_embedded ?h' (of_nat B + of_nat (k * n)) = 0"
    if "\<not> special" "k < K - 1" for k
    using info' [OF that, of 8] info' [OF that, of 16]
    by (simp add: obj_ref_info_def obj_embedded_def add.assoc)
  then show ?thesis
    unfolding r uB K_def [symmetric] unfolding area using ch' out'
    by (intro exI [of _ ?h'] conjI) (simp_all add: zero_page_def)
qed


section \<open>Where frees go\<close>

text \<open>
  \<open>local_lists h L\<close>: the local list of every page \<open>p\<close> is \<open>L p\<close>. \<open>page_keep\<close>: two page
  headers agree but for the local list and the use count.
\<close>

definition local_lists :: "shm_heap \<Rightarrow> (u64 \<Rightarrow> u64 list) \<Rightarrow> bool" where
  "local_lists h L \<longleftrightarrow> (\<forall>p. chain (h_cell h) (pg_local_free (h_page h p)) (L p))"

definition page_keep :: "cxl_page_t \<Rightarrow> cxl_page_t \<Rightarrow> bool" where
  "page_keep p q \<longleftrightarrow> pg_free q = pg_free p \<and> pg_block_size q = pg_block_size p
     \<and> pg_next q = pg_next p \<and> pg_prev q = pg_prev p
     \<and> pg_is_msg_queue_page q = pg_is_msg_queue_page p"

definition blocks_of_page :: "u64 \<Rightarrow> u64 list \<Rightarrow> u64 list" where
  "blocks_of_page p tf = filter (\<lambda>b. cxl_ptr_page b = p) tf"

lemma collect_blocks_spec:
  assumes "chain (h_cell h) a tf" and "length tf \<le> fuel"
    and "local_lists h L" and "\<And>p. set (L p) \<inter> set tf = {}"
  shows "\<exists>h'. collect_blocks fuel a h = Inr h'
    \<and> local_lists h' (\<lambda>p. rev (blocks_of_page p tf) @ L p)
    \<and> (\<forall>p. pg_used (h_page h' p) = pg_used (h_page h p) - of_nat (length (blocks_of_page p tf)))
    \<and> (\<forall>p. page_keep (h_page h p) (h_page h' p))
    \<and> (\<forall>c. c \<notin> set tf \<longrightarrow> h_cell h' c = h_cell h c)
    \<and> h_tls h' = h_tls h \<and> h_sas h' = h_sas h \<and> h_seg h' = h_seg h \<and> h_era h' = h_era h"
  using assms
proof (induction tf arbitrary: fuel a h L)
  case Nil
  then show ?case
    by (subst collect_blocks.simps) (simp add: blocks_of_page_def page_keep_def)
next
  case (Cons b tf)
  then have b: "a = b" "b \<noteq> 0" "chain (h_cell h) (h_cell h b) tf" "b \<notin> set tf"
    using chain_distinct [OF Cons.prems(1)] by auto
  obtain n where n: "fuel = Suc n" "length tf \<le> n" using Cons.prems(2) by (cases fuel) auto
  let ?p = "cxl_ptr_page b"
  define h1 where "h1 = upd_page ?p (\<lambda>g. g\<lparr>pg_local_free := b, pg_used := pg_used g - 1\<rparr>)
    (set_cell b (pg_local_free (h_page h ?p)) h)"
  define L1 where "L1 = L(?p := b # L ?p)"
  have r: "collect_blocks fuel a h = collect_blocks n (h_cell h b) h1"
    unfolding n(1) b(1) using b(2)
    by (subst collect_blocks.simps) (simp add: Let_def h1_def blk_next_def)
  have "local_lists h1 L1"
    using Cons.prems(3,4) b(2) by (auto simp: local_lists_def h1_def L1_def)
  moreover have "chain (h_cell h1) (h_cell h b) tf"
    using b(3,4) by (simp add: h1_def)
  moreover have "set (L1 p) \<inter> set tf = {}" for p
    using Cons.prems(4) [of p] b(4) by (auto simp: L1_def)
  ultimately obtain h' where h': "collect_blocks n (h_cell h b) h1 = Inr h'"
    "local_lists h' (\<lambda>p. rev (blocks_of_page p tf) @ L1 p)"
    "\<And>p. pg_used (h_page h' p) = pg_used (h_page h1 p) - of_nat (length (blocks_of_page p tf))"
    "\<And>p. page_keep (h_page h1 p) (h_page h' p)"
    "\<And>c. c \<notin> set tf \<Longrightarrow> h_cell h' c = h_cell h1 c"
    "h_tls h' = h_tls h1" "h_sas h' = h_sas h1" "h_seg h' = h_seg h1" "h_era h' = h_era h1"
    using Cons.IH [of h1 "h_cell h b" n L1] n(2) by blast
  have "rev (blocks_of_page p tf) @ L1 p = rev (blocks_of_page p (b # tf)) @ L p" for p
    by (simp add: L1_def blocks_of_page_def)
  moreover have "pg_used (h_page h' p) = pg_used (h_page h p) - of_nat (length (blocks_of_page p (b # tf)))" for p
    unfolding h'(3) by (simp add: h1_def blocks_of_page_def)
  moreover have "page_keep (h_page h p) (h_page h' p)" for p
    using h'(4) [of p] by (simp add: page_keep_def h1_def split: if_splits)
  moreover have "h_cell h' c = h_cell h c" if "c \<notin> set (b # tf)" for c
    using h'(5) [of c] that by (simp add: h1_def)
  ultimately show ?case
    unfolding r using h'(1,2,6-9) by (simp add: h1_def)
qed

lemma thread_free_collect_step:
  fixes page :: u64
  defines "sas \<equiv> sas_of_segment (cxl_ptr_segment page)"
  assumes "chain (h_cell h) (sf_thread_free (sas_info (h_sas h sas))) tf" and "length tf \<le> fuel"
    and "local_lists h L" and "\<forall>p. set (L p) \<inter> set tf = {}"
  shows "\<exists>h'. cxl_thread_free_collect fuel page h = Inr h'
    \<and> local_lists h' (\<lambda>p. rev (blocks_of_page p tf) @ L p)
    \<and> (\<forall>p. pg_used (h_page h' p) = pg_used (h_page h p) - of_nat (length (blocks_of_page p tf)))
    \<and> (\<forall>p. page_keep (h_page h p) (h_page h' p))
    \<and> sf_thread_free (sas_info (h_sas h' sas)) = 0
    \<and> sf_state (sas_info (h_sas h' sas)) = sf_state (sas_info (h_sas h sas))
    \<and> (\<forall>c. c \<notin> set tf \<longrightarrow> h_cell h' c = h_cell h c)
    \<and> (\<forall>x. x \<noteq> sas \<longrightarrow> h_sas h' x = h_sas h x) \<and> (\<forall>x. sas_thread_id (h_sas h' x) = sas_thread_id (h_sas h x))
    \<and> h_tls h' = h_tls h \<and> h_seg h' = h_seg h \<and> h_era h' = h_era h"
proof (cases "sf_thread_free (sas_info (h_sas h sas)) = 0")
  case True
  with assms(2) have "tf = []" by simp
  with True assms show ?thesis
    by (simp add: cxl_thread_free_collect_def Let_def blocks_of_page_def page_keep_def)
next
  case False
  define h1 where "h1 = upd_sas sas (\<lambda>s. s\<lparr>sas_info :=
    \<lparr>sf_state = sf_state (sas_info (h_sas h sas)), sf_thread_free = 0\<rparr>\<rparr>) h"
  have "local_lists h1 L" "chain (h_cell h1) (sf_thread_free (sas_info (h_sas h sas))) tf"
    using assms(2,4) by (simp_all add: h1_def local_lists_def)
  from collect_blocks_spec [OF this(2) assms(3) this(1)] assms(5) obtain h' where
    h': "collect_blocks fuel (sf_thread_free (sas_info (h_sas h sas))) h1 = Inr h'"
    "local_lists h' (\<lambda>p. rev (blocks_of_page p tf) @ L p)"
    "\<And>p. pg_used (h_page h' p) = pg_used (h_page h1 p) - of_nat (length (blocks_of_page p tf))"
    "\<And>p. page_keep (h_page h1 p) (h_page h' p)" "\<And>c. c \<notin> set tf \<Longrightarrow> h_cell h' c = h_cell h1 c"
    "h_sas h' = h_sas h1" "h_tls h' = h_tls h1" "h_seg h' = h_seg h1" "h_era h' = h_era h1" by blast
  have "cxl_thread_free_collect fuel page h = Inr h'"
    using False h'(1) by (simp add: cxl_thread_free_collect_def Let_def flip: sas_def h1_def)
  then show ?thesis using h'(2-) by (simp add: h1_def)
qed

text \<open>
  C29. Collecting the blocks other clients freed returns every one of them to the local list
  of its own page, newest first, decrements that page's use count once per block, empties the
  segment's foreign list, and touches no other cell: no block is lost or put in two lists.
\<close>

theorem thread_free_collect_distributes:
  fixes page :: u64
  defines "sas \<equiv> sas_of_segment (cxl_ptr_segment page)"
  assumes "chain (h_cell h) (sf_thread_free (sas_info (h_sas h sas))) tf" and "length tf \<le> fuel"
    and "local_lists h L" and "\<forall>p. set (L p) \<inter> set tf = {}"
  shows "\<exists>h'. cxl_thread_free_collect fuel page h = Inr h'
    \<and> local_lists h' (\<lambda>p. rev (blocks_of_page p tf) @ L p)
    \<and> (\<forall>p. pg_used (h_page h' p) = pg_used (h_page h p) - of_nat (length (blocks_of_page p tf)))
    \<and> (\<forall>p. page_keep (h_page h p) (h_page h' p))
    \<and> sf_thread_free (sas_info (h_sas h' sas)) = 0
    \<and> sf_state (sas_info (h_sas h' sas)) = sf_state (sas_info (h_sas h sas))
    \<and> (\<forall>c. c \<notin> set tf \<longrightarrow> h_cell h' c = h_cell h c)"
  using thread_free_collect_step [of h page tf fuel L] assms unfolding sas_def by blast

text \<open>
  Two blocks of one page, freed by another client, on the foreign list of segment 0.
\<close>

definition demo_foreign :: shm_heap where
  "demo_foreign = set_cell (page_area (seg_at 0) 3 + 64) (page_area (seg_at 0) 3)
     (upd_sas (sas_at 0) (\<lambda>s. s\<lparr>sas_info := \<lparr>sf_state = 0, sf_thread_free = page_area (seg_at 0) 3 + 64\<rparr>\<rparr>)
       zero_heap)"

theorem thread_free_collect_distributes_witness:
  "\<exists>h'. cxl_thread_free_collect 2 (meta_at (seg_at 0) 3) demo_foreign = Inr h'
    \<and> local_lists h' (\<lambda>p. rev (blocks_of_page p [page_area (seg_at 0) 3 + 64, page_area (seg_at 0) 3]) @ [])"
proof -
  have s: "sas_of_segment (cxl_ptr_segment (meta_at (seg_at 0) 3)) = sas_at 0"
    by (simp add: cxl_ptr_segment_meta sas_of_segment_seg_at layout)
  have c: "chain (h_cell demo_foreign) (sf_thread_free (sas_info (h_sas demo_foreign (sas_at 0))))
      [page_area (seg_at 0) 3 + 64, page_area (seg_at 0) 3]"
    by (simp add: demo_foreign_def page_area_def seg_at_def zero_defs layout)
  have l: "local_lists demo_foreign (\<lambda>_. [])"
    by (simp add: local_lists_def demo_foreign_def zero_defs)
  show ?thesis
    using thread_free_collect_distributes [of demo_foreign "meta_at (seg_at 0) 3" _ 2, unfolded s, OF c _ l]
    by auto
qed

text \<open>
  After a collection a page whose free list had run dry continues with its local list,
  the blocks just collected included, and a page that still had free blocks keeps its free
  list and leaves the collected blocks in the local list.
\<close>

lemma page_free_collect_refills:
  fixes page :: u64
  defines "sas \<equiv> sas_of_segment (cxl_ptr_segment page)"
  assumes "chain (h_cell h) (sf_thread_free (sas_info (h_sas h sas))) tf" and "length tf \<le> fuel"
    and "local_lists h L" and "\<forall>p. set (L p) \<inter> set tf = {}"
    and "chain (h_cell h) (pg_free (h_page h page)) fs" and "set fs \<inter> set tf = {}"
  shows "\<exists>h'. cxl_page_free_collect fuel page h = Inr h'
    \<and> chain (h_cell h') (pg_free (h_page h' page))
        (if fs = [] then rev (blocks_of_page page tf) @ L page else fs)
    \<and> chain (h_cell h') (pg_local_free (h_page h' page))
        (if fs = [] then [] else rev (blocks_of_page page tf) @ L page)
    \<and> pg_used (h_page h' page) = pg_used (h_page h page) - of_nat (length (blocks_of_page page tf))"
proof -
  from thread_free_collect_step [of h page tf fuel L] assms obtain h1 where
    h1: "cxl_thread_free_collect fuel page h = Inr h1"
    "local_lists h1 (\<lambda>p. rev (blocks_of_page p tf) @ L p)"
    "pg_used (h_page h1 page) = pg_used (h_page h page) - of_nat (length (blocks_of_page page tf))"
    "page_keep (h_page h page) (h_page h1 page)"
    "\<And>c. c \<notin> set tf \<Longrightarrow> h_cell h1 c = h_cell h c"
    by (auto simp: sas_def)
  have fs: "chain (h_cell h1) (pg_free (h_page h1 page)) fs"
    using h1(4,5) assms(6,7) by (subst chain_cong [of _ _ "h_cell h"]) (auto simp: page_keep_def)
  have ls: "chain (h_cell h1) (pg_local_free (h_page h1 page)) (rev (blocks_of_page page tf) @ L page)"
    using h1(2) by (simp add: local_lists_def)
  show ?thesis
  proof (cases "pg_local_free (h_page h1 page) \<noteq> 0 \<and> pg_free (h_page h1 page) = 0")
    case True
    then have "fs = []" using fs by simp
    with True h1 ls show ?thesis by (simp add: cxl_page_free_collect_def)
  next
    case False
    then have "cxl_page_free_collect fuel page h = Inr h1"
      using h1(1) by (auto simp: cxl_page_free_collect_def)
    moreover have "fs = [] \<Longrightarrow> rev (blocks_of_page page tf) @ L page = []"
      using False fs ls by (cases "pg_local_free (h_page h1 page) = 0") auto
    ultimately show ?thesis using h1(3) fs ls by auto
  qed
qed

lemma page_free_collect_refills_witness:
  "\<exists>h'. cxl_page_free_collect 2 (meta_at (seg_at 0) 3) demo_foreign = Inr h'
    \<and> chain (h_cell h') (pg_free (h_page h' (meta_at (seg_at 0) 3)))
        (rev (blocks_of_page (meta_at (seg_at 0) 3) [page_area (seg_at 0) 3 + 64, page_area (seg_at 0) 3]))"
proof -
  have s: "sas_of_segment (cxl_ptr_segment (meta_at (seg_at 0) 3)) = sas_at 0"
    by (simp add: cxl_ptr_segment_meta sas_of_segment_seg_at layout)
  have c: "chain (h_cell demo_foreign) (sf_thread_free (sas_info (h_sas demo_foreign (sas_at 0))))
      [page_area (seg_at 0) 3 + 64, page_area (seg_at 0) 3]"
    by (simp add: demo_foreign_def page_area_def seg_at_def zero_defs layout)
  have l: "local_lists demo_foreign (\<lambda>_. [])"
    by (simp add: local_lists_def demo_foreign_def zero_defs)
  have f: "chain (h_cell demo_foreign) (pg_free (h_page demo_foreign (meta_at (seg_at 0) 3))) []"
    by (simp add: demo_foreign_def zero_defs)
  show ?thesis
    using page_free_collect_refills [of demo_foreign "meta_at (seg_at 0) 3" _ 2, unfolded s, OF c _ l _ f]
    by auto
qed


section \<open>Pages between the free queue and the bins\<close>

lemma page_fresh_step:
  fixes s j n :: nat
  defines "p \<equiv> meta_at (seg_at s) j"
  assumes s: "s < MAX_SEGMENT_NUM" "j < PAGES_PER_SEGMENT"
    and n: "pq_block_size (bin_queue sh i h) = of_nat n" "(if i = 0 \<or> i = 1 then 8 else 24) \<le> n" "n \<le> 65536"
    and f: "free_list sh h (p # xs)" and b: "bin_list sh i h ys"
    and disj: "set (p # xs) \<inter> set ys = {}" and fresh: "pg_free (h_page h p) = 0"
  shows "\<exists>h'. cxl_page_fresh sh i h = Inr (p, h')
    \<and> free_list sh h' xs \<and> bin_list sh i h' (p # ys)
    \<and> chain (h_cell h') (pg_free (h_page h' p)) (page_blocks s j n)
    \<and> pg_local_free (h_page h' p) = 0 \<and> pg_used (h_page h' p) = 0
    \<and> pg_block_size (h_page h' p) = of_nat n
    \<and> pg_is_msg_queue_page (h_page h' p) = (i = 1)
    \<and> h_seg h' = (h_seg h)(seg_at s := (h_seg h (seg_at s))\<lparr>seg_used := seg_used (h_seg h (seg_at s)) + 1\<rparr>)
    \<and> h_sas h' = h_sas h \<and> h_era h' = h_era h
    \<and> (\<forall>k. pq_block_size (bin_queue sh k h') = pq_block_size (bin_queue sh k h)
         \<and> (k \<noteq> i \<longrightarrow> bin_queue sh k h' = bin_queue sh k h))
    \<and> (\<forall>q zs. dlist (h_page h) q zs \<and> set zs \<inter> (set (p # xs) \<union> set ys) = {} \<longrightarrow> dlist (h_page h') q zs)
    \<and> tls_frame sh h h'
    \<and> (\<forall>q. q \<noteq> p \<longrightarrow> pg_free (h_page h' q) = pg_free (h_page h q)
         \<and> pg_local_free (h_page h' q) = pg_local_free (h_page h q)
         \<and> pg_block_size (h_page h' q) = pg_block_size (h_page h q)
         \<and> pg_used (h_page h' q) = pg_used (h_page h q)
         \<and> pg_is_msg_queue_page (h_page h' q) = pg_is_msg_queue_page (h_page h q))
    \<and> (\<forall>m < 2 ^ 64. m < unat (page_area (seg_at s) j) \<or> unat (page_area (seg_at s) j) + 65536 \<le> m
         \<longrightarrow> h_cell h' (of_nat m) = h_cell h (of_nat m))"
proof -
  let ?h1 = "upd_seg (cxl_ptr_segment p) (\<lambda>g. g\<lparr>seg_used := seg_used g + 1\<rparr>)
    (with_free_queue sh (remove_state p) h)"
  have a: "cxl_segment_page_alloc sh h = (Some p, ?h1)" by (rule page_alloc_hit [OF f])
  have seg: "cxl_ptr_segment p = seg_at s" unfolding p_def using s by (rule cxl_ptr_segment_meta)
  have f1: "free_list sh ?h1 xs" using free_list_hit [OF f] by (simp add: free_list_def)
  have d0: "dlist (h_page h) (free_queue sh h) ([] @ p # xs)" using f by (simp add: free_list_def)
  have b1: "dlist (h_page ?h1) (bin_queue sh i ?h1) ys"
    using remove_frame [OF b [unfolded bin_list_def] d0] disj by (simp add: remove_state_def)
  have fresh1: "pg_free (h_page ?h1 p) = 0"
    using page_data_eqD(1) [OF remove_page_data] fresh by (simp add: remove_state_def)
  have bs: "pq_block_size (bin_queue sh i ?h1) = of_nat n" using n(1) by simp
  from page_init_threads_blocks [OF s _ n(3) fresh1 [unfolded p_def], of "i = 0 \<or> i = 1"] n(2)
  obtain h2 where h2: "cxl_page_init (i = 0 \<or> i = 1) (Some p) (of_nat n) ?h1 = Inr h2"
    "h_page h2 = (h_page ?h1)(p := zero_page\<lparr>pg_free := page_area (seg_at s) j, pg_block_size := of_nat n\<rparr>)"
    "chain (h_cell h2) (page_area (seg_at s) j) (page_blocks s j n)"
    "\<And>m. m < 2 ^ 64 \<Longrightarrow> m < unat (page_area (seg_at s) j) \<or> unat (page_area (seg_at s) j) + 65536 \<le> m
         \<Longrightarrow> h_cell h2 (of_nat m) = h_cell ?h1 (of_nat m)"
    "h_tls h2 = h_tls ?h1" "h_seg h2 = h_seg ?h1" "h_sas h2 = h_sas ?h1" "h_era h2 = h_era ?h1"
    unfolding p_def by blast
  let ?h3 = "if i = 1 then upd_page p (\<lambda>g. g\<lparr>pg_is_msg_queue_page := True\<rparr>) h2 else h2"
  have r: "cxl_page_fresh sh i h = Inr (p, with_bin sh i (push_state p) ?h3)"
    unfolding cxl_page_fresh_def Let_def a using h2(1) bs by simp
  have p: "p \<noteq> 0" "p \<notin> set ys" "p \<notin> set xs"
    using meta_at_nonzero [OF s] disj dlist_distinct [OF d0] by (auto simp: p_def)
  have b3: "dlist (h_page ?h3) (bin_queue sh i ?h3) ys"
    using b1 p(2) h2(2,5) by (subst dlist_cong [of _ _ "h_page ?h1" _ "bin_queue sh i ?h1"]) auto
  have f3: "dlist (h_page ?h3) (free_queue sh ?h3) xs"
    using f1 p(3) h2(2,5) unfolding free_list_def
    by (subst dlist_cong [of _ _ "h_page ?h1" _ "free_queue sh ?h1"]) auto
  have data: "page_data_eq (h_page ?h3) (h_page (with_bin sh i (push_state p) ?h3))"
    using push_page_data by (simp add: push_state_def)
  note dd = page_data_eqD [OF data, of p]
  have others: "pg_free (h_page (with_bin sh i (push_state p) ?h3) q) = pg_free (h_page h q)
         \<and> pg_local_free (h_page (with_bin sh i (push_state p) ?h3) q) = pg_local_free (h_page h q)
         \<and> pg_block_size (h_page (with_bin sh i (push_state p) ?h3) q) = pg_block_size (h_page h q)
         \<and> pg_used (h_page (with_bin sh i (push_state p) ?h3) q) = pg_used (h_page h q)
         \<and> pg_is_msg_queue_page (h_page (with_bin sh i (push_state p) ?h3) q) = pg_is_msg_queue_page (h_page h q)" if "q \<noteq> p" for q
    using page_data_eqD [OF data, of q] that h2(2) page_data_eqD [OF remove_state_data [of "(free_queue sh h, h_page h)" p], of q]
    by simp
  have dj: "set ys \<inter> set xs = {}" using disj by auto
  have "free_list sh (with_bin sh i (push_state p) ?h3) xs"
    unfolding free_list_def using push_frame [OF f3 b3 p(3) dj] by (simp add: push_state_def)
  moreover have "bin_list sh i (with_bin sh i (push_state p) ?h3) (p # ys)"
    unfolding bin_list_def using push_dlist [OF b3 p(1,2)] by (simp add: push_state_def)
  moreover have "dlist (h_page (with_bin sh i (push_state p) ?h3)) q zs"
    if "dlist (h_page h) q zs" "set zs \<inter> (set (p # xs) \<union> set ys) = {}" for q zs
  proof -
    have z: "set ([] @ p # xs) \<inter> set zs = {}" "p \<notin> set zs" "set ys \<inter> set zs = {}" using that(2) by auto
    have "dlist (h_page ?h1) q zs"
      using remove_frame [OF that(1) d0 z(1)] by (simp add: remove_state_def)
    then have "dlist (h_page ?h3) q zs"
      using z(2) h2(2) by (subst dlist_cong [of _ _ "h_page ?h1" _ q]) auto
    then show ?thesis using push_frame [OF _ b3 z(2,3)] by (simp add: push_state_def)
  qed
  moreover have "pq_block_size (bin_queue sh k (with_bin sh i (push_state p) ?h3)) = pq_block_size (bin_queue sh k h)
      \<and> (k \<noteq> i \<longrightarrow> bin_queue sh k (with_bin sh i (push_state p) ?h3) = bin_queue sh k h)" for k
    using h2(5) by (cases "k = i") (simp_all add: push_state_def push_fst)
  moreover have "h_seg (with_bin sh i (push_state p) ?h3)
      = (h_seg h)(seg_at s := (h_seg h (seg_at s))\<lparr>seg_used := seg_used (h_seg h (seg_at s)) + 1\<rparr>)"
    using h2(6) seg by (simp add: upd_seg_def)
  moreover have "tls_frame sh h (with_bin sh i (push_state p) ?h3)"
    using h2(5) by (simp add: tls_frame_def)
  ultimately show ?thesis
    unfolding r using h2 dd others by (simp add: zero_page_def)
qed

text \<open>With an empty free queue the fresh page is page 1 of a segment claimed for it.\<close>

lemma page_fresh_new_segment:
  fixes s n :: nat
  assumes s: "s < MAX_SEGMENT_NUM" "2 ^ 27 + (s + 1) * 2 ^ 26 \<le> unat (shm_size sh)"
    and sas: "sas_thread_id (h_sas h (sas_at s)) = 0" "\<forall>j < s. sas_thread_id (h_sas h (sas_at j)) \<noteq> 0"
    and f: "free_list sh h []"
    and n: "pq_block_size (bin_queue sh i h) = of_nat n" "(if i = 0 \<or> i = 1 then 8 else 24) \<le> n" "n \<le> 65536"
    and b: "bin_list sh i h ys" and disj: "set (segment_pages (seg_at s)) \<inter> set ys = {}"
    and fresh: "pg_free (h_page h (meta_at (seg_at s) 1)) = 0"
  shows "\<exists>h'. cxl_page_fresh sh i h = Inr (meta_at (seg_at s) 1, h')
    \<and> free_list sh h' (map (meta_at (seg_at s)) [2..<PAGES_PER_SEGMENT])
    \<and> bin_list sh i h' (meta_at (seg_at s) 1 # ys)
    \<and> chain (h_cell h') (pg_free (h_page h' (meta_at (seg_at s) 1))) (page_blocks s 1 n)
    \<and> pg_used (h_page h' (meta_at (seg_at s) 1)) = 0
    \<and> seg_used (h_seg h' (seg_at s)) = 1
    \<and> sas_thread_id (h_sas h' (sas_at s)) = shm_thread_id sh"
proof -
  let ?p = "meta_at (seg_at s) 1" and ?rest = "map (meta_at (seg_at s)) [2..<PAGES_PER_SEGMENT]"
  from segment_alloc_spec [OF s sas f] obtain h1 where
    h1: "cxl_segment_alloc sh h = (Some (seg_at s), h1)"
    "h_sas h1 = (h_sas h)(sas_at s := \<lparr>sas_thread_id = shm_thread_id sh, sas_ver = 0, sas_info = zero_info\<rparr>)"
    "h_seg h1 = (h_seg h)(seg_at s := \<lparr>seg_thread_id = ucast (shm_thread_id sh), seg_used = 0\<rparr>)"
    "free_list sh h1 (?p # ?rest)" "page_data_eq (h_page h) (h_page h1)"
    "\<And>a. tls_pages (h_tls h1 a) = tls_pages (h_tls h a)"
    "\<And>q ys. dlist (h_page h) q ys \<Longrightarrow> set ys \<inter> set (segment_pages (seg_at s)) = {} \<Longrightarrow> dlist (h_page h1) q ys"
    by (auto simp: segment_pages_Cons)
  have b1: "bin_list sh i h1 ys"
    using h1(7) [OF b [unfolded bin_list_def]] h1(6) disj by (simp add: bin_list_def Int_commute)
  have "pq_first (free_queue sh h) = 0" using f by (simp add: free_list_def)
  then have "cxl_segment_page_alloc sh h = cxl_segment_page_alloc sh h1"
    by (simp add: cxl_segment_page_alloc.simps [of sh h] h1(1))
  moreover have "h_tls (snd (cxl_segment_page_alloc sh h1)) = h_tls (snd (cxl_segment_page_alloc sh h1))" ..
  ultimately have r: "cxl_page_fresh sh i h = cxl_page_fresh sh i h1"
    by (simp add: cxl_page_fresh_def)
  have j: "1 < PAGES_PER_SEGMENT" by (simp add: layout)
  have sp: "set (segment_pages (seg_at s)) = set (?p # ?rest)" by (simp add: segment_pages_Cons)
  have dj: "set (?p # ?rest) \<inter> set ys = {}" using disj unfolding sp .
  have n1: "pq_block_size (bin_queue sh i h1) = of_nat n" using n(1) h1(6) by simp
  have fr1: "pg_free (h_page h1 ?p) = 0" using page_data_eqD(1) [OF h1(5)] fresh by simp
  from page_fresh_step [OF s(1) j n1 n(2,3) h1(4) b1 dj fr1]
  show ?thesis unfolding r using h1(2,3) by auto
qed

text \<open>Releasing a page, up to the decision whether its segment is released with it.\<close>

lemma with_bin_page_free_step:
  assumes b: "bin_list sh i h (as @ p # bs)" and f: "free_list sh h xs"
    and disj: "set (as @ p # bs) \<inter> set xs = {}"
  defines "h2 \<equiv> with_free_queue sh (push_state p) (upd_page p (\<lambda>_. zero_page) (with_bin sh i (remove_state p) h))"
  shows "bin_list sh i h2 (as @ bs)" and "free_list sh h2 (p # xs)"
    and "pg_free (h_page h2 p) = 0 \<and> pg_local_free (h_page h2 p) = 0 \<and> pg_used (h_page h2 p) = 0"
    and "\<And>a. a \<noteq> p \<Longrightarrow> pg_free (h_page h2 a) = pg_free (h_page h a)
      \<and> pg_local_free (h_page h2 a) = pg_local_free (h_page h a) \<and> pg_used (h_page h2 a) = pg_used (h_page h a)
      \<and> pg_block_size (h_page h2 a) = pg_block_size (h_page h a)
      \<and> pg_is_msg_queue_page (h_page h2 a) = pg_is_msg_queue_page (h_page h a)"
    and "h_seg h2 = h_seg h" "h_sas h2 = h_sas h" "h_cell h2 = h_cell h"
    and "h_era h2 = h_era h" "pg_block_size (h_page h2 p) = 0"
    and "\<And>k. pq_block_size (bin_queue sh k h2) = pq_block_size (bin_queue sh k h)"
    and "\<And>k. k \<noteq> i \<Longrightarrow> bin_queue sh k h2 = bin_queue sh k h"
    and "\<And>q zs. dlist (h_page h) q zs \<Longrightarrow> set zs \<inter> (set (as @ p # bs) \<union> set xs) = {} \<Longrightarrow> dlist (h_page h2) q zs"
    and "tls_frame sh h h2"
proof -
  let ?h0 = "with_bin sh i (remove_state p) h"
  let ?h1 = "upd_page p (\<lambda>_. zero_page) ?h0"
  have d: "distinct (as @ p # bs)" "p \<noteq> 0" "p \<notin> set xs"
    using dlist_distinct [OF b [unfolded bin_list_def]] dlist_nonzero [OF b [unfolded bin_list_def]] disj
    by auto
  have b0: "dlist (h_page ?h0) (bin_queue sh i ?h0) (as @ bs)"
    using remove_dlist(1) [OF b [unfolded bin_list_def]] by (simp add: remove_state_def)
  have b1: "dlist (h_page ?h1) (bin_queue sh i ?h1) (as @ bs)"
    using b0 d by (subst dlist_cong [of _ _ "h_page ?h0" _ "bin_queue sh i ?h0"]) auto
  have f0: "dlist (h_page ?h0) (free_queue sh ?h0) xs"
    using remove_frame [OF f [unfolded free_list_def] b [unfolded bin_list_def] disj]
    by (simp add: remove_state_def)
  have f1: "dlist (h_page ?h1) (free_queue sh ?h1) xs"
    using f0 d by (subst dlist_cong [of _ _ "h_page ?h0" _ "free_queue sh ?h0"]) auto
  have pb: "p \<notin> set (as @ bs)" "set xs \<inter> set (as @ bs) = {}" using d disj by auto
  show "bin_list sh i h2 (as @ bs)"
    using push_frame [OF b1 f1 pb] by (simp add: bin_list_def h2_def push_state_def)
  show "free_list sh h2 (p # xs)"
    using push_dlist [OF f1 d(2,3)] by (simp add: free_list_def h2_def push_state_def)
  have data: "page_data_eq (h_page ?h1) (h_page h2)"
    using push_state_data [of "(free_queue sh ?h1, h_page ?h1)" p] by (simp add: h2_def)
  show "pg_free (h_page h2 p) = 0 \<and> pg_local_free (h_page h2 p) = 0 \<and> pg_used (h_page h2 p) = 0"
    using page_data_eqD [OF data] by (simp add: zero_page_def)
  show "pg_free (h_page h2 a) = pg_free (h_page h a)
      \<and> pg_local_free (h_page h2 a) = pg_local_free (h_page h a) \<and> pg_used (h_page h2 a) = pg_used (h_page h a)
      \<and> pg_block_size (h_page h2 a) = pg_block_size (h_page h a)
      \<and> pg_is_msg_queue_page (h_page h2 a) = pg_is_msg_queue_page (h_page h a)" if "a \<noteq> p" for a
    using page_data_eqD [OF data, of a] that page_data_eqD [OF remove_state_data [of "(bin_queue sh i h, h_page h)" p], of a]
    by simp
  show "h_seg h2 = h_seg h" "h_sas h2 = h_sas h" "h_cell h2 = h_cell h" "h_era h2 = h_era h"
    by (simp_all add: h2_def)
  show "pg_block_size (h_page h2 p) = 0" using page_data_eqD [OF data] by (simp add: zero_page_def)
  show "bin_queue sh k h2 = bin_queue sh k h" if "k \<noteq> i" for k using that by (simp add: h2_def)
  show "tls_frame sh h h2" by (simp add: h2_def tls_frame_def)
  show "pq_block_size (bin_queue sh k h2) = pq_block_size (bin_queue sh k h)" for k
    by (cases "k = i") (simp_all add: h2_def remove_state_def cxl_page_queue_remove_def Let_def)
  show "dlist (h_page h2) q zs"
    if z: "dlist (h_page h) q zs" "set zs \<inter> (set (as @ p # bs) \<union> set xs) = {}" for q zs
  proof -
    have dz: "set (as @ p # bs) \<inter> set zs = {}" "p \<notin> set zs" "set xs \<inter> set zs = {}" using z(2) by auto
    have "dlist (h_page ?h0) q zs"
      using remove_frame [OF z(1) b [unfolded bin_list_def] dz(1)] by (simp add: remove_state_def)
    then have "dlist (h_page ?h1) q zs" using dz(2) by (subst dlist_cong [of _ _ "h_page ?h0" _ q]) auto
    then show ?thesis using push_frame [OF _ f1 dz(2,3)] by (simp add: h2_def push_state_def)
  qed
qed

text \<open>
  Freeing a page whose segment has other pages in use takes it out of its bin, wherever
  it stood, clears its header, puts it first in the free queue and uncounts it in its
  segment; the segment stays with the client.
\<close>

lemma page_free_keeps_segment:
  assumes b: "bin_list sh i h (as @ p # bs)" and f: "free_list sh h xs"
    and disj: "set (as @ p # bs) \<inter> set xs = {}"
    and used: "seg_used (h_seg h (cxl_ptr_segment p)) \<noteq> 1"
  shows "\<exists>h'. cxl_page_free sh p i h = Inr h' \<and> bin_list sh i h' (as @ bs) \<and> free_list sh h' (p # xs)
    \<and> pg_free (h_page h' p) = 0 \<and> pg_local_free (h_page h' p) = 0 \<and> pg_used (h_page h' p) = 0
    \<and> seg_used (h_seg h' (cxl_ptr_segment p)) = seg_used (h_seg h (cxl_ptr_segment p)) - 1
    \<and> h_sas h' = h_sas h \<and> h_cell h' = h_cell h"
  using with_bin_page_free_step [OF b f disj] used
  by (simp add: cxl_page_free_def Let_def bin_list_def free_list_def)

lemma page_free_keeps_segment_witness:
  "\<exists>h'. cxl_page_free demo_shm (meta_at (seg_at 0) 5) 5
      (with_bin demo_shm 5 (push_state (meta_at (seg_at 0) 5)) demo_client) = Inr h'
    \<and> free_list demo_shm h' [meta_at (seg_at 0) 5]"
proof -
  let ?h = "with_bin demo_shm 5 (push_state (meta_at (seg_at 0) 5)) demo_client"
  have b: "bin_list demo_shm 5 ?h ([] @ meta_at (seg_at 0) 5 # [])"
    using push_dlist [of "\<lambda>_. zero_page" "init_bins (\<lambda>_. zero_pq) 5" "[]" "meta_at (seg_at 0) 5"] meta_at_nonzero [of 0 5]
    by (simp add: bin_list_def push_state_def demo_client_simps layout init_bins_def)
  have f: "free_list demo_shm ?h []"
    by (simp add: free_list_def demo_client_simps zero_pq_def)
  show ?thesis
    using page_free_keeps_segment [OF b f] by (auto simp: demo_client_simps zero_seg_def)
qed

text \<open>
  Freeing the last page in use of a segment, its other 1022 pages being in the free
  queue, releases the segment: all its pages leave the free queue, the order of the others
  is kept, its headers are cleared, and its allocation state carries no owner.
\<close>

lemma page_free_releases_segment:
  assumes s: "s < MAX_SEGMENT_NUM" "p \<in> set (segment_pages (seg_at s))"
    and own: "sas_thread_id (h_sas h (sas_at s)) = shm_thread_id sh"
    and b: "bin_list sh i h (as @ p # bs)" and f: "free_list sh h xs"
    and disj: "set (as @ p # bs) \<inter> set xs = {}"
    and used: "seg_used (h_seg h (seg_at s)) = 1"
    and all: "set (segment_pages (seg_at s)) \<subseteq> insert p (set xs)" "meta_at (seg_at s) 0 \<notin> set xs"
  shows "\<exists>h'. cxl_page_free sh p i h = Inr h'
    \<and> free_list sh h' (filter (\<lambda>a. a \<notin> set (segment_pages (seg_at s))) xs)
    \<and> sas_thread_id (h_sas h' (sas_at s)) = 0
    \<and> (\<forall>j < PAGES_PER_SEGMENT. h_page h' (meta_at (seg_at s) j) = zero_page)
    \<and> h_seg h' (seg_at s) = zero_seg \<and> h_cell h' = h_cell h"
proof -
  from s obtain j where j: "p = meta_at (seg_at s) j" "1 \<le> j" "j < PAGES_PER_SEGMENT"
    by (auto simp: set_segment_pages)
  then have seg: "cxl_ptr_segment p = seg_at s" using s(1) by (simp add: cxl_ptr_segment_meta)
  note st = with_bin_page_free_step [OF b f disj]
  let ?h2 = "with_free_queue sh (push_state p) (upd_page p (\<lambda>_. zero_page) (with_bin sh i (remove_state p) h))"
  let ?h3 = "upd_seg (seg_at s) (\<lambda>g. g\<lparr>seg_used := seg_used g - 1\<rparr>) ?h2"
  have r: "cxl_page_free sh p i h = cxl_segment_free sh (seg_at s) ?h3"
    unfolding cxl_page_free_def Let_def seg using st(5) used by simp
  have f3: "free_list sh ?h3 (p # xs)" using st(2) by (simp add: free_list_def)
  have own3: "sas_thread_id (h_sas ?h3 (sas_at s)) = shm_thread_id sh" using own by simp
  have "meta_at (seg_at s) 0 \<noteq> p"
    using meta_at_inj [OF s(1) _ s(1) j(3), of 0] j(1,2) by (simp add: layout)
  then have m0: "meta_at (seg_at s) 0 \<notin> set (p # xs)" using all(2) by simp
  have sub: "set (segment_pages (seg_at s)) \<subseteq> set (p # xs)" using all(1) by simp
  show ?thesis
    unfolding r using segment_free_spec [OF s(1) own3 f3 sub m0] s(2) by auto
qed

lemma page_free_releases_segment_witness:
  "\<exists>h h'. cxl_page_fresh demo_shm 5 demo_client = Inr (meta_at (seg_at 0) 1, h)
    \<and> sas_thread_id (h_sas h (sas_at 0)) = 1
    \<and> cxl_page_free demo_shm (meta_at (seg_at 0) 1) 5 h = Inr h'
    \<and> sas_thread_id (h_sas h' (sas_at 0)) = 0"
proof -
  have 0: "0 < MAX_SEGMENT_NUM" "1 < PAGES_PER_SEGMENT" by (simp_all add: layout)
  have fit: "2 ^ 27 + (0 + 1) * 2 ^ 26 \<le> unat (shm_size demo_shm)" by (simp add: demo_shm_def)
  have free: "free_list demo_shm demo_client []" by (simp add: free_list_def demo_client_simps zero_pq_def)
  have bs: "pq_block_size (bin_queue demo_shm 5 demo_client) = of_nat 64"
    by (simp add: demo_client_simps init_bins_def layout)
  have bin: "bin_list demo_shm 5 demo_client []"
    by (simp add: bin_list_def demo_client_simps init_bins_def layout)
  obtain h where h: "cxl_page_fresh demo_shm 5 demo_client = Inr (meta_at (seg_at 0) 1, h)"
    "free_list demo_shm h (map (meta_at (seg_at 0)) [2..<PAGES_PER_SEGMENT])"
    "bin_list demo_shm 5 h [meta_at (seg_at 0) 1]" "seg_used (h_seg h (seg_at 0)) = 1"
    "sas_thread_id (h_sas h (sas_at 0)) = shm_thread_id demo_shm"
    using page_fresh_new_segment [OF 0(1) fit _ _ free bs _ _ bin] by (auto simp: demo_client_simps zero_defs)
  have p: "meta_at (seg_at 0) 1 \<in> set (segment_pages (seg_at 0))"
    "set (segment_pages (seg_at 0)) = insert (meta_at (seg_at 0) 1) (set (map (meta_at (seg_at 0)) [2..<PAGES_PER_SEGMENT]))"
    by (simp_all add: segment_pages_Cons)
  have d: "set ([] @ meta_at (seg_at 0) 1 # []) \<inter> set (map (meta_at (seg_at 0)) [2..<PAGES_PER_SEGMENT]) = {}"
    using segment_pages_distinct(1) [OF 0(1)] by (simp add: segment_pages_Cons)
  have m: "meta_at (seg_at 0) 0 \<notin> set (map (meta_at (seg_at 0)) [2..<PAGES_PER_SEGMENT])"
    using meta_at_inj [OF 0(1) _ 0(1), of 0] by (auto simp: layout)
  show ?thesis
    using page_free_releases_segment [OF 0(1) p(1) h(5) _ h(2) d h(4) _ m, of 5] h p(2)
    by (auto simp: demo_shm_def)
qed

text \<open>
  With the free queue empty and every segment that fits taken, no fresh page can be had:
  the null page is dereferenced (\<open>cxl_page_fresh\<close> passes the result of
  \<open>cxl_segment_page_alloc\<close> on unchecked).
\<close>

lemma page_fresh_out_of_memory:
  assumes "free_list sh h []"
    and "\<forall>j. 2 ^ 27 + (j + 1) * 2 ^ 26 \<le> unat (shm_size sh)
      \<longrightarrow> sas_thread_id (h_sas h (sas_at j)) \<noteq> 0"
  shows "cxl_page_fresh sh i h = Inl Null_Deref"
proof -
  have "pq_first (free_queue sh h) = 0" using assms(1) by (simp add: free_list_def)
  then have "cxl_segment_page_alloc sh h = (None, h)"
    using claim_segment_none [of 0 sh h] assms(2)
    by (simp add: cxl_segment_page_alloc.simps [of sh h] cxl_segment_alloc_def)
  then show ?thesis by (simp add: cxl_page_fresh_def cxl_page_init_def)
qed

lemma page_fresh_out_of_memory_witness:
  "cxl_page_fresh \<lparr>shm_size = 2 ^ 27, shm_tls_offset = tls_at 0, shm_thread_id = 1\<rparr> 5 zero_heap = Inl Null_Deref"
  by (rule page_fresh_out_of_memory) (simp_all add: free_list_def zero_defs)

end
