(* ===== verification/Alloc.thy ===== *)
theory Alloc
  imports Page
begin

text \<open>
  Blocks (\<open>src/alloc.cpp\<close>, the slow path of \<open>src/page.cpp\<close> and the \<open>block_to_*\<close> functions of
  \<open>src/cxl_shm.cpp\<close>): taking a block from a page of the right bin, turning it into a root
  reference, an object or a message queue, and giving it back.
\<close>

section \<open>Finding a block\<close>

text \<open>Only the first page of the bin is looked at here; the slow path walks the others.\<close>

definition cxl_find_page :: "cxl_shm \<Rightarrow> nat \<Rightarrow> shm_heap \<Rightarrow> u64 option" where
  "cxl_find_page sh pq h =
     (case get_page_by_offset (pq_first (bin_queue sh pq h)) of
        Some page \<Rightarrow>
          (case get_block_by_offset (pg_free (h_page h page)) of
             Some block \<Rightarrow> Some page
           | None \<Rightarrow> None)
      | None \<Rightarrow> None)"

text \<open>\<open>cxl_page_malloc\<close> on a page that is there: its first free block, which stays in the list.\<close>

definition page_block :: "u64 \<Rightarrow> shm_heap \<Rightarrow> u64 option" where
  "page_block page h = get_block_by_offset (pg_free (h_page h page))"

text \<open>
  The slow path clears the redo log first. Its call back of \<open>cxl_page_malloc\<close> is on a page
  that is there. The results are the block, the page (a reference parameter in the code) and
  the region; \<open>fuel\<close> bounds the walks over pages and collected blocks.
\<close>

definition clear_redo :: "cxl_shm \<Rightarrow> shm_heap \<Rightarrow> shm_heap" where
  "clear_redo sh h = upd_tls (shm_tls_offset sh) (\<lambda>t. t\<lparr>tls_redo := (\<lambda>_. zero_redo)\<rparr>) h"

definition cxl_malloc_generic ::
  "nat \<Rightarrow> cxl_shm \<Rightarrow> nat \<Rightarrow> shm_heap \<Rightarrow> fault + (u64 option \<times> u64 option \<times> shm_heap)" where
  "cxl_malloc_generic fuel sh pq h =
     (let h = clear_redo sh h
      in bnd (cxl_page_queue_find_free_ex fuel sh pq h) (\<lambda>(page, h).
           case page of
             None \<Rightarrow> Inr (None, None, h)
           | Some page \<Rightarrow> Inr (page_block page h, Some page, h)))"

definition cxl_page_malloc ::
  "nat \<Rightarrow> cxl_shm \<Rightarrow> nat \<Rightarrow> u64 option \<Rightarrow> shm_heap \<Rightarrow> fault + (u64 option \<times> u64 option \<times> shm_heap)" where
  "cxl_page_malloc fuel sh pq page h =
     (case page of
        None \<Rightarrow> cxl_malloc_generic fuel sh pq h
      | Some page \<Rightarrow> Inr (page_block page h, Some page, h))"


section \<open>What a block becomes\<close>

definition own_era :: "cxl_shm \<Rightarrow> int" where
  "own_era sh = era (uint (shm_thread_id sh)) (uint (shm_thread_id sh))"

definition bump_era :: "cxl_shm \<Rightarrow> shm_heap \<Rightarrow> shm_heap" where
  "bump_era sh h = set_era (own_era sh) (h_era h (own_era sh) + 1) h"

text \<open>\<open>page->used++; page->free = b->next\<close>, the first two steps of each conversion.\<close>

definition take_block :: "u64 \<Rightarrow> u64 \<Rightarrow> shm_heap \<Rightarrow> shm_heap" where
  "take_block b page h =
     (let h = upd_page page (\<lambda>p. p\<lparr>pg_used := pg_used p + 1\<rparr>) h
      in upd_page page (\<lambda>p. p\<lparr>pg_free := blk_next h b\<rparr>) h)"

definition block_to_tbr :: "u64 \<Rightarrow> u64 \<Rightarrow> shm_heap \<Rightarrow> shm_heap" where
  "block_to_tbr b page h =
     (let h = take_block b page h;
          h = set_cell b 0 h;
          h = set_rr_in_use b 1 h
      in set_rr_ref_cnt b 0 h)"

definition link_block_to_tbr :: "u64 \<Rightarrow> u64 \<Rightarrow> shm_heap \<Rightarrow> shm_heap" where
  "link_block_to_tbr b tbr h =
     (let h = set_cell tbr b h
      in set_rr_ref_cnt tbr (rr_ref_cnt h tbr + 1) h)"

definition block_to_cxlobj ::
  "cxl_shm \<Rightarrow> u64 \<Rightarrow> u64 \<Rightarrow> u64 \<Rightarrow> shm_heap \<Rightarrow> shm_heap" where
  "block_to_cxlobj sh b page embedded_ref_cnt h =
     (let h = take_block b page h;
          info = pack_ref_info (ucast (shm_thread_id sh)) 1 (h_era h (own_era sh));
          h = bump_era sh h;
          h = set_cell (b + 8) info h
      in set_cell (b + 16) embedded_ref_cnt h)"

text \<open>The queue's \<open>receiver_id\<close> is set to 0 whatever the parameter says.\<close>

definition block_to_msg_queue :: "u64 \<Rightarrow> u16 \<Rightarrow> u16 \<Rightarrow> shm_heap \<Rightarrow> shm_heap" where
  "block_to_msg_queue b sender_id receiver_id h =
     (let page = cxl_ptr_page b;
          h = take_block b page h;
          h = set_mq_sender_id b sender_id h;
          h = set_mq_receiver_id b 0 h;
          h = set_cell b 0 h;
          h = set_cell (b + 8) 0 h;
          h = set_cell (b + 24) 0 h;
          h = set_cell (b + 32) 0 h
      in memset_cells 16 (b + 40) h)"


section \<open>Allocation\<close>

definition thread_base_ref_alloc ::
  "nat \<Rightarrow> cxl_shm \<Rightarrow> shm_heap \<Rightarrow> fault + (u64 option \<times> shm_heap)" where
  "thread_base_ref_alloc fuel sh h =
     bnd (cxl_page_queue True 16) (\<lambda>pq.
       let page = cxl_find_page sh pq h
       in bnd (cxl_page_malloc fuel sh pq page h) (\<lambda>(block, page, h).
            case block of
              None \<Rightarrow> Inr (None, h)
            | Some b \<Rightarrow> bnd (deref page) (\<lambda>page. Inr (Some b, block_to_tbr b page h))))"

definition cxl_ref_alloc ::
  "nat \<Rightarrow> cxl_shm \<Rightarrow> u64 option \<Rightarrow> u64 \<Rightarrow> u64 \<Rightarrow> shm_heap \<Rightarrow> fault + (CXLRef \<times> shm_heap)" where
  "cxl_ref_alloc fuel sh ref block_size embedded_ref_cnt h =
     bnd (cxl_page_queue False block_size) (\<lambda>pq.
       let page = cxl_find_page sh pq h
       in bnd (cxl_page_malloc fuel sh pq page h) (\<lambda>(block, page, h).
          bnd (deref ref) (\<lambda>ref.
          bnd (deref block) (\<lambda>b.
          bnd (deref page) (\<lambda>page.
            let h = link_block_to_tbr b ref h;
                h = block_to_cxlobj sh b page embedded_ref_cnt h
            in Inr (\<lparr>ref_tbr = ref, ref_data = b + sizeof_CXLObj\<rparr>, h))))))"

definition cxl_malloc ::
  "nat \<Rightarrow> cxl_shm \<Rightarrow> u64 \<Rightarrow> u32 \<Rightarrow> shm_heap \<Rightarrow> fault + (CXLRef \<times> shm_heap)" where
  "cxl_malloc fuel sh data_size embedded_ref_cnt h =
     bnd (thread_base_ref_alloc fuel sh h) (\<lambda>(tbr, h).
       cxl_ref_alloc fuel sh tbr (data_size + sizeof_CXLObj) (ucast embedded_ref_cnt) h)"

definition msg_queue_alloc ::
  "nat \<Rightarrow> cxl_shm \<Rightarrow> u16 \<Rightarrow> u16 \<Rightarrow> shm_heap \<Rightarrow> fault + (u64 option \<times> shm_heap)" where
  "msg_queue_alloc fuel sh sender_id receiver_id h =
     bnd (cxl_page_queue True sizeof_msg_queue) (\<lambda>pq.
       let page = cxl_find_page sh pq h
       in bnd (cxl_page_malloc fuel sh pq page h) (\<lambda>(block, page, h).
            case block of
              None \<Rightarrow> Inr (None, h)
            | Some b \<Rightarrow> Inr (Some b, block_to_msg_queue b sender_id receiver_id h)))"


section \<open>Freeing\<close>

text \<open>
  The memory of the block is cleared first: the header of an object, all of a root
  reference or message queue.
\<close>

definition clear_block :: "bool \<Rightarrow> u64 \<Rightarrow> shm_heap \<Rightarrow> shm_heap" where
  "clear_block special b h =
     (if \<not> special then memset_cells 3 b h
      else if pg_block_size (h_page h (cxl_ptr_page b)) = 16 then memset_cells 2 b h
      else memset_cells 24 b h)"

text \<open>
  A foreign block is pushed on its segment's list, unless the segment may leak: then the
  block is dropped, and the monitor's scan of such segments finds it.
\<close>

definition push_foreign :: "u64 \<Rightarrow> shm_heap \<Rightarrow> shm_heap" where
  "push_foreign b h =
     (let sas = sas_of_segment (cxl_ptr_segment b);
          info = sas_info (h_sas h sas)
      in if sf_state info = segment_state_code POTENTIAL_LEAKING then h
         else let h = set_cell b (sf_thread_free info) h;
                  new_info = \<lparr>sf_state = sf_state info, sf_thread_free = b\<rparr>
              in upd_sas sas (\<lambda>s. s\<lparr>sas_info := new_info\<rparr>) h)"

definition cxl_free :: "cxl_shm \<Rightarrow> bool \<Rightarrow> u64 \<Rightarrow> shm_heap \<Rightarrow> fault + shm_heap" where
  "cxl_free sh special b h =
     (let page = cxl_ptr_page b;
          segment = cxl_ptr_segment b;
          h = clear_block special b h
      in if ucast (seg_thread_id (h_seg h segment)) = shm_thread_id sh
         then
           let h = set_cell b (pg_local_free (h_page h page)) h;
               h = upd_page page (\<lambda>p. p\<lparr>pg_local_free := b\<rparr>) h;
               h = upd_page page (\<lambda>p. p\<lparr>pg_used := pg_used p - 1\<rparr>) h
           in if pg_used (h_page h page) = 0
              then bnd (cxl_page_queue special (ucast (pg_block_size (h_page h page)))) (\<lambda>pq.
                     cxl_page_free sh page pq h)
              else Inr h
         else Inr (push_foreign b h))"


section \<open>What freeing an object leaves alone\<close>

lemma segment_free_frame:
  assumes "cxl_segment_free sh segment h = Inr h'"
  shows "h_cell h' = h_cell h \<and> h_era h' = h_era h \<and> (\<forall>a. tls_redo (h_tls h' a) = tls_redo (h_tls h a))"
  using assms unfolding cxl_segment_free_def Let_def fold_remove_pages
  by (auto simp: release_segment_def memset_segment_def split: if_splits)

lemma with_bin_redo [simp]: "tls_redo (h_tls (with_bin sh i f h) a) = tls_redo (h_tls h a)"
  by (simp add: with_bin_def split: prod.splits)

lemma page_free_frame:
  assumes "cxl_page_free sh p pq h = Inr h'"
  shows "h_cell h' = h_cell h \<and> h_era h' = h_era h \<and> (\<forall>a. tls_redo (h_tls h' a) = tls_redo (h_tls h a))"
  using assms segment_free_frame unfolding cxl_page_free_def Let_def
  by (fastforce split: if_splits)

lemma free_object_frame:
  assumes "cxl_free sh False b h = Inr h'"
  shows "h_cell h' (b + 8) = 0" and "c \<noteq> b \<Longrightarrow> c \<noteq> b + 8 \<Longrightarrow> c \<noteq> b + 16 \<Longrightarrow> h_cell h' c = h_cell h c"
    and "h_era h' = h_era h" and "tls_redo (h_tls h' a) = tls_redo (h_tls h a)"
proof -
  let ?h1 = "clear_block False b h"
  have c1: "h_cell ?h1 (b + 8) = 0" "c \<noteq> b \<Longrightarrow> c \<noteq> b + 8 \<Longrightarrow> c \<noteq> b + 16 \<Longrightarrow> h_cell ?h1 c = h_cell h c"
    "h_era ?h1 = h_era h" "h_tls ?h1 = h_tls h"
    by (auto simp: clear_block_def numeral_3_eq_3 add.assoc)
  have "h_cell h' (b + 8) = 0 \<and> (c \<noteq> b \<and> c \<noteq> b + 8 \<and> c \<noteq> b + 16 \<longrightarrow> h_cell h' c = h_cell h c)
      \<and> h_era h' = h_era h \<and> tls_redo (h_tls h' a) = tls_redo (h_tls h a)"
  proof (cases "ucast (seg_thread_id (h_seg ?h1 (cxl_ptr_segment b))) = shm_thread_id sh")
    case True
    then show ?thesis
      using assms c1 unfolding cxl_free_def Let_def
      by (auto simp: bnd_Inr_iff split: if_splits dest!: page_free_frame)
  next
    case False
    then show ?thesis
      using assms c1 unfolding cxl_free_def Let_def
      by (auto simp: push_foreign_def Let_def split: if_splits)
  qed
  then show "h_cell h' (b + 8) = 0" and "c \<noteq> b \<Longrightarrow> c \<noteq> b + 8 \<Longrightarrow> c \<noteq> b + 16 \<Longrightarrow> h_cell h' c = h_cell h c"
    and "h_era h' = h_era h" and "tls_redo (h_tls h' a) = tls_redo (h_tls h a)" by blast+
qed

end
