(* ===== verification/Ref_Count.thy ===== *)
theory Ref_Count
  imports Alloc
begin

text \<open>
  Reference counting (\<open>link_reference\<close>, \<open>unlink_reference\<close>, \<open>test_free\<close> in
  \<open>src/cxl_shm.cpp\<close>). A reference is a cell of the region; it is named by its offset, as the
  redo log does. Each operation is split where another client can come in between or the
  client can crash: reading and logging (\<open>*_prepare\<close>), the compare-and-swap of the count
  (\<open>cas_ref_info\<close>), and storing the reference (\<open>*_finish\<close>). The operations of one client put
  the three together; without interference the swap succeeds the first time.
\<close>

section \<open>Reading and logging\<close>

text \<open>
  The client records in its row of the era matrix the era it saw of whoever changed the
  count last, if that is news.
\<close>

definition see_era :: "cxl_shm \<Rightarrow> u64 \<Rightarrow> shm_heap \<Rightarrow> shm_heap" where
  "see_era sh ref_info h =
     (let saw_cid = ucast (get_lcid_from_info ref_info) :: u32;
          saw_era = ucast (get_lenum_from_info ref_info) :: u32;
          ele = era (uint (shm_thread_id sh)) (uint saw_cid)
      in if saw_era > h_era h ele then set_era ele saw_era h else h)"

definition redo_slot :: "u32 \<Rightarrow> u32" where
  "redo_slot e = e AND (of_nat REDO_CACHELINE_CNT - 1)"

definition write_redo :: "cxl_shm \<Rightarrow> redo_log \<Rightarrow> shm_heap \<Rightarrow> shm_heap" where
  "write_redo sh r h = upd_tls (shm_tls_offset sh)
     (\<lambda>t. t\<lparr>tls_redo := (tls_redo t)(redo_slot (cur_era r) := r)\<rparr>) h"

text \<open>
  The result is the word read, the word to swap in, and the region. A link reads its own era
  before it updates the matrix, an unlink after.
\<close>

definition link_prepare :: "cxl_shm \<Rightarrow> u64 \<Rightarrow> u64 \<Rightarrow> shm_heap \<Rightarrow> u64 \<times> u64 \<times> shm_heap" where
  "link_prepare sh ref refed h =
     (let ref_info = obj_ref_info h refed;
          ref_info_cnt = ucast (get_ref_cnt_from_info ref_info) :: u16;
          e = h_era h (own_era sh);
          h = see_era sh ref_info h;
          h = write_redo sh \<lparr>func_id = redo_func_code LINK_REF, saved_ref_cnt = ref_info_cnt,
                cur_era = e, redo_ref = ref, redo_refed = refed, old_refed = 0\<rparr> h;
          new_ref_info = pack_ref_info (ucast (shm_thread_id sh)) (ucast ref_info_cnt + 1) e
      in (ref_info, new_ref_info, h))"

definition unlink_prepare :: "cxl_shm \<Rightarrow> u64 \<Rightarrow> u64 \<Rightarrow> shm_heap \<Rightarrow> u64 \<times> u64 \<times> shm_heap" where
  "unlink_prepare sh ref refed h =
     (let ref_info = obj_ref_info h refed;
          ref_info_cnt = ucast (get_ref_cnt_from_info ref_info) :: u16;
          h = see_era sh ref_info h;
          e = h_era h (own_era sh);
          h = write_redo sh \<lparr>func_id = redo_func_code UNLINK_REF, saved_ref_cnt = ref_info_cnt,
                cur_era = e, redo_ref = ref, redo_refed = refed, old_refed = 0\<rparr> h;
          new_ref_info = pack_ref_info (ucast (shm_thread_id sh)) (ucast ref_info_cnt - 1) e
      in (ref_info, new_ref_info, h))"

section \<open>Swapping and finishing\<close>

definition cas_ref_info :: "u64 \<Rightarrow> u64 \<Rightarrow> u64 \<Rightarrow> shm_heap \<Rightarrow> shm_heap option" where
  "cas_ref_info refed old new h =
     (if obj_ref_info h refed = old then Some (set_cell (refed + 8) new h) else None)"

definition link_finish :: "cxl_shm \<Rightarrow> u64 \<Rightarrow> u64 \<Rightarrow> shm_heap \<Rightarrow> shm_heap" where
  "link_finish sh ref refed h = bump_era sh (set_cell ref refed h)"

definition unlink_finish :: "cxl_shm \<Rightarrow> u64 \<Rightarrow> u64 \<Rightarrow> u64 \<Rightarrow> shm_heap \<Rightarrow> fault + shm_heap" where
  "unlink_finish sh ref refed ref_info h =
     (let h = set_cell ref 0 h;
          h = bump_era sh h
      in if get_ref_cnt_from_info ref_info - 1 > 0 then Inr h
         else cxl_free sh False refed h)"

definition link_reference :: "cxl_shm \<Rightarrow> u64 \<Rightarrow> u64 \<Rightarrow> shm_heap \<Rightarrow> shm_heap" where
  "link_reference sh ref refed h =
     (let (ref_info, new_ref_info, h) = link_prepare sh ref refed h;
          h = set_cell (refed + 8) new_ref_info h
      in link_finish sh ref refed h)"

definition unlink_reference :: "cxl_shm \<Rightarrow> u64 \<Rightarrow> u64 \<Rightarrow> shm_heap \<Rightarrow> fault + shm_heap" where
  "unlink_reference sh ref refed h =
     (let (ref_info, new_ref_info, h) = unlink_prepare sh ref refed h;
          h = set_cell (refed + 8) new_ref_info h
      in unlink_finish sh ref refed ref_info h)"

text \<open>
  Dropping a reference: if it is the last one, the references embedded in the object go
  first. The loop reads the number of embedded references anew each time round.
\<close>

fun test_free :: "nat \<Rightarrow> cxl_shm \<Rightarrow> u64 \<Rightarrow> shm_heap \<Rightarrow> fault + shm_heap"
and test_free_embedded :: "nat \<Rightarrow> cxl_shm \<Rightarrow> u64 \<Rightarrow> u64 \<Rightarrow> shm_heap \<Rightarrow> fault + shm_heap" where
  "test_free 0 sh ref h = Inl Out_Of_Fuel"
| "test_free (Suc n) sh ref h =
     (if h_cell h ref = 0 then Inr h
      else let refed = h_cell h ref;
               ref_info = obj_ref_info h refed
           in if get_ref_cnt_from_info ref_info - 1 > 0
              then unlink_reference sh ref (h_cell h ref) h
              else bnd (test_free_embedded n sh refed 0 h) (\<lambda>h.
                     unlink_reference sh ref (h_cell h ref) h))"
| "test_free_embedded 0 sh refed i h = Inl Out_Of_Fuel"
| "test_free_embedded (Suc n) sh refed i h =
     (if i < obj_embedded h refed
      then bnd (test_free n sh (refed + (sizeof_CXLObj + i * 8)) h) (\<lambda>h.
             test_free_embedded n sh refed (i + 1) h)
      else Inr h)"


section \<open>The swap without interference\<close>

lemma see_era_simps [heap_simps, simp]:
  "h_cell (see_era sh w h) = h_cell h" "h_tls (see_era sh w h) = h_tls h"
  "h_sas (see_era sh w h) = h_sas h" "h_seg (see_era sh w h) = h_seg h"
  "h_page (see_era sh w h) = h_page h"
  by (simp_all add: see_era_def Let_def)

lemma write_redo_simps [heap_simps, simp]:
  "h_cell (write_redo sh r h) = h_cell h" "h_era (write_redo sh r h) = h_era h"
  "h_sas (write_redo sh r h) = h_sas h" "h_seg (write_redo sh r h) = h_seg h"
  "h_page (write_redo sh r h) = h_page h"
  by (simp_all add: write_redo_def)

lemma bump_era_simps [heap_simps, simp]:
  "h_cell (bump_era sh h) = h_cell h" "h_tls (bump_era sh h) = h_tls h"
  "h_sas (bump_era sh h) = h_sas h" "h_seg (bump_era sh h) = h_seg h"
  "h_page (bump_era sh h) = h_page h"
  "h_era (bump_era sh h) = (h_era h)(own_era sh := h_era h (own_era sh) + 1)"
  by (simp_all add: bump_era_def)

lemma prepare_word:
  "fst (link_prepare sh ref refed h) = obj_ref_info h refed"
  "fst (unlink_prepare sh ref refed h) = obj_ref_info h refed"
  "h_cell (snd (snd (link_prepare sh ref refed h))) = h_cell h"
  "h_cell (snd (snd (unlink_prepare sh ref refed h))) = h_cell h"
  by (simp_all add: link_prepare_def unlink_prepare_def Let_def)

lemma cas_after_prepare:
  "cas_ref_info refed (fst (link_prepare sh ref refed h)) new (snd (snd (link_prepare sh ref refed h)))
     = Some (set_cell (refed + 8) new (snd (snd (link_prepare sh ref refed h))))"
  "cas_ref_info refed (fst (unlink_prepare sh ref refed h)) new (snd (snd (unlink_prepare sh ref refed h)))
     = Some (set_cell (refed + 8) new (snd (snd (unlink_prepare sh ref refed h))))"
  by (simp_all add: cas_ref_info_def obj_ref_info_def prepare_word)

end
