(* ===== verification/Cxl_Ref.thy ===== *)
theory Cxl_Ref
  imports Ref_Count
begin

text \<open>
  Handles (\<open>src/cxl_ref.cpp\<close>): class \<open>CXLRef_s\<close> counts, in the root reference it points to,
  how many handles of its client share it; the last one to go drops the object. Copying a
  handle counts, moving does not; neither assignment gives up the handle it overwrites.
\<close>

section \<open>Operations\<close>

definition CXLRef_make :: "u64 \<Rightarrow> u64 \<Rightarrow> CXLRef" where
  "CXLRef_make tbr data = \<lparr>ref_tbr = tbr, ref_data = data\<rparr>"

definition CXLRef_copy :: "CXLRef \<Rightarrow> shm_heap \<Rightarrow> CXLRef \<times> shm_heap" where
  "CXLRef_copy r h =
     (if ref_tbr r \<noteq> 0 then (r, set_rr_ref_cnt (ref_tbr r) (rr_ref_cnt h (ref_tbr r) + 1) h)
      else (r, h))"

text \<open>The source of a move is a \<open>const&&\<close>: it keeps its fields.\<close>

definition CXLRef_move :: "CXLRef \<Rightarrow> CXLRef \<times> CXLRef" where
  "CXLRef_move r = (r, r)"

definition CXLRef_copy_assign :: "CXLRef \<Rightarrow> CXLRef \<Rightarrow> shm_heap \<Rightarrow> CXLRef \<times> shm_heap" where
  "CXLRef_copy_assign this r h =
     (let this = this\<lparr>ref_tbr := ref_tbr r\<rparr>;
          this = this\<lparr>ref_data := ref_data r\<rparr>
      in if ref_tbr this \<noteq> 0
         then (this, set_rr_ref_cnt (ref_tbr this) (rr_ref_cnt h (ref_tbr this) + 1) h)
         else (this, h))"

definition CXLRef_move_assign :: "CXLRef \<Rightarrow> CXLRef \<Rightarrow> CXLRef" where
  "CXLRef_move_assign this r =
     (let this = this\<lparr>ref_tbr := ref_tbr r\<rparr> in this\<lparr>ref_data := ref_data r\<rparr>)"

definition CXLRef_destroy ::
  "nat \<Rightarrow> cxl_shm \<Rightarrow> CXLRef \<Rightarrow> shm_heap \<Rightarrow> fault + (CXLRef \<times> shm_heap)" where
  "CXLRef_destroy fuel sh r h =
     (if ref_tbr r = 0 \<and> ref_data r = 0 then Inr (r, h)
      else
        let ref = ref_tbr r;
            h = set_rr_ref_cnt ref (rr_ref_cnt h ref - 1) h
        in if rr_ref_cnt h ref \<noteq> 0 then Inr (r, h)
           else
             bnd (test_free fuel sh ref h) (\<lambda>h.
             let h = set_rr_in_use ref 0 h
             in bnd (cxl_free sh True ref h) (\<lambda>h.
                  Inr (\<lparr>ref_tbr = 0, ref_data = 0\<rparr>, h))))"

definition get_addr :: "CXLRef \<Rightarrow> u64 option" where
  "get_addr r = (if ref_data r = 0 then None else Some (get_data_at_addr 0 (ref_data r)))"

definition get_tbr :: "CXLRef \<Rightarrow> u64 option" where
  "get_tbr r = (if ref_tbr r = 0 then None else Some (get_data_at_addr 0 (ref_tbr r)))"

text \<open>\<open>get_ref\<close> of \<open>src/cxl_shm.cpp\<close>: a handle on an object another client's word names.\<close>

definition get_ref :: "nat \<Rightarrow> cxl_shm \<Rightarrow> u64 \<Rightarrow> shm_heap \<Rightarrow> fault + (CXLRef \<times> shm_heap)" where
  "get_ref fuel sh offset h =
     bnd (thread_base_ref_alloc fuel sh h) (\<lambda>(tbr, h).
     bnd (deref tbr) (\<lambda>tbr.
       let h = link_reference sh tbr offset h;
           h = set_rr_ref_cnt tbr (rr_ref_cnt h tbr + 1) h
       in Inr (CXLRef_make tbr (rr_pptr h tbr + sizeof_CXLObj), h)))"

end
