(* ===== verification/Msg_Transfer.thy ===== *)
theory Msg_Transfer
  imports Cxl_Ref
begin

text \<open>
  Message queues (\<open>src/transfer.cpp\<close>): a ring of 16 reference cells between one sender and
  one receiver. A cell owns a reference to the object in transit: sending links it, receiving
  links it to a fresh root reference and unlinks the cell.
\<close>

section \<open>Operations\<close>

definition cxl_wrap :: "CXLRef \<Rightarrow> shm_heap \<Rightarrow> fault + u64" where
  "cxl_wrap ref h = bnd (deref (get_tbr ref)) (\<lambda>tbr. Inr (rr_pptr h tbr))"

definition sent_to :: "cxl_shm \<Rightarrow> u64 \<Rightarrow> CXLRef \<Rightarrow> shm_heap \<Rightarrow> fault + (bool \<times> shm_heap)" where
  "sent_to sh q ref h =
     bnd (deref (get_tbr ref)) (\<lambda>tbr.
       let offset = rr_pptr h tbr
       in if mq_end h q + 1 = mq_start h q \<or> mq_end h q - mq_start h q = MESSAGE_BUFFER_SIZE - 1
          then Inr (False, h)
          else let h = link_reference sh (mq_slot q (mq_end h q)) offset h;
                   h = set_cell (q + 8) ((mq_end h q + 1) mod MESSAGE_BUFFER_SIZE) h
               in Inr (True, h))"

text \<open>The receiver registers itself with the queue the first time it looks at it.\<close>

definition register_receiver :: "cxl_shm \<Rightarrow> u64 \<Rightarrow> shm_heap \<Rightarrow> shm_heap" where
  "register_receiver sh q h =
     (if mq_receiver_id h q = 0
      then let h = set_cell (q + 32) (tls_receiver_queue (h_tls h (shm_tls_offset sh))) h;
               h = upd_tls (shm_tls_offset sh) (\<lambda>t. t\<lparr>tls_receiver_queue := q\<rparr>) h
           in set_mq_receiver_id q (ucast (shm_thread_id sh)) h
      else h)"

definition cxl_unwrap :: "nat \<Rightarrow> cxl_shm \<Rightarrow> u64 \<Rightarrow> shm_heap \<Rightarrow> fault + (CXLRef \<times> shm_heap)" where
  "cxl_unwrap fuel sh q h =
     (let h = register_receiver sh q h
      in if mq_start h q = mq_end h q \<or> mq_buffer h q (mq_start h q) = 0
         then Inr (CXLRef_make 0 0, h)
         else
           bnd (thread_base_ref_alloc fuel sh h) (\<lambda>(tbr, h).
           bnd (deref tbr) (\<lambda>tbr.
             let h = link_reference sh tbr (mq_buffer h q (mq_start h q)) h;
                 h = set_rr_ref_cnt tbr (rr_ref_cnt h tbr + 1) h
             in bnd (unlink_reference sh (mq_slot q (mq_start h q))
                       (mq_buffer h q (mq_start h q)) h) (\<lambda>h.
                let h = set_cell q ((mq_start h q + 1) mod MESSAGE_BUFFER_SIZE) h
                in Inr (CXLRef_make tbr (rr_pptr h tbr + sizeof_CXLObj), h)))))"

text \<open>The result of \<open>msg_queue_alloc\<close> is used unchecked.\<close>

definition create_msg_queue :: "nat \<Rightarrow> cxl_shm \<Rightarrow> u16 \<Rightarrow> shm_heap \<Rightarrow> fault + (u64 \<times> shm_heap)" where
  "create_msg_queue fuel sh dst_id h =
     bnd (msg_queue_alloc fuel sh (ucast (shm_thread_id sh)) dst_id h) (\<lambda>(q, h).
     bnd (deref q) (\<lambda>q.
       let h = set_cell (q + 24) (tls_sender_queue (h_tls h (shm_tls_offset sh))) h;
           h = upd_tls (shm_tls_offset sh) (\<lambda>t. t\<lparr>tls_sender_queue := q\<rparr>) h
       in Inr (q, h)))"

end
