(* ===== verification/Garbage_Collection.thy ===== *)
theory Garbage_Collection
  imports Msg_Transfer
begin

text \<open>
  What a client's state is turned into when it leaves in order
  (\<open>cxl_shm::normal_garbage_collection\<close>, \<open>src/recovery.cpp\<close>). The loops it shares with the
  monitor's collection are defined here with the operation that drops a reference as a
  parameter.
\<close>

section \<open>Loops\<close>

text \<open>A bounded \<open>for\<close> over indices whose body may fault.\<close>

fun for_each :: "'a list \<Rightarrow> ('a \<Rightarrow> 's \<Rightarrow> fault + 's) \<Rightarrow> 's \<Rightarrow> fault + 's" where
  "for_each [] body s = Inr s"
| "for_each (x # xs) body s = bnd (body x s) (for_each xs body)"

text \<open>\<open>while (x != NULL) { next = x->next; body(x); x = next; }\<close>\<close>

fun walk :: "nat \<Rightarrow> (shm_heap \<Rightarrow> u64 \<Rightarrow> u64) \<Rightarrow> (u64 \<Rightarrow> shm_heap \<Rightarrow> fault + shm_heap)
    \<Rightarrow> u64 \<Rightarrow> shm_heap \<Rightarrow> fault + shm_heap" where
  "walk n nx body x h =
     (if x = 0 then Inr h
      else (case n of
              0 \<Rightarrow> Inl Out_Of_Fuel
            | Suc n \<Rightarrow> let nxt = nx h x in bnd (body x h) (\<lambda>h. walk n nx body nxt h)))"

declare walk.simps [simp del]

definition page_next_of :: "shm_heap \<Rightarrow> u64 \<Rightarrow> u64" where
  "page_next_of h p = pg_next (h_page h p)"

definition set_state :: "segment_state \<Rightarrow> u64 \<Rightarrow> shm_heap \<Rightarrow> shm_heap" where
  "set_state st segment h =
     upd_sas (sas_of_segment segment)
       (\<lambda>s. s\<lparr>sas_info := \<lparr>sf_state = segment_state_code st,
                           sf_thread_free = sf_thread_free (sas_info s)\<rparr>\<rparr>) h"


section \<open>Message queues\<close>

text \<open>
  The two loops over the ring: from \<open>end\<close> to \<open>start\<close>, the slots not in use (at least one
  turn), and from \<open>i\<close> to \<open>end\<close>, the slots in use. Both return where they stopped.
\<close>

definition drop_slot ::
  "(u64 \<Rightarrow> shm_heap \<Rightarrow> fault + shm_heap) \<Rightarrow> u64 \<Rightarrow> u64 \<Rightarrow> shm_heap \<Rightarrow> fault + shm_heap" where
  "drop_slot tf q i h = (if mq_buffer h q i \<noteq> 0 then tf (mq_slot q i) h else Inr h)"

fun drain_unused :: "nat \<Rightarrow> (u64 \<Rightarrow> shm_heap \<Rightarrow> fault + shm_heap) \<Rightarrow> u64 \<Rightarrow> u64 \<Rightarrow> shm_heap
    \<Rightarrow> fault + (u64 \<times> shm_heap)" where
  "drain_unused 0 tf q i h = Inl Out_Of_Fuel"
| "drain_unused (Suc n) tf q i h =
     bnd (drop_slot tf q i h) (\<lambda>h.
       let i = (i + 1) mod MESSAGE_BUFFER_SIZE
       in if i \<noteq> mq_start h q then drain_unused n tf q i h else Inr (i, h))"

fun drain_used :: "nat \<Rightarrow> (u64 \<Rightarrow> shm_heap \<Rightarrow> fault + shm_heap) \<Rightarrow> u64 \<Rightarrow> u64 \<Rightarrow> shm_heap
    \<Rightarrow> fault + (u64 \<times> shm_heap)" where
  "drain_used n tf q i h =
     (if i = mq_end h q then Inr (i, h)
      else (case n of
              0 \<Rightarrow> Inl Out_Of_Fuel
            | Suc n \<Rightarrow>
                bnd (drop_slot tf q i h) (\<lambda>h.
                  let i = (i + 1) mod MESSAGE_BUFFER_SIZE in drain_used n tf q i h)))"

declare drain_used.simps [simp del]

definition gc_sender_queue ::
  "nat \<Rightarrow> (u64 \<Rightarrow> shm_heap \<Rightarrow> fault + shm_heap) \<Rightarrow> u64 \<Rightarrow> shm_heap \<Rightarrow> fault + shm_heap" where
  "gc_sender_queue fuel tf q h =
     bnd (drain_unused fuel tf q (mq_end h q) h) (\<lambda>(i, h).
     bnd (if mq_receiver_id h q = 0
          then bnd (drain_used fuel tf q i h) (\<lambda>(i, h). Inr h) else Inr h) (\<lambda>h.
       let h = set_mq_sender_id q 0 h
       in Inr (set_state ABANDON (cxl_ptr_segment q) h)))"

definition gc_receiver_queue ::
  "nat \<Rightarrow> (u64 \<Rightarrow> shm_heap \<Rightarrow> fault + shm_heap) \<Rightarrow> u64 \<Rightarrow> shm_heap \<Rightarrow> fault + shm_heap" where
  "gc_receiver_queue fuel tf q h =
     bnd (drain_used fuel tf q (mq_start h q) h) (\<lambda>(i, h). Inr (set_mq_receiver_id q 0 h))"


section \<open>Leaving in order\<close>

text \<open>
  The blocks of a page of root references; the client's own \<open>cxl_free\<close> gives up the page with
  its last block, and the loop must end then.
\<close>

fun gc_tbr_blocks :: "nat \<Rightarrow> nat \<Rightarrow> cxl_shm \<Rightarrow> u64 \<Rightarrow> u64 \<Rightarrow> u64 \<Rightarrow> shm_heap \<Rightarrow> fault + shm_heap" where
  "gc_tbr_blocks n fuel sh page block last_block h =
     (if block \<le> last_block
      then (case n of
              0 \<Rightarrow> Inl Out_Of_Fuel
            | Suc n \<Rightarrow>
                let nxt = block + ucast (pg_block_size (h_page h page))
                in if rr_in_use h block = 1
                   then bnd (test_free fuel sh block h) (\<lambda>h.
                        let h = set_rr_in_use block 0 h;
                            flag = (pg_used (h_page h page) = 1)
                        in bnd (cxl_free sh True block h) (\<lambda>h.
                             if flag then Inr h
                             else gc_tbr_blocks n fuel sh page nxt last_block h))
                   else gc_tbr_blocks n fuel sh page nxt last_block h)
      else Inr h)"

declare gc_tbr_blocks.simps [simp del]

text \<open>First and last block of a page, as three loops of this file compute them.\<close>

definition page_range :: "u64 \<Rightarrow> shm_heap \<Rightarrow> fault + (u64 \<times> u64)" where
  "page_range page h =
     (let bs = ucast (pg_block_size (h_page h page)) :: u64
      in if bs = 0 then Inl Div_By_Zero
         else let page_area = cxl_page_start (cxl_ptr_segment page) page
              in Inr (cxl_page_block_at page_area bs 0,
                      cxl_page_block_at page_area bs (PAGE_SIZE div bs - 1)))"

definition gc_tbr_page :: "nat \<Rightarrow> cxl_shm \<Rightarrow> u64 \<Rightarrow> shm_heap \<Rightarrow> fault + shm_heap" where
  "gc_tbr_page fuel sh page h =
     bnd (page_range page h) (\<lambda>(start_block, last_block).
       gc_tbr_blocks fuel fuel sh page start_block last_block h)"

definition gc_obj_page :: "nat \<Rightarrow> cxl_shm \<Rightarrow> u64 \<Rightarrow> shm_heap \<Rightarrow> fault + shm_heap" where
  "gc_obj_page fuel sh page h =
     bnd (cxl_thread_free_collect fuel page h) (\<lambda>h.
       if pg_used (h_page h page) = 0
       then bnd (cxl_page_queue False (ucast (pg_block_size (h_page h page)))) (\<lambda>pq.
              cxl_page_free sh page pq h)
       else Inr (set_state ABANDON (cxl_ptr_segment page) h))"

definition normal_garbage_collection :: "nat \<Rightarrow> cxl_shm \<Rightarrow> shm_heap \<Rightarrow> fault + shm_heap" where
  "normal_garbage_collection fuel sh h =
     bnd (cxl_page_queue True 16) (\<lambda>pq.
     bnd (walk fuel page_next_of (gc_tbr_page fuel sh) (pq_first (bin_queue sh pq h)) h) (\<lambda>h.
     bnd (walk fuel mq_sender_next (gc_sender_queue fuel (test_free fuel sh))
            (tls_sender_queue (h_tls h (shm_tls_offset sh))) h) (\<lambda>h.
     bnd (walk fuel mq_receiver_next (gc_receiver_queue fuel (test_free fuel sh))
            (tls_receiver_queue (h_tls h (shm_tls_offset sh))) h) (\<lambda>h.
     bnd (for_each [2..<CXL_BIN_SIZE] (\<lambda>i h.
            walk fuel page_next_of (gc_obj_page fuel sh) (pq_first (bin_queue sh i h)) h) h) (\<lambda>h.
       let h = upd_tls (shm_tls_offset sh) reset_tls h
       in Inr (upd_tls (shm_tls_offset sh) (\<lambda>t. t\<lparr>tls_packed_id := 0\<rparr>) h))))))"

end
