(* ===== verification/Recovery.thy ===== *)
theory Recovery
  imports Garbage_Collection
begin

text \<open>
  The monitor (\<open>src/recovery.cpp\<close>): after a client has crashed, the interrupted change of a
  reference is completed from the client's redo log and the era matrix
  (\<open>redo_ref_cnt\<close>), its references are dropped (\<open>recovery_garbage_collection\<close>), and
  segments without live blocks are taken back (\<open>single_recovery_loop\<close>).
\<close>

section \<open>Completing the interrupted change\<close>

definition tls_id_of :: "u64 \<Rightarrow> u32" where
  "tls_id_of offset = ucast ((offset - THREAD_LOCAL_VEC_START) div sizeof_tls + 1)"

text \<open>The monitor acts in the name of the client whose state is at \<open>offset\<close>.\<close>

definition acting_for :: "u64 \<Rightarrow> cxl_shm" where
  "acting_for offset = \<lparr>shm_size = 0, shm_tls_offset = offset, shm_thread_id = tls_id_of offset\<rparr>"

text \<open>The log with the highest era; of equal ones the first.\<close>

definition latest_redo :: "(u32 \<Rightarrow> redo_log) \<Rightarrow> redo_log" where
  "latest_redo redo =
     fold (\<lambda>i r. let redo_t = redo (of_nat i) in if cur_era redo_t > cur_era r then redo_t else r)
       [1..<REDO_CACHELINE_CNT] (redo 0)"

text \<open>
  The highest era of the client that any other client has seen. The loop runs over
  \<open>0 .. MAX_THREAD - 1\<close> although thread ids count from 1.
\<close>

definition max_seen_era :: "shm_heap \<Rightarrow> int \<Rightarrow> u32" where
  "max_seen_era h tls_id =
     fold (\<lambda>j m. if int j = tls_id then m
                 else if h_era h (era (int j) tls_id) > m then h_era h (era (int j) tls_id) else m)
       [0..<MAX_THREAD] 0"

definition need_redo :: "shm_heap \<Rightarrow> u32 \<Rightarrow> redo_log \<Rightarrow> bool" where
  "need_redo h tls_id redo =
     (let lo = obj_ref_info h (redo_refed redo);
          lo_cid = ucast (get_lcid_from_info lo) :: u32;
          lo_era = ucast (get_lenum_from_info lo) :: u32
      in if lo_cid = tls_id \<and> lo_era = cur_era redo then True
         else cur_era redo \<le> max_seen_era h (uint tls_id))"

definition redo_ref_cnt :: "u64 \<Rightarrow> shm_heap \<Rightarrow> shm_heap" where
  "redo_ref_cnt offset h =
     (let tls_id = tls_id_of offset;
          redo = latest_redo (tls_redo (h_tls h offset))
      in if func_id redo = redo_func_code LINK_REF
         then (if need_redo h tls_id redo then set_cell (redo_ref redo) (redo_refed redo) h else h)
         else if func_id redo = redo_func_code UNLINK_REF
         then
           let h = (if need_redo h tls_id redo then set_cell (redo_ref redo) 0 h else h)
           in if get_ref_cnt_from_info (ucast (saved_ref_cnt redo)) = 1
              then set_state POTENTIAL_LEAKING (cxl_ptr_segment (redo_refed redo)) h
              else h
         else h)"


section \<open>Dropping the client's references\<close>

definition recovery_cxl_free :: "bool \<Rightarrow> u64 \<Rightarrow> u64 \<Rightarrow> shm_heap \<Rightarrow> shm_heap" where
  "recovery_cxl_free special b offset h =
     (let tls_id = tls_id_of offset;
          segment = cxl_ptr_segment b;
          h = clear_block special b h
      in if ucast (seg_thread_id (h_seg h segment)) \<noteq> tls_id
         then
           let sas = sas_of_segment segment;
               info = sas_info (h_sas h sas);
               h = set_cell b (sf_thread_free info) h
           in upd_sas sas (\<lambda>s. s\<lparr>sas_info := \<lparr>sf_state = sf_state info, sf_thread_free = b\<rparr>\<rparr>) h
         else h)"

text \<open>As \<open>unlink_reference\<close>, but nothing is logged and the own era is read first.\<close>

definition recovery_unlink_reference :: "u64 \<Rightarrow> u64 \<Rightarrow> u64 \<Rightarrow> shm_heap \<Rightarrow> shm_heap" where
  "recovery_unlink_reference ref refed offset h =
     (let sh = acting_for offset;
          ref_info = obj_ref_info h refed;
          ref_info_cnt = ucast (get_ref_cnt_from_info ref_info) :: u16;
          e = h_era h (own_era sh);
          h = see_era sh ref_info h;
          new_ref_info = pack_ref_info (ucast (shm_thread_id sh)) (ucast ref_info_cnt - 1) e;
          h = set_cell (refed + 8) new_ref_info h;
          h = set_cell ref 0 h;
          h = bump_era sh h
      in if get_ref_cnt_from_info ref_info - 1 > 0 then h
         else recovery_cxl_free False refed offset h)"

fun recovery_test_free :: "nat \<Rightarrow> u64 \<Rightarrow> u64 \<Rightarrow> shm_heap \<Rightarrow> fault + shm_heap"
and recovery_test_free_embedded :: "nat \<Rightarrow> u64 \<Rightarrow> u64 \<Rightarrow> u64 \<Rightarrow> shm_heap \<Rightarrow> fault + shm_heap" where
  "recovery_test_free 0 ref offset h = Inl Out_Of_Fuel"
| "recovery_test_free (Suc n) ref offset h =
     (if h_cell h ref = 0 then Inr h
      else let refed = h_cell h ref;
               ref_cnt = get_ref_cnt_from_info (obj_ref_info h refed)
           in if ref_cnt = 0 then Inr h
              else if ref_cnt - 1 > 0
              then Inr (recovery_unlink_reference ref (h_cell h ref) offset h)
              else bnd (recovery_test_free_embedded n refed 0 offset h) (\<lambda>h.
                     Inr (recovery_unlink_reference ref (h_cell h ref) offset h)))"
| "recovery_test_free_embedded 0 refed i offset h = Inl Out_Of_Fuel"
| "recovery_test_free_embedded (Suc n) refed i offset h =
     (if i < obj_embedded h refed
      then bnd (recovery_test_free n (refed + (sizeof_CXLObj + i * 8)) offset h) (\<lambda>h.
             recovery_test_free_embedded n refed (i + 1) offset h)
      else Inr h)"

definition recovery_cxl_page_free :: "u64 \<Rightarrow> shm_heap \<Rightarrow> shm_heap" where
  "recovery_cxl_page_free page h = upd_page page (\<lambda>_. zero_page) h"

definition recovery_cxl_segment_free :: "u64 \<Rightarrow> u64 \<Rightarrow> shm_heap \<Rightarrow> fault + shm_heap" where
  "recovery_cxl_segment_free segment offset h =
     release_segment (tls_id_of offset) (sas_of_segment segment) (memset_segment segment h)"

text \<open>
  A root reference in use is dropped unless it points nowhere, at the first free block of
  the object's page (the allocation had not taken the block yet) or into its own page.
\<close>

fun recovery_tbr_blocks ::
  "nat \<Rightarrow> nat \<Rightarrow> u64 \<Rightarrow> u64 \<Rightarrow> u64 \<Rightarrow> u64 \<Rightarrow> u64 \<Rightarrow> shm_heap \<Rightarrow> fault + shm_heap" where
  "recovery_tbr_blocks n fuel offset page start_block last_block block h =
     (if block \<le> last_block
      then (case n of
              0 \<Rightarrow> Inl Out_Of_Fuel
            | Suc n \<Rightarrow>
                let nxt = block + ucast (pg_block_size (h_page h page)) in
                bnd (if rr_in_use h block = 1
                     then
                       let refed = rr_pptr h block in
                       bnd (if refed \<noteq> 0 \<and> refed \<noteq> pg_free (h_page h (cxl_ptr_page refed))
                               \<and> \<not> (start_block \<le> refed \<and> refed \<le> last_block)
                            then recovery_test_free fuel block offset h else Inr h) (\<lambda>h.
                         let h = set_rr_in_use block 0 h
                         in Inr (recovery_cxl_free True block offset h))
                     else Inr h) (\<lambda>h.
                recovery_tbr_blocks n fuel offset page start_block last_block nxt h))
      else Inr h)"

declare recovery_tbr_blocks.simps [simp del]

definition recovery_tbr_page :: "nat \<Rightarrow> u64 \<Rightarrow> u64 \<Rightarrow> shm_heap \<Rightarrow> fault + shm_heap" where
  "recovery_tbr_page fuel offset page h =
     bnd (page_range page h) (\<lambda>(start_block, last_block).
     bnd (recovery_tbr_blocks fuel fuel offset page start_block last_block start_block h) (\<lambda>h.
       Inr (recovery_cxl_page_free page h)))"

text \<open>Does the page hold an object with a positive count? The loop stops at the first.\<close>

fun live_block :: "nat \<Rightarrow> u64 \<Rightarrow> u64 \<Rightarrow> u64 \<Rightarrow> shm_heap \<Rightarrow> fault + bool" where
  "live_block n bs block last_block h =
     (if block \<le> last_block
      then (case n of
              0 \<Rightarrow> Inl Out_Of_Fuel
            | Suc n \<Rightarrow>
                if get_ref_cnt_from_info (obj_ref_info h block) > 0 then Inr True
                else live_block n bs (block + bs) last_block h)
      else Inr False)"

declare live_block.simps [simp del]

definition recovery_obj_page :: "nat \<Rightarrow> u64 \<Rightarrow> shm_heap \<Rightarrow> fault + shm_heap" where
  "recovery_obj_page fuel page h =
     (let h = (case get_block_by_offset (pg_free (h_page h page)) of
                 None \<Rightarrow> h | Some page_free \<Rightarrow> set_cell (page_free + 8) 0 h)
      in bnd (page_range page h) (\<lambda>(start_block, last_block).
         bnd (live_block fuel (ucast (pg_block_size (h_page h page))) start_block last_block h) (\<lambda>live.
           if \<not> live then Inr (recovery_cxl_page_free page h)
           else Inr (set_state ABANDON (cxl_ptr_segment page) h))))"

text \<open>The last loop of the code retries until the id it was given can be swapped out.\<close>

definition recovery_garbage_collection ::
  "nat \<Rightarrow> u64 \<Rightarrow> u64 \<Rightarrow> shm_heap \<Rightarrow> fault + shm_heap" where
  "recovery_garbage_collection fuel offset packed_machine_process_id h =
     (let sh = acting_for offset; tls_id = tls_id_of offset in
     bnd (cxl_page_queue True 16) (\<lambda>pq.
     bnd (walk fuel page_next_of (recovery_tbr_page fuel offset) (pq_first (bin_queue sh pq h)) h) (\<lambda>h.
     bnd (walk fuel mq_sender_next
            (gc_sender_queue fuel (\<lambda>ref. recovery_test_free fuel ref offset))
            (tls_sender_queue (h_tls h offset)) h) (\<lambda>h.
     bnd (walk fuel mq_receiver_next
            (gc_receiver_queue fuel (\<lambda>ref. recovery_test_free fuel ref offset))
            (tls_receiver_queue (h_tls h offset)) h) (\<lambda>h.
     bnd (for_each [2..<CXL_BIN_SIZE] (\<lambda>i h.
            walk fuel page_next_of (recovery_obj_page fuel) (pq_first (bin_queue sh i h)) h) h) (\<lambda>h.
     bnd (for_each [0..<MAX_SEGMENT_NUM] (\<lambda>i h.
            if sas_thread_id (h_sas h (sas_at i)) = tls_id
               \<and> sf_state (sas_info (h_sas h (sas_at i))) \<noteq> segment_state_code ABANDON
            then recovery_cxl_segment_free (seg_at i) offset h else Inr h) h) (\<lambda>h.
       let h = upd_tls offset reset_tls h
       in if tls_packed_id (h_tls h offset) = packed_machine_process_id
          then Inr (upd_tls offset (\<lambda>t. t\<lparr>tls_packed_id := 0\<rparr>) h)
          else Inl Out_Of_Fuel)))))))"


section \<open>Taking back segments\<close>

text \<open>
  The scan of one page: whether a live block was found (the scan stops there); message
  queues nobody uses any more are cleared on the way.
\<close>

fun scan_blocks :: "nat \<Rightarrow> u64 \<Rightarrow> u64 \<Rightarrow> u64 \<Rightarrow> shm_heap \<Rightarrow> fault + (bool \<times> shm_heap)" where
  "scan_blocks n page block last_block h =
     (if block \<le> last_block
      then (case n of
              0 \<Rightarrow> Inl Out_Of_Fuel
            | Suc n \<Rightarrow>
                let nxt = block + ucast (pg_block_size (h_page h page))
                in if \<not> pg_is_msg_queue_page (h_page h page)
                   then (if get_ref_cnt_from_info (obj_ref_info h block) > 0 then Inr (True, h)
                         else scan_blocks n page nxt last_block h)
                   else (if mq_receiver_id h block \<noteq> 0 \<or> mq_sender_id h block \<noteq> 0 then Inr (True, h)
                         else scan_blocks n page nxt last_block (memset_cells 24 block h)))
      else Inr (False, h))"

declare scan_blocks.simps [simp del]

fun scan_pages :: "nat \<Rightarrow> u64 \<Rightarrow> nat list \<Rightarrow> shm_heap \<Rightarrow> fault + (bool \<times> shm_heap)" where
  "scan_pages fuel segment [] h = Inr (False, h)"
| "scan_pages fuel segment (j # js) h =
     (let page = meta_at segment j
      in if pg_block_size (h_page h page) = 0 then scan_pages fuel segment js h
         else bnd (page_range page h) (\<lambda>(start_block, last_block).
              bnd (scan_blocks fuel page start_block last_block h) (\<lambda>(live, h).
                if live then Inr (True, h)
                else scan_pages fuel segment js (upd_page page (\<lambda>_. zero_page) h))))"

definition scan_segment :: "nat \<Rightarrow> nat \<Rightarrow> shm_heap \<Rightarrow> fault + shm_heap" where
  "scan_segment fuel i h =
     (if sas_thread_id (h_sas h (sas_at i)) = 0 then Inr h
      else bnd (scan_pages fuel (seg_at i) [0..<PAGES_PER_SEGMENT] h) (\<lambda>(live, h).
             if live then Inr h
             else
               let h = memset_segment (seg_at i) h;
                   h = upd_sas (sas_at i) (\<lambda>s. s\<lparr>sas_info :=
                         \<lparr>sf_state = segment_state_code NORMAL, sf_thread_free = 0\<rparr>\<rparr>) h
               in Inr (upd_sas (sas_at i) (\<lambda>s. s\<lparr>sas_thread_id := 0\<rparr>) h)))"

definition check_tls :: "u64 \<Rightarrow> bool" where "check_tls id' \<longleftrightarrow> id' \<noteq> 0"

definition single_recovery_loop :: "nat \<Rightarrow> shm_heap \<Rightarrow> fault + shm_heap" where
  "single_recovery_loop fuel h =
     bnd (for_each [0..<MAX_THREAD] (\<lambda>i h.
            let offset = tls_at i; id' = tls_packed_id (h_tls h offset)
            in if check_tls id'
               then recovery_garbage_collection fuel offset id' (redo_ref_cnt offset h)
               else Inr h) h)
         (for_each [0..<MAX_SEGMENT_NUM] (scan_segment fuel))"

text \<open>\<open>recovery_loop\<close> repeats this forever; \<open>k\<close> rounds of it.\<close>

definition recovery_loop :: "nat \<Rightarrow> nat \<Rightarrow> shm_heap \<Rightarrow> fault + shm_heap" where
  "recovery_loop k fuel h = for_each [0..<k] (\<lambda>_. single_recovery_loop fuel) h"

definition check_recovery :: "shm_heap \<Rightarrow> bool" where
  "check_recovery h \<longleftrightarrow>
     list_all (\<lambda>i. tls_packed_id (h_tls h (tls_at i)) = 0) [0..<MAX_THREAD]
     \<and> list_all (\<lambda>i. sas_thread_id (h_sas h (sas_at i)) = 0) [0..<MAX_SEGMENT_NUM]"

end
