(* ===== verification/Era_Protocol.thy ===== *)
theory Era_Protocol
  imports Recovery
begin

text \<open>
  The reference counting protocol with any number of clients at once. A client changes a
  reference in three steps, each the part of \<open>link_reference\<close> or \<open>unlink_reference\<close> between
  two points where others can come in (\<open>prepare\<close>: the read of the word, the matrix and the log; the
  swap; \<open>finish\<close>: the store, the advance of the era and the free), each of them one atomic step; the
  swap may fail and is retried. Clients also allocate objects and clear their logs. A crash is a client that
  takes no more steps, so every reachable state is one a crash can leave behind. The
  invariant ties the era matrix, the objects' words and the redo logs together; it yields
  that \<open>redo_ref_cnt\<close> decides exactly whether the interrupted swap took effect.

  Thread ids run from 1 to 1023: the monitor's loop over the matrix misses id 1024.
\<close>

section \<open>Clients and their eras\<close>

definition client :: "nat \<Rightarrow> cxl_shm" where
  "client i = \<lparr>shm_size = 0, shm_tls_offset = tls_at (i - 1), shm_thread_id = of_nat i\<rparr>"

definition clients :: "nat set" where "clients = {1..<MAX_THREAD}"

definition seen :: "shm_heap \<Rightarrow> nat \<Rightarrow> nat \<Rightarrow> u32" where
  "seen h i c = h_era h (era (int i) (int c))"

abbreviation own :: "shm_heap \<Rightarrow> nat \<Rightarrow> u32" where "own h c \<equiv> seen h c c"

definition info_cid :: "u64 \<Rightarrow> nat" where "info_cid w = unat (get_lcid_from_info w)"
definition info_era :: "u64 \<Rightarrow> u32" where "info_era w = ucast (get_lenum_from_info w)"
definition info_cnt :: "u64 \<Rightarrow> u64" where "info_cnt w = get_ref_cnt_from_info w"

lemma clientsD: "i \<in> clients \<Longrightarrow> 1 \<le> i \<and> i < 1024"
  by (simp add: clients_def layout)

lemma unat_u32: "i < 2 ^ 32 \<Longrightarrow> unat (of_nat i :: u32) = i"
  by (simp add: unsigned_of_nat take_bit_nat_eq_self)

lemma uint_u32: "i < 2 ^ 32 \<Longrightarrow> uint (of_nat i :: u32) = int i"
  by (simp add: uint_nat unat_u32)

lemma client_id [simp]:
  assumes "i \<in> clients"
  shows "uint (shm_thread_id (client i)) = int i" "own_era (client i) = era (int i) (int i)"
    "unat (ucast (shm_thread_id (client i)) :: u64) = i"
    "shm_tls_offset (client i) = tls_at (i - 1)"
  using clientsD [OF assms] by (simp_all add: client_def own_era_def uint_u32 unat_u32)

lemma era_inj:
  assumes "1 \<le> c" "c \<le> 1024" "1 \<le> c'" "c' \<le> 1024"
  shows "era (int i) (int c) = era (int i') (int c') \<longleftrightarrow> i = i' \<and> c = c'"
proof
  assume "era (int i) (int c) = era (int i') (int c')"
  then have e: "int i * 1024 + int c = int i' * 1024 + int c'"
    by (simp add: era_def layout)
  have "i = i'" using e assms by linarith
  with e show "i = i' \<and> c = c'" by simp
qed simp

lemma client_tls_inj:
  assumes "i \<in> clients" "j \<in> clients"
  shows "tls_at (i - 1) = tls_at (j - 1) \<longleftrightarrow> i = j"
proof -
  have "i - 1 < MAX_THREAD" "j - 1 < MAX_THREAD" "1 \<le> i" "1 \<le> j"
    using assms by (auto simp: clients_def)
  then show ?thesis using tls_at_inj [of "i - 1" "j - 1"] by auto
qed

lemma seen_set_era:
  assumes "1 \<le> c" "c \<le> 1024" "1 \<le> c'" "c' \<le> 1024"
  shows "seen (set_era (era (int i') (int c')) v h) i c = (if i = i' \<and> c = c' then v else seen h i c)"
  using era_inj [OF assms] by (simp add: seen_def)

lemma seen_cong: "h_era h = h_era h' \<Longrightarrow> seen h = seen h'"
  by (simp add: seen_def fun_eq_iff)

text \<open>The words the operations write and read.\<close>

lemma info_pack:
  assumes "i \<in> clients" and "unat n < 2 ^ 16"
  shows "info_cid (pack_ref_info (ucast (shm_thread_id (client i))) n e) = i"
    and "info_cnt (pack_ref_info (ucast (shm_thread_id (client i))) n e) = n"
    and "info_era (pack_ref_info (ucast (shm_thread_id (client i))) n e) = e"
proof -
  have "unat (ucast (shm_thread_id (client i)) :: u64) < 2 ^ 16"
    using client_id(3) [OF assms(1)] clientsD [OF assms(1)] by simp
  note f = pack_fields [OF this assms(2), of e]
  show "info_cid (pack_ref_info (ucast (shm_thread_id (client i))) n e) = i"
    using client_id(3) [OF assms(1)] by (simp add: info_cid_def f)
  show "info_cnt (pack_ref_info (ucast (shm_thread_id (client i))) n e) = n"
    by (simp add: info_cnt_def f)
  show "info_era (pack_ref_info (ucast (shm_thread_id (client i))) n e) = e"
    unfolding info_era_def f by (rule bit_word_eqI) (simp add: bit_simps)
qed

lemma info_zero [simp]: "info_cnt 0 = 0" "info_cid 0 = 0" "info_era 0 = 0"
  by (simp_all add: info_cnt_def info_cid_def info_era_def get_ref_cnt_alt get_lcid_alt get_lenum_alt)

lemma info_cid_bound: "info_cid w < 2 ^ 16"
  using unat_bound [of w] by (simp add: info_cid_def unat_fields less_mult_imp_div_less)

lemma info_cnt_bound: "unat (info_cnt w) < 2 ^ 16"
  by (simp add: info_cnt_def unat_fields)

lemma cnt_cast: "ucast (ucast (info_cnt w) :: u16) = (info_cnt w :: u64)"
  using info_cnt_bound [of w]
  by (simp only: word_unat_eq_iff unat_ucast_u16)
     (simp add: unsigned_ucast_eq take_bit_nat_eq_self)

lemma lcid_cast: "uint (ucast (get_lcid_from_info w) :: u32) = int (info_cid w)"
proof -
  have "unat (ucast (get_lcid_from_info w) :: u32) = info_cid w"
    using info_cid_bound [of w] by (simp add: info_cid_def unsigned_ucast_eq take_bit_nat_eq_self)
  then show ?thesis by (simp add: uint_nat)
qed

lemma lcid_eq_iff:
  assumes "i \<in> clients"
  shows "(ucast (get_lcid_from_info w) :: u32) = of_nat i \<longleftrightarrow> info_cid w = i"
  using lcid_cast [of w] uint_u32 [of i] clientsD [OF assms] by (auto simp: word_uint_eq_iff)

lemma seen_see_era:
  assumes "i \<in> clients" "info_cid w \<in> clients" "1 \<le> c" "c \<le> 1024"
  shows "seen (see_era (client i) w h) j c =
    (if j = i \<and> c = info_cid w \<and> info_era w > seen h i c then info_era w else seen h j c)"
proof -
  have w: "1 \<le> info_cid w" "info_cid w \<le> 1024" using clientsD [OF assms(2)] by simp_all
  show ?thesis
    unfolding see_era_def Let_def lcid_cast client_id(1) [OF assms(1)]
    using seen_set_era [OF assms(3,4) w, where i' = i and i = j]
    by (auto simp: info_era_def seen_def)
qed


section \<open>The protocol\<close>

datatype ref_op = Link_op | Unlink_op

datatype phase =
    Idle
  | Logged ref_op u64 u64 u64 u64
  | Retry ref_op u64 u64
  | Swapped ref_op u64 u64 u64

record proto =
  p_heap :: shm_heap
  p_phase :: "nat \<Rightarrow> phase"

definition op_code :: "ref_op \<Rightarrow> u16" where
  "op_code k = redo_func_code (case k of Link_op \<Rightarrow> LINK_REF | Unlink_op \<Rightarrow> UNLINK_REF)"

definition prepare :: "ref_op \<Rightarrow> cxl_shm \<Rightarrow> u64 \<Rightarrow> u64 \<Rightarrow> shm_heap \<Rightarrow> u64 \<times> u64 \<times> shm_heap" where
  "prepare k = (case k of Link_op \<Rightarrow> link_prepare | Unlink_op \<Rightarrow> unlink_prepare)"

definition finish :: "ref_op \<Rightarrow> cxl_shm \<Rightarrow> u64 \<Rightarrow> u64 \<Rightarrow> u64 \<Rightarrow> shm_heap \<Rightarrow> fault + shm_heap" where
  "finish k sh ref refed old h =
     (case k of Link_op \<Rightarrow> Inr (link_finish sh ref refed h)
              | Unlink_op \<Rightarrow> unlink_finish sh ref refed old h)"

abbreviation enter :: "nat \<Rightarrow> phase \<Rightarrow> shm_heap \<Rightarrow> proto \<Rightarrow> proto" where
  "enter i ph h s \<equiv> s\<lparr>p_heap := h, p_phase := (p_phase s)(i := ph)\<rparr>"

definition countable_op :: "ref_op \<Rightarrow> u64 \<Rightarrow> bool" where
  "countable_op k w \<longleftrightarrow> 0 < info_cnt w \<and> (k = Link_op \<longrightarrow> info_cnt w < 65535)"

text \<open>What a step does to the counts, as its client sees it.\<close>

datatype count_event = Allocated u64 | Changed ref_op u64 | Internal

inductive act :: "u64 set \<Rightarrow> u64 set \<Rightarrow> count_event \<Rightarrow> proto \<Rightarrow> proto \<Rightarrow> bool" for Objs Refs where
  prepare_act: "\<lbrakk> i \<in> clients; p_phase s i = Idle \<or> p_phase s i = Retry k ref o'; o' \<in> Objs; ref \<in> Refs;
      countable_op k (obj_ref_info (p_heap s) o');
      prepare k (client i) ref o' (p_heap s) = (old, new, h) \<rbrakk>
    \<Longrightarrow> act Objs Refs Internal s (enter i (Logged k ref o' old new) h s)"
| swap_act: "\<lbrakk> i \<in> clients; p_phase s i = Logged k ref o' old new; cas_ref_info o' old new (p_heap s) = Some h \<rbrakk>
    \<Longrightarrow> act Objs Refs (Changed k o') s (enter i (Swapped k ref o' old) h s)"
| fail_act: "\<lbrakk> i \<in> clients; p_phase s i = Logged k ref o' old new \<rbrakk>
    \<Longrightarrow> act Objs Refs Internal s (enter i (Retry k ref o') (p_heap s) s)"
| finish_act: "\<lbrakk> i \<in> clients; p_phase s i = Swapped k ref o' old; own (p_heap s) i \<noteq> - 1;
      finish k (client i) ref o' old (p_heap s) = Inr h \<rbrakk>
    \<Longrightarrow> act Objs Refs Internal s (enter i Idle h s)"
| alloc_act: "\<lbrakk> i \<in> clients; p_phase s i = Idle; o' \<in> Objs; obj_ref_info (p_heap s) o' = 0; own (p_heap s) i \<noteq> - 1 \<rbrakk>
    \<Longrightarrow> act Objs Refs (Allocated o') s (enter i Idle (block_to_cxlobj (client i) o' page emb (p_heap s)) s)"
| clear_act: "\<lbrakk> i \<in> clients; p_phase s i = Idle \<rbrakk>
    \<Longrightarrow> act Objs Refs Internal s (enter i Idle (clear_redo (client i) (p_heap s)) s)"

definition step :: "u64 set \<Rightarrow> u64 set \<Rightarrow> proto \<Rightarrow> proto \<Rightarrow> bool" where
  "step Objs Refs s s' \<longleftrightarrow> (\<exists>e. act Objs Refs e s s')"

lemma prepare_step: "\<lbrakk> i \<in> clients; p_phase s i = Idle \<or> p_phase s i = Retry k ref o'; o' \<in> Objs; ref \<in> Refs;
      countable_op k (obj_ref_info (p_heap s) o');
      prepare k (client i) ref o' (p_heap s) = (old, new, h) \<rbrakk>
    \<Longrightarrow> step Objs Refs s (enter i (Logged k ref o' old new) h s)"
  unfolding step_def by (blast intro: act.intros)

lemma swap_step: "\<lbrakk> i \<in> clients; p_phase s i = Logged k ref o' old new; cas_ref_info o' old new (p_heap s) = Some h \<rbrakk>
    \<Longrightarrow> step Objs Refs s (enter i (Swapped k ref o' old) h s)"
  unfolding step_def by (blast intro: act.intros)

lemma fail_step: "\<lbrakk> i \<in> clients; p_phase s i = Logged k ref o' old new \<rbrakk>
    \<Longrightarrow> step Objs Refs s (enter i (Retry k ref o') (p_heap s) s)"
  unfolding step_def by (blast intro: act.intros)

lemma finish_step: "\<lbrakk> i \<in> clients; p_phase s i = Swapped k ref o' old; own (p_heap s) i \<noteq> - 1;
      finish k (client i) ref o' old (p_heap s) = Inr h \<rbrakk>
    \<Longrightarrow> step Objs Refs s (enter i Idle h s)"
  unfolding step_def by (blast intro: act.intros)

lemma alloc_step: "\<lbrakk> i \<in> clients; p_phase s i = Idle; o' \<in> Objs; obj_ref_info (p_heap s) o' = 0; own (p_heap s) i \<noteq> - 1 \<rbrakk>
    \<Longrightarrow> step Objs Refs s (enter i Idle (block_to_cxlobj (client i) o' page emb (p_heap s)) s)"
  unfolding step_def by (blast intro: act.intros)

definition separate :: "u64 set \<Rightarrow> u64 set \<Rightarrow> bool" where
  "separate Objs Refs \<longleftrightarrow> (\<forall>o1\<in>Objs. \<forall>o2\<in>Objs. o1 + 8 \<noteq> o2 \<and> o1 + 8 \<noteq> o2 + 16) \<and> (\<forall>o1\<in>Objs. \<forall>r\<in>Refs. o1 + 8 \<noteq> r)"

section \<open>The invariant\<close>

abbreviation swapped_on :: "phase \<Rightarrow> u64 \<Rightarrow> bool" where
  "swapped_on ph o' \<equiv> \<exists>k ref old. ph = Swapped k ref o' old"
abbreviation swapped :: "phase \<Rightarrow> bool" where "swapped ph \<equiv> \<exists>o'. swapped_on ph o'"

definition word_of :: "ref_op \<Rightarrow> nat \<Rightarrow> u64 \<Rightarrow> u32 \<Rightarrow> u64" where
  "word_of k i old e = pack_ref_info (ucast (shm_thread_id (client i)))
     (case k of Link_op \<Rightarrow> info_cnt old + 1 | Unlink_op \<Rightarrow> info_cnt old - 1) e"

definition evidence :: "shm_heap \<Rightarrow> nat \<Rightarrow> u64 \<Rightarrow> bool" where
  "evidence h c o' \<longleftrightarrow>
     info_cid (obj_ref_info h o') = c \<and> info_era (obj_ref_info h o') = own h c
     \<or> (\<exists>j\<in>clients. j \<noteq> c \<and> seen h j c = own h c)"

definition eras_ok :: "proto \<Rightarrow> bool" where
  "eras_ok s \<longleftrightarrow> (\<forall>c\<in>clients. seen (p_heap s) 0 c = 0 \<and> own (p_heap s) c \<noteq> 0
     \<and> (\<forall>j\<in>clients. j \<noteq> c \<longrightarrow> seen (p_heap s) j c \<le> own (p_heap s) c
          \<and> (seen (p_heap s) j c = own (p_heap s) c \<longrightarrow> swapped (p_phase s c))))"

definition objs_ok :: "u64 set \<Rightarrow> proto \<Rightarrow> bool" where
  "objs_ok Objs s \<longleftrightarrow> (\<forall>o'\<in>Objs. let w = obj_ref_info (p_heap s) o' in w = 0 \<or>
     info_cid w \<in> clients \<and> info_era w \<le> own (p_heap s) (info_cid w)
     \<and> (info_era w = own (p_heap s) (info_cid w) \<longrightarrow> swapped_on (p_phase s (info_cid w)) o'))"

definition phase_ok :: "u64 set \<Rightarrow> u64 set \<Rightarrow> shm_heap \<Rightarrow> nat \<Rightarrow> phase \<Rightarrow> bool" where
  "phase_ok Objs Refs h c ph = (case ph of
     Idle \<Rightarrow> True
   | Logged k ref o' old new \<Rightarrow> o' \<in> Objs \<and> ref \<in> Refs \<and> countable_op k old
       \<and> info_cid old \<in> clients \<and> info_era old \<le> seen h c (info_cid old)
       \<and> new = word_of k c old (own h c)
   | Retry k ref o' \<Rightarrow> o' \<in> Objs \<and> ref \<in> Refs
   | Swapped k ref o' old \<Rightarrow> o' \<in> Objs \<and> ref \<in> Refs \<and> countable_op k old \<and> evidence h c o'
       \<and> (k = Unlink_op \<and> info_cnt old = 1 \<longrightarrow> info_cnt (obj_ref_info h o') = 0
            \<and> info_cid (obj_ref_info h o') = c))"

definition log_of :: "phase \<Rightarrow> (ref_op \<times> u64 \<times> u64) option" where
  "log_of ph = (case ph of Idle \<Rightarrow> None | Logged k ref o' old new \<Rightarrow> Some (k, ref, o')
     | Retry k ref o' \<Rightarrow> Some (k, ref, o') | Swapped k ref o' old \<Rightarrow> Some (k, ref, o'))"

definition redo_ok :: "(u32 \<Rightarrow> redo_log) \<Rightarrow> u32 \<Rightarrow> phase \<Rightarrow> bool" where
  "redo_ok redo e ph \<longleftrightarrow>
     (\<forall>k. redo k = zero_redo \<or> redo_slot (cur_era (redo k)) = k \<and> cur_era (redo k) \<le> e)
     \<and> (case log_of ph of
          None \<Rightarrow> \<forall>k. cur_era (redo k) < e
        | Some (k, ref, o') \<Rightarrow> let r = redo (redo_slot e) in func_id r = op_code k
            \<and> cur_era r = e \<and> redo_ref r = ref \<and> redo_refed r = o')"

definition inv :: "u64 set \<Rightarrow> u64 set \<Rightarrow> proto \<Rightarrow> bool" where
  "inv Objs Refs s \<longleftrightarrow> eras_ok s \<and> objs_ok Objs s
     \<and> (\<forall>c\<in>clients. phase_ok Objs Refs (p_heap s) c (p_phase s c)
          \<and> redo_ok (tls_redo (h_tls (p_heap s) (tls_at (c - 1)))) (own (p_heap s) c) (p_phase s c))"


section \<open>One step at a time\<close>

definition entry_of :: "ref_op \<Rightarrow> u64 \<Rightarrow> u64 \<Rightarrow> u64 \<Rightarrow> u32 \<Rightarrow> redo_log" where
  "entry_of k ref o' w e = \<lparr>func_id = op_code k, saved_ref_cnt = ucast (info_cnt w), cur_era = e,
     redo_ref = ref, redo_refed = o', old_refed = 0\<rparr>"

lemma clients_le: "c \<in> clients \<Longrightarrow> 1 \<le> c \<and> c \<le> 1024"
  using clientsD by fastforce

lemma prepare_spec:
  assumes i: "i \<in> clients" and w: "w = obj_ref_info h o'" "info_cid w \<in> clients"
    and le: "info_cid w = i \<longrightarrow> info_era w \<le> own h i"
    and p: "prepare k (client i) ref o' h = (old, new, h')"
  shows "old = w" and "new = word_of k i w (own h i)" and "h_cell h' = h_cell h"
    and "c \<in> clients \<Longrightarrow> seen h' j c = (if j = i \<and> c = info_cid w \<and> info_era w > seen h i c
           then info_era w else seen h j c)"
    and "tls_redo (h_tls h' a) = (if a = tls_at (i - 1)
           then (tls_redo (h_tls h a))(redo_slot (own h i) := entry_of k ref o' w (own h i))
           else tls_redo (h_tls h a))"
proof -
  have e: "h_era (see_era (client i) w h) (era (int i) (int i)) = own h i"
    using seen_see_era [OF i w(2), of i h i] clients_le [OF i] le
    by (cases "info_cid w = i") (auto simp: seen_def not_less [symmetric])
  show "old = w" "h_cell h' = h_cell h"
    using p w(1) by (cases k; auto simp: prepare_def link_prepare_def unlink_prepare_def Let_def)+
  show "new = word_of k i w (own h i)"
    using p e cnt_cast [of w] i
    by (cases k; auto simp: prepare_def link_prepare_def unlink_prepare_def Let_def word_of_def
        info_cnt_def seen_def simp flip: w(1))
  have era: "h_era h' = h_era (see_era (client i) w h)"
    using p by (cases k; auto simp: prepare_def link_prepare_def unlink_prepare_def Let_def w(1))
  show "seen h' j c = (if j = i \<and> c = info_cid w \<and> info_era w > seen h i c
           then info_era w else seen h j c)" if "c \<in> clients"
    using seen_see_era [OF i w(2)] clients_le [OF that] by (simp add: seen_cong [OF era])
  show "tls_redo (h_tls h' a) = (if a = tls_at (i - 1)
           then (tls_redo (h_tls h a))(redo_slot (own h i) := entry_of k ref o' w (own h i))
           else tls_redo (h_tls h a))"
    using p e i by (cases k; auto simp: prepare_def link_prepare_def unlink_prepare_def Let_def
        write_redo_def entry_of_def op_code_def info_cnt_def seen_def simp flip: w(1))
qed

text \<open>Leaving an object's word and the own column of the era matrix alone.\<close>

lemma evidence_mono:
  assumes "evidence h c o'" and "own h' c = own h c" and "\<And>j. j \<in> clients \<Longrightarrow> j \<noteq> c \<Longrightarrow> seen h j c \<le> seen h' j c"
    and "\<And>j. j \<in> clients \<Longrightarrow> j \<noteq> c \<Longrightarrow> seen h' j c \<le> own h c"
    and "obj_ref_info h' o' = obj_ref_info h o'"
  shows "evidence h' c o'"
  using assms unfolding evidence_def by (metis order_antisym)

lemma objs_okD:
  assumes "objs_ok Objs s" "o' \<in> Objs" "obj_ref_info (p_heap s) o' = w" "w \<noteq> 0"
  shows "info_cid w \<in> clients" "info_era w \<le> own (p_heap s) (info_cid w)"
    "info_era w = own (p_heap s) (info_cid w) \<Longrightarrow> swapped_on (p_phase s (info_cid w)) o'"
  using assms by (auto simp: objs_ok_def Let_def)

lemma countable_nonzero: "countable_op k w \<Longrightarrow> w \<noteq> 0"
  by (auto simp: countable_op_def)

lemma redo_ok_write:
  assumes "redo_ok redo e ph" and "log_of ph' = Some (k, ref, o')"
  shows "redo_ok (redo(redo_slot e := entry_of k ref o' w e)) e ph'"
  using assms by (auto simp: redo_ok_def entry_of_def Let_def)

lemma redo_ok_same_log: "redo_ok redo e ph \<Longrightarrow> log_of ph' = log_of ph \<Longrightarrow> redo_ok redo e ph'"
  by (simp add: redo_ok_def)

lemma redo_ok_next:
  assumes "redo_ok redo e ph" and "e < e'"
  shows "redo_ok redo e' Idle"
proof -
  have "cur_era (redo k) \<le> e" for k
    using assms(1) by (auto simp: redo_ok_def zero_redo_def dest!: spec [of _ k])
  then show ?thesis
    using assms by (auto simp: redo_ok_def log_of_def intro: order.strict_trans1 less_imp_le)
qed

lemma inv_prepare:
  assumes inv: "inv Objs Refs s" and i: "i \<in> clients"
    and ph: "p_phase s i = Idle \<or> p_phase s i = Retry k ref o'" and "o' \<in> Objs" "ref \<in> Refs"
    and cnt: "countable_op k (obj_ref_info (p_heap s) o')"
    and p: "prepare k (client i) ref o' (p_heap s) = (old, new, h)"
  shows "inv Objs Refs (enter i (Logged k ref o' old new) h s)"
proof -
  define w where "w = obj_ref_info (p_heap s) o'"
  note I = inv [unfolded inv_def]
  note O = objs_okD [OF conjunct1 [OF conjunct2 [OF I]] \<open>o' \<in> Objs\<close> w_def [symmetric]
    countable_nonzero [OF cnt [folded w_def]]]
  have ns: "\<not> swapped (p_phase s i)" using ph by auto
  have lt: "info_era w < own (p_heap s) i" if "info_cid w = i"
    using O(2,3) that ns by (fastforce simp: order_less_le)
  have le: "info_cid w = i \<longrightarrow> info_era w \<le> own (p_heap s) i" using lt by (simp add: less_imp_le)
  note P = prepare_spec [OF i w_def O(1) le p]
  have own: "own h c = own (p_heap s) c" if "c \<in> clients" for c
    using P(4) [OF that, of c] le lt by auto
  have info: "obj_ref_info h a = obj_ref_info (p_heap s) a" for a
    using P(3) by (simp add: obj_ref_info_def)
  have mono: "seen (p_heap s) j c \<le> seen h j c" if "c \<in> clients" for j c
    using P(4) [OF that, of j] by (auto intro: less_imp_le)
  have bound: "seen h j c \<le> own (p_heap s) c" if "j \<in> clients" "c \<in> clients" "j \<noteq> c" for j c
    using P(4) [OF that(2), of j] O(2) I that by (auto simp: eras_ok_def)
  have swp: "swapped (p_phase s c)" if "seen h j c = own (p_heap s) c" "j \<in> clients" "c \<in> clients" "j \<noteq> c" for j c
    using P(4) [OF that(3), of j] O(3) I that by (auto simp: eras_ok_def split: if_splits)
  have zero: "seen h 0 c = 0" if "c \<in> clients" for c
    using P(4) [OF that, of 0] clientsD [OF i] I that by (auto simp: eras_ok_def)
  have sp: "swapped_on (p_phase (enter i (Logged k ref o' old new) h s) c) a \<longleftrightarrow> swapped_on (p_phase s c) a" for c a
    using ns by auto
  have "eras_ok (enter i (Logged k ref o' old new) h s)"
    unfolding eras_ok_def sp using I own zero bound swp by (auto simp: eras_ok_def)
  moreover have "objs_ok Objs (enter i (Logged k ref o' old new) h s)"
    unfolding objs_ok_def sp using I by (auto simp: objs_ok_def Let_def info own)
  moreover have "phase_ok Objs Refs h c (p_phase (enter i (Logged k ref o' old new) h s) c)" if c: "c \<in> clients" for c
  proof (cases "c = i")
    case True
    have "info_era w \<le> seen h i (info_cid w)" using P(4) [OF O(1), of i] by auto
    with True show ?thesis
      using assms(4,5) cnt O(1) P(1,2) own [OF c] by (simp add: phase_ok_def flip: w_def)
  next
    case False
    have old: "phase_ok Objs Refs (p_heap s) c (p_phase s c)" using I c by blast
    show ?thesis
    proof (cases "p_phase s c")
      case (Logged k' r' a' o1 n1)
      then show ?thesis using old False own [OF c] mono by (auto simp: phase_ok_def intro: order_trans)
    next
      case (Swapped k' r' a' o1)
      then have "evidence (p_heap s) c a'" using old by (simp add: phase_ok_def)
      then have "evidence h c a'"
        by (rule evidence_mono) (use own [OF c] mono [OF c] bound c info in auto)
      then show ?thesis using Swapped old False by (auto simp: phase_ok_def info)
    qed (use old False in \<open>auto simp: phase_ok_def\<close>)
  qed
  moreover have "redo_ok (tls_redo (h_tls h (tls_at (c - 1)))) (own h c)
      (p_phase (enter i (Logged k ref o' old new) h s) c)" if c: "c \<in> clients" for c
  proof (cases "c = i")
    case True
    have "redo_ok (tls_redo (h_tls (p_heap s) (tls_at (i - 1)))) (own (p_heap s) i) (p_phase s i)"
      using I i by blast
    from redo_ok_write [OF this, of "Logged k ref o' old new" k ref o' w] show ?thesis
      using True P(5) own [OF c] by (simp add: log_of_def)
  next
    case False
    then show ?thesis using I c P(5) own [OF c] client_tls_inj [OF c i] by simp
  qed
  ultimately show ?thesis unfolding inv_def by simp
qed

lemma inv_swap:
  assumes inv: "inv Objs Refs s" and i: "i \<in> clients"
    and ph: "p_phase s i = Logged k ref o' old new" and cas: "cas_ref_info o' old new (p_heap s) = Some h"
  shows "inv Objs Refs (enter i (Swapped k ref o' old) h s)"
proof -
  let ?s = "enter i (Swapped k ref o' old) h s"
  note I = inv [unfolded inv_def]
  have old: "obj_ref_info (p_heap s) o' = old" and h: "h = set_cell (o' + 8) new (p_heap s)"
    using cas by (auto simp: cas_ref_info_def split: if_splits)
  have L: "o' \<in> Objs" "ref \<in> Refs" "countable_op k old" "info_cid old \<in> clients"
    "info_era old \<le> seen (p_heap s) i (info_cid old)" "new = word_of k i old (own (p_heap s) i)"
    using I i ph by (auto simp: phase_ok_def dest!: bspec [of _ _ i])
  have seen: "seen h = seen (p_heap s)" by (rule seen_cong) (simp add: h)
  have info: "obj_ref_info h a = (if a = o' then new else obj_ref_info (p_heap s) a)" for a
    by (simp add: h obj_ref_info_def)
  define n where "n = (case k of Link_op \<Rightarrow> info_cnt old + 1 | Unlink_op \<Rightarrow> info_cnt old - 1)"
  have n: "unat n < 2 ^ 16"
    using L(3) info_cnt_bound [of old] by (cases k) (auto simp: n_def countable_op_def word_less_nat_alt unat_word_ariths unat_sub_if_size)
  have new: "info_cid new = i" "info_era new = own (p_heap s) i" "info_cnt new = n"
    using info_pack [OF i n, of "own (p_heap s) i"] by (simp_all add: L(6) word_of_def n_def)
  have sp: "swapped_on (p_phase ?s c) a \<longleftrightarrow> (c = i \<and> a = o') \<or> swapped_on (p_phase s c) a" for c a
    using ph by auto
  have "eras_ok ?s"
    unfolding eras_ok_def sp using I by (simp add: seen eras_ok_def) blast
  moreover have "objs_ok Objs ?s"
    using I i unfolding objs_ok_def sp by (auto simp: objs_ok_def Let_def info seen new)
  moreover have "phase_ok Objs Refs h c (p_phase ?s c)" if c: "c \<in> clients" for c
  proof (cases "c = i")
    case True
    have "n = 0" if "k = Unlink_op" "info_cnt old = 1" using that by (simp add: n_def)
    then show ?thesis
      using True L(1-3) by (simp add: phase_ok_def evidence_def info seen new)
  next
    case False
    have p: "phase_ok Objs Refs (p_heap s) c (p_phase s c)" using I c by blast
    show ?thesis
    proof (cases "p_phase s c")
      case (Swapped k' r' a o1)
      then have e: "evidence (p_heap s) c a" and u: "k' = Unlink_op \<and> info_cnt o1 = 1 \<Longrightarrow>
          info_cnt (obj_ref_info (p_heap s) a) = 0" using p by (auto simp: phase_ok_def)
      have "evidence h c a"
      proof (cases "a = o' \<and> info_cid old = c \<and> info_era old = own (p_heap s) c")
        case True
        then have "own (p_heap s) c \<le> seen (p_heap s) i c" using L(5) by simp
        moreover have "seen (p_heap s) i c \<le> own (p_heap s) c"
          using I i c False by (auto simp: eras_ok_def)
        ultimately show ?thesis using i False by (auto simp: evidence_def seen)
      next
        case False
        then show ?thesis using e old by (auto simp: evidence_def info seen)
      qed
      moreover have "a \<noteq> o'" if "k' = Unlink_op \<and> info_cnt o1 = 1"
        using u [OF that] old L(3) by (auto simp: countable_op_def)
      ultimately show ?thesis using Swapped p False by (auto simp: phase_ok_def info)
    qed (use p False in \<open>auto simp: phase_ok_def seen\<close>)
  qed
  moreover have "redo_ok (tls_redo (h_tls h (tls_at (c - 1)))) (own h c) (p_phase ?s c)" if c: "c \<in> clients" for c
  proof -
    have "redo_ok (tls_redo (h_tls (p_heap s) (tls_at (c - 1)))) (own (p_heap s) c) (p_phase s c)"
      using I c by blast
    moreover have "log_of (p_phase ?s c) = log_of (p_phase s c)" using ph by (simp add: log_of_def)
    ultimately have "redo_ok (tls_redo (h_tls (p_heap s) (tls_at (c - 1)))) (own (p_heap s) c) (p_phase ?s c)"
      by (rule redo_ok_same_log)
    moreover have "h_tls h = h_tls (p_heap s)" by (simp add: h)
    ultimately show ?thesis by (simp only: seen)
  qed
  ultimately show ?thesis unfolding inv_def by simp
qed

lemma inv_fail:
  assumes inv: "inv Objs Refs s" and i: "i \<in> clients" and ph: "p_phase s i = Logged k ref o' old new"
  shows "inv Objs Refs (enter i (Retry k ref o') (p_heap s) s)"
proof -
  let ?s = "enter i (Retry k ref o') (p_heap s) s"
  have sp: "swapped_on (p_phase ?s c) a \<longleftrightarrow> swapped_on (p_phase s c) a" for c a
    using ph by auto
  have pk: "phase_ok Objs Refs (p_heap s) i (Logged k ref o' old new)"
    using inv i ph by (auto simp: inv_def dest!: bspec [of _ _ i])
  have lg: "log_of (p_phase ?s c) = log_of (p_phase s c)" for c using ph by (simp add: log_of_def)
  have "eras_ok ?s" using inv unfolding inv_def eras_ok_def sp by simp
  moreover have "objs_ok Objs ?s" using inv unfolding inv_def objs_ok_def sp by simp
  ultimately show ?thesis
    using inv pk redo_ok_same_log [OF _ lg] by (auto simp: inv_def) (auto simp: phase_ok_def)
qed

text \<open>
  A client finishes what it does: its own era advances, and at most one object's word is
  rewritten, by the client or to 0, that no other client's swap is still the last on.
\<close>

lemma less_inc: "(e :: u32) \<noteq> - 1 \<Longrightarrow> e < e + 1"
proof -
  assume "e \<noteq> - 1"
  then have "unat e \<noteq> unat (- 1 :: u32)" by (metis word_unat_eq_iff)
  then have "unat e \<noteq> 2 ^ 32 - 1" by (simp add: unsigned_minus_1_eq_mask mask_eq_exp_minus_1)
  then show "e < e + 1" using unat_bound [of e] by (simp add: word_less_nat_alt unat_word_ariths)
qed

lemma inv_done:
  assumes inv: "inv Objs Refs s" and i: "i \<in> clients" and ne: "own (p_heap s) i \<noteq> - 1"
    and seen: "\<And>j c. c \<in> clients \<Longrightarrow> seen h j c = (if j = i \<and> c = i then own (p_heap s) i + 1 else seen (p_heap s) j c)"
    and redo: "\<And>a. tls_redo (h_tls h a) = tls_redo (h_tls (p_heap s) a)"
    and info: "\<And>a. a \<in> Objs \<Longrightarrow> a \<noteq> x \<Longrightarrow> obj_ref_info h a = obj_ref_info (p_heap s) a"
    and x: "obj_ref_info h x = obj_ref_info (p_heap s) x \<or>
      info_cid (obj_ref_info (p_heap s) x) \<notin> clients - {i} \<and>
        (obj_ref_info h x = 0 \<or> info_cid (obj_ref_info h x) = i \<and> info_era (obj_ref_info h x) \<le> own (p_heap s) i)"
  shows "inv Objs Refs (enter i Idle h s)"
proof -
  let ?s = "enter i Idle h s"
  note I = inv [unfolded inv_def]
  have inc: "own (p_heap s) i < own (p_heap s) i + 1" by (rule less_inc [OF ne])
  have "eras_ok ?s"
    unfolding eras_ok_def
  proof (intro ballI)
    fix c assume c: "c \<in> clients"
    have E: "seen (p_heap s) 0 c = 0" "own (p_heap s) c \<noteq> 0"
      "\<And>j. j \<in> clients \<Longrightarrow> j \<noteq> c \<Longrightarrow> seen (p_heap s) j c \<le> own (p_heap s) c"
      "\<And>j. j \<in> clients \<Longrightarrow> j \<noteq> c \<Longrightarrow> seen (p_heap s) j c = own (p_heap s) c \<Longrightarrow> swapped (p_phase s c)"
      using I c by (auto simp: eras_ok_def)
    show "seen (p_heap ?s) 0 c = 0 \<and> own (p_heap ?s) c \<noteq> 0 \<and> (\<forall>j\<in>clients. j \<noteq> c \<longrightarrow>
        seen (p_heap ?s) j c \<le> own (p_heap ?s) c \<and> (seen (p_heap ?s) j c = own (p_heap ?s) c \<longrightarrow> swapped (p_phase ?s c)))"
    proof (cases "c = i")
      case True
      have "seen (p_heap s) j i < own (p_heap s) i + 1" if "j \<in> clients" "j \<noteq> i" for j
        using E(3) [of j] that True inc by simp
      then show ?thesis
        using True E(1) inc clientsD [OF i] by (fastforce simp: seen i intro: less_imp_le)
    next
      case False
      then show ?thesis using E seen [OF c] by auto
    qed
  qed
  moreover have "objs_ok Objs ?s"
    unfolding objs_ok_def Let_def
  proof (intro ballI)
    fix a assume a: "a \<in> Objs"
    show "obj_ref_info (p_heap ?s) a = 0 \<or> info_cid (obj_ref_info (p_heap ?s) a) \<in> clients
      \<and> info_era (obj_ref_info (p_heap ?s) a) \<le> own (p_heap ?s) (info_cid (obj_ref_info (p_heap ?s) a))
      \<and> (info_era (obj_ref_info (p_heap ?s) a) = own (p_heap ?s) (info_cid (obj_ref_info (p_heap ?s) a))
          \<longrightarrow> swapped_on (p_phase ?s (info_cid (obj_ref_info (p_heap ?s) a))) a)"
    proof (cases "obj_ref_info h a = obj_ref_info (p_heap s) a")
      case True
      define w where "w = obj_ref_info (p_heap s) a"
      have "w = 0 \<or> info_cid w \<in> clients \<and> info_era w \<le> own (p_heap s) (info_cid w)
          \<and> (info_era w = own (p_heap s) (info_cid w) \<longrightarrow> swapped_on (p_phase s (info_cid w)) a)"
        using I a by (auto simp: objs_ok_def w_def Let_def)
      then show ?thesis
        using True inc by (cases "info_cid w = i") (auto simp: seen simp flip: w_def)
    next
      case False
      then have "a = x" using info a by blast
      then show ?thesis using x False i inc by (auto simp: seen)
    qed
  qed
  moreover have "phase_ok Objs Refs h c (p_phase ?s c)" if c: "c \<in> clients" for c
  proof (cases "c = i")
    case True
    then show ?thesis by (simp add: phase_ok_def)
  next
    case False
    have p: "phase_ok Objs Refs (p_heap s) c (p_phase s c)" using I c by blast
    show ?thesis
    proof (cases "p_phase s c")
      case (Logged k' r' a o1 n1)
      then show ?thesis using p False c by (auto simp: phase_ok_def seen)
    next
      case (Swapped k' r' a o1)
      have a: "a \<in> Objs" using p Swapped by (simp add: phase_ok_def)
      have s1: "seen h j c = seen (p_heap s) j c" for j using seen [OF c] False by auto
      show ?thesis
      proof (cases "obj_ref_info h a = obj_ref_info (p_heap s) a")
        case True
        then show ?thesis using Swapped p False by (auto simp: phase_ok_def evidence_def s1)
      next
        case ne: False
        then have "info_cid (obj_ref_info (p_heap s) a) \<noteq> c" using info [OF a] x c False by blast
        then show ?thesis using Swapped p False by (auto simp: phase_ok_def evidence_def s1)
      qed
    qed (use p False in \<open>auto simp: phase_ok_def\<close>)
  qed
  moreover have "redo_ok (tls_redo (h_tls h (tls_at (c - 1)))) (own h c) (p_phase ?s c)" if c: "c \<in> clients" for c
  proof -
    have "redo_ok (tls_redo (h_tls (p_heap s) (tls_at (c - 1)))) (own (p_heap s) c) (p_phase s c)"
      using I c by blast
    then show ?thesis
      using redo_ok_next [OF _ inc] c by (cases "c = i") (auto simp: seen redo)
  qed
  ultimately show ?thesis unfolding inv_def by simp
qed

lemma seen_bump:
  assumes "i \<in> clients" "c \<in> clients"
  shows "seen (bump_era (client i) h) j c = (if j = i \<and> c = i then own h i + 1 else seen h j c)"
  using seen_set_era [where i' = i and c' = i and c = c and i = j] clients_le [OF assms(1)] clients_le [OF assms(2)] assms(1)
  by (simp add: bump_era_def seen_def)

lemma seen_set_cell [simp]: "seen (set_cell a v h) = seen h"
  by (rule seen_cong) simp

lemma inv_finish:
  assumes inv: "inv Objs Refs s" and sep: "separate Objs Refs" and i: "i \<in> clients"
    and ph: "p_phase s i = Swapped k ref o' old" and ne: "own (p_heap s) i \<noteq> - 1"
    and fin: "finish k (client i) ref o' old (p_heap s) = Inr h"
  shows "inv Objs Refs (enter i Idle h s)"
proof -
  have P: "o' \<in> Objs" "ref \<in> Refs" "countable_op k old"
    "k = Unlink_op \<and> info_cnt old = 1 \<Longrightarrow> info_cid (obj_ref_info (p_heap s) o') = i"
    using inv i ph by (auto simp: inv_def phase_ok_def dest!: bspec [of _ _ i])
  have r: "a + 8 \<noteq> ref" if "a \<in> Objs" for a using sep that P(2) by (auto simp: separate_def)
  define h0 where "h0 = bump_era (client i) (set_cell ref (case k of Link_op \<Rightarrow> o' | Unlink_op \<Rightarrow> 0) (p_heap s))"
  have h0: "\<And>j c. c \<in> clients \<Longrightarrow> seen h0 j c = (if j = i \<and> c = i then own (p_heap s) i + 1 else seen (p_heap s) j c)"
    "\<And>a. tls_redo (h_tls h0 a) = tls_redo (h_tls (p_heap s) a)"
    "\<And>a. a \<in> Objs \<Longrightarrow> obj_ref_info h0 a = obj_ref_info (p_heap s) a"
    using seen_bump [OF i] r by (auto simp: h0_def obj_ref_info_def)
  show ?thesis
  proof (cases "h = h0")
    case True
    show ?thesis
      by (rule inv_done [OF inv i ne, where x = o']) (use True h0 P(1) in auto)
  next
    case False
    then have k: "k = Unlink_op" "\<not> info_cnt old - 1 > 0" "cxl_free (client i) False o' h0 = Inr h"
      using fin by (cases k; auto simp: finish_def link_finish_def unlink_finish_def Let_def h0_def
          info_cnt_def split: if_splits)+
    note F = free_object_frame [OF k(3)]
    have "info_cnt old = 1"
      using k(2) by (simp add: word_greater_zero_iff)
    then have cid: "info_cid (obj_ref_info (p_heap s) o') = i" using P(4) k(1) by blast
    have "obj_ref_info h a = obj_ref_info (p_heap s) a" if a: "a \<in> Objs" "a \<noteq> o'" for a
    proof -
      have "h_cell h (a + 8) = h_cell h0 (a + 8)"
        using sep a P(1) by (intro F(2)) (auto simp: separate_def)
      then show ?thesis using h0(3) [OF a(1)] by (simp add: obj_ref_info_def)
    qed
    moreover have "seen h = seen h0" by (rule seen_cong [OF F(3)])
    moreover have "obj_ref_info h o' = 0" using F(1) by (simp add: obj_ref_info_def)
    ultimately show ?thesis
      using h0 F(4) cid by (intro inv_done [OF inv i ne, where x = o']) auto
  qed
qed

lemma inv_alloc:
  assumes inv: "inv Objs Refs s" and sep: "separate Objs Refs" and i: "i \<in> clients"
    and o: "o' \<in> Objs" "obj_ref_info (p_heap s) o' = 0" and ne: "own (p_heap s) i \<noteq> - 1"
  shows "inv Objs Refs (enter i Idle (block_to_cxlobj (client i) o' page emb (p_heap s)) s)"
proof -
  let ?h = "block_to_cxlobj (client i) o' page emb (p_heap s)"
  have tb: "h_cell (take_block o' page h) = h_cell h" "h_era (take_block o' page h) = h_era h"
    "h_tls (take_block o' page h) = h_tls h" for h by (simp_all add: take_block_def Let_def)
  have seen: "seen ?h j c = (if j = i \<and> c = i then own (p_heap s) i + 1 else seen (p_heap s) j c)"
    if "c \<in> clients" for j c
  proof -
    have "seen (take_block o' page (p_heap s)) = seen (p_heap s)" by (rule seen_cong [OF tb(2)])
    then show ?thesis
      using seen_bump [OF i that, of "take_block o' page (p_heap s)" j]
      by (simp add: block_to_cxlobj_def Let_def)
  qed
  have w: "obj_ref_info ?h o' = pack_ref_info (ucast (shm_thread_id (client i))) 1 (own (p_heap s) i)"
    using i by (simp add: block_to_cxlobj_def Let_def obj_ref_info_def tb seen_def)
  note pk = info_pack [OF i, of 1 "own (p_heap s) i", folded w]
  have c0: "info_cid (obj_ref_info (p_heap s) o') \<notin> clients - {i}"
    using o(2) clientsD by fastforce
  show ?thesis
  proof (rule inv_done [OF inv i ne seen, where x = o'])
    show "obj_ref_info ?h a = obj_ref_info (p_heap s) a" if "a \<in> Objs" "a \<noteq> o'" for a
      using sep that o(1) by (auto simp: separate_def block_to_cxlobj_def Let_def obj_ref_info_def tb)
    show "tls_redo (h_tls ?h a) = tls_redo (h_tls (p_heap s) a)" for a
      by (simp add: block_to_cxlobj_def Let_def tb)
  qed (use c0 pk in auto)
qed

lemma inv_clear:
  assumes inv: "inv Objs Refs s" and i: "i \<in> clients" and ph: "p_phase s i = Idle"
  shows "inv Objs Refs (enter i Idle (clear_redo (client i) (p_heap s)) s)"
proof -
  let ?h = "clear_redo (client i) (p_heap s)"
  have same: "(p_phase s)(i := Idle) = p_phase s" using ph by auto
  have seen: "seen ?h = seen (p_heap s)" by (rule seen_cong) (simp add: clear_redo_def)
  have info: "obj_ref_info ?h = obj_ref_info (p_heap s)"
    by (simp add: clear_redo_def obj_ref_info_def fun_eq_iff)
  have ev: "evidence ?h = evidence (p_heap s)" by (simp add: evidence_def fun_eq_iff seen info)
  have "redo_ok (\<lambda>_. zero_redo) (own (p_heap s) i) Idle"
    using inv i by (auto simp: inv_def eras_ok_def redo_ok_def log_of_def zero_redo_def word_neq_0_conv)
  then have "redo_ok (tls_redo (h_tls ?h (tls_at (c - 1)))) (own (p_heap s) c) (p_phase s c)" if "c \<in> clients" for c
    using inv i that ph client_tls_inj [OF that i] by (auto simp: inv_def clear_redo_def)
  moreover have "eras_ok (enter i Idle ?h s)" "objs_ok Objs (enter i Idle ?h s)"
    using inv by (simp_all add: inv_def eras_ok_def objs_ok_def same seen info)
  moreover have "phase_ok Objs Refs ?h c (p_phase s c)" if "c \<in> clients" for c
    using inv that by (simp add: inv_def phase_ok_def seen info ev split: phase.splits)
  ultimately show ?thesis unfolding inv_def by (simp add: same seen)
qed

lemma inv_act:
  assumes "act Objs Refs e s s'" and "separate Objs Refs" and "inv Objs Refs s"
  shows "inv Objs Refs s'"
  using assms(1)
proof cases
  case prepare_act
  then show ?thesis using inv_prepare [OF assms(3)] by blast
next
  case swap_act
  then show ?thesis using inv_swap [OF assms(3)] by blast
next
  case fail_act
  then show ?thesis using inv_fail [OF assms(3)] by blast
next
  case finish_act
  then show ?thesis using inv_finish [OF assms(3,2)] by blast
next
  case alloc_act
  then show ?thesis using inv_alloc [OF assms(3,2)] by blast
next
  case clear_act
  then show ?thesis using inv_clear [OF assms(3)] by blast
qed

lemma inv_step: "step Objs Refs s s' \<Longrightarrow> separate Objs Refs \<Longrightarrow> inv Objs Refs s \<Longrightarrow> inv Objs Refs s'"
  unfolding step_def using inv_act by blast

definition proto_init :: "u64 set \<Rightarrow> proto \<Rightarrow> bool" where
  "proto_init Objs s \<longleftrightarrow> (\<forall>c. p_phase s c = Idle) \<and> (\<forall>o'\<in>Objs. obj_ref_info (p_heap s) o' = 0)
     \<and> (\<forall>c\<in>clients. own (p_heap s) c \<noteq> 0 \<and> (\<forall>j. j \<noteq> c \<longrightarrow> seen (p_heap s) j c = 0)
          \<and> tls_redo (h_tls (p_heap s) (tls_at (c - 1))) = (\<lambda>_. zero_redo))"

lemma inv_init: "proto_init Objs s \<Longrightarrow> inv Objs Refs s"
  using clientsD
  by (fastforce simp: proto_init_def inv_def eras_ok_def objs_ok_def phase_ok_def redo_ok_def log_of_def
      zero_redo_def word_neq_0_conv)

lemma inv_reachable:
  assumes "(step Objs Refs)\<^sup>*\<^sup>* s0 s" and "separate Objs Refs" and "proto_init Objs s0"
  shows "inv Objs Refs s"
  using assms(1) by induction (auto intro: inv_init [OF assms(3)] inv_step [OF _ assms(2)])

section \<open>What the monitor finds\<close>

lemma fold_max_seen:
  "e \<le> fold (\<lambda>j m. if P j then m else if f j > m then f j else m) xs m \<longleftrightarrow>
     e \<le> m \<or> (\<exists>j\<in>set xs. \<not> P j \<and> (e :: u32) \<le> f j)"
  by (induction xs arbitrary: m) (auto simp: not_less intro: order_trans less_imp_le)

lemma max_seen_iff:
  assumes "0 < e"
  shows "e \<le> max_seen_era h (int c) \<longleftrightarrow> (\<exists>j < MAX_THREAD. j \<noteq> c \<and> e \<le> seen h j c)"
  unfolding max_seen_era_def fold_max_seen using assms by (auto simp: seen_def layout)

lemma redo_slot_less: "\<exists>n < 8. redo_slot e = of_nat n"
proof (intro exI conjI)
  have "redo_slot e = take_bit 3 e" by (simp add: redo_slot_def layout take_bit_eq_mask mask_eq_exp_minus_1)
  then have u: "unat (redo_slot e) = unat e mod 8" by (simp add: take_bit_eq_mod unat_mod_distrib)
  show "unat (redo_slot e) < 8" unfolding u by simp
  show "redo_slot e = of_nat (unat (redo_slot e))" by simp
qed

lemma fold_latest:
  assumes "\<forall>i \<in> set xs. of_nat i \<noteq> k \<longrightarrow> cur_era (redo (of_nat i)) < cur_era (redo k)"
    and "r = redo k \<or> cur_era r < cur_era (redo k) \<and> k \<in> of_nat ` set xs"
  shows "fold (\<lambda>i r. let t = redo (of_nat i) in if cur_era t > cur_era r then t else r) xs r = redo k"
  using assms
proof (induction xs arbitrary: r)
  case Nil
  then show ?case by simp
next
  case (Cons i xs)
  let ?r = "let t = redo (of_nat i) in if cur_era t > cur_era r then t else r"
  have "?r = redo k \<or> cur_era ?r < cur_era (redo k) \<and> k \<in> of_nat ` set xs"
    using Cons.prems by (cases "of_nat i = k") (auto simp: Let_def)
  then show ?case using Cons.IH [of ?r] Cons.prems(1) by simp
qed

lemma latest_redo_slot:
  assumes "\<And>k. k \<noteq> redo_slot e \<Longrightarrow> cur_era (redo k) < cur_era (redo (redo_slot e))"
  shows "latest_redo redo = redo (redo_slot e)"
proof -
  obtain n where n: "n < 8" "redo_slot e = of_nat n" using redo_slot_less by blast
  have "redo 0 = redo (redo_slot e) \<or> cur_era (redo 0) < cur_era (redo (redo_slot e))
      \<and> redo_slot e \<in> of_nat ` set [1..<REDO_CACHELINE_CNT]"
  proof (cases "n = 0")
    case False
    then have "redo_slot e \<in> of_nat ` set [1..<REDO_CACHELINE_CNT]"
      using n by (auto simp: layout simp del: upt_conv_Cons)
    then show ?thesis using assms [of 0] by metis
  qed (use n in simp)
  then show ?thesis
    unfolding latest_redo_def by (intro fold_latest) (use assms in auto)
qed

lemma latest_redo_ok:
  assumes "redo_ok redo e ph" and "log_of ph = Some (k, ref, o')" and "e \<noteq> 0"
  shows "latest_redo redo = redo (redo_slot e)" "func_id (latest_redo redo) = op_code k"
    "cur_era (latest_redo redo) = e" "redo_ref (latest_redo redo) = ref" "redo_refed (latest_redo redo) = o'"
proof -
  have r: "func_id (redo (redo_slot e)) = op_code k" "cur_era (redo (redo_slot e)) = e"
    "redo_ref (redo (redo_slot e)) = ref" "redo_refed (redo (redo_slot e)) = o'"
    using assms(1,2) by (auto simp: redo_ok_def Let_def)
  have "cur_era (redo k') < e" if "k' \<noteq> redo_slot e" for k'
  proof -
    have "redo k' = zero_redo \<or> redo_slot (cur_era (redo k')) = k' \<and> cur_era (redo k') \<le> e"
      using assms(1) by (simp add: redo_ok_def)
    moreover have "0 < e" using assms(3) by (simp add: word_greater_zero_iff)
    ultimately show ?thesis using that by (auto simp: zero_redo_def order_less_le)
  qed
  then have l: "latest_redo redo = redo (redo_slot e)" by (intro latest_redo_slot) (simp add: r)
  show "latest_redo redo = redo (redo_slot e)" "func_id (latest_redo redo) = op_code k"
    "cur_era (latest_redo redo) = e" "redo_ref (latest_redo redo) = ref" "redo_refed (latest_redo redo) = o'"
    by (simp_all add: l r)
qed

lemma need_redo_iff:
  assumes c: "c \<in> clients" and e: "cur_era r = own h c" "own h c \<noteq> 0" and z: "seen h 0 c = 0"
    and b: "\<And>j. j \<in> clients \<Longrightarrow> j \<noteq> c \<Longrightarrow> seen h j c \<le> own h c"
  shows "need_redo h (of_nat c) r \<longleftrightarrow> evidence h c (redo_refed r)"
proof -
  let ?w = "obj_ref_info h (redo_refed r)"
  have u: "uint (of_nat c :: u32) = int c" using uint_u32 [of c] clientsD [OF c] by simp
  have "(\<exists>j < MAX_THREAD. j \<noteq> c \<and> own h c \<le> seen h j c) \<longleftrightarrow> (\<exists>j\<in>clients. j \<noteq> c \<and> seen h j c = own h c)"
  proof
    assume "\<exists>j < MAX_THREAD. j \<noteq> c \<and> own h c \<le> seen h j c"
    then obtain j where j: "j < MAX_THREAD" "j \<noteq> c" "own h c \<le> seen h j c" by blast
    with z e(2) have "j \<noteq> 0" by (metis word_le_0_iff)
    then have jc: "j \<in> clients" using j(1) by (simp add: clients_def)
    have "seen h j c = own h c" using b [OF jc j(2)] j(3) by (rule order_antisym)
    with jc j(2) show "\<exists>j\<in>clients. j \<noteq> c \<and> seen h j c = own h c" by blast
  next
    assume "\<exists>j\<in>clients. j \<noteq> c \<and> seen h j c = own h c"
    then obtain j where j: "j \<in> clients" "j \<noteq> c" "seen h j c = own h c" by blast
    then have "j < MAX_THREAD" "own h c \<le> seen h j c" by (simp_all add: clients_def)
    with j(2) show "\<exists>j < MAX_THREAD. j \<noteq> c \<and> own h c \<le> seen h j c" by blast
  qed
  moreover have "own h c \<le> max_seen_era h (int c) \<longleftrightarrow> (\<exists>j < MAX_THREAD. j \<noteq> c \<and> own h c \<le> seen h j c)"
    using e(2) by (intro max_seen_iff) (simp add: word_greater_zero_iff)
  moreover have "(ucast (get_lcid_from_info ?w) :: u32) = of_nat c \<longleftrightarrow> info_cid ?w = c"
    by (rule lcid_eq_iff [OF c])
  ultimately show ?thesis
    unfolding need_redo_def Let_def evidence_def info_era_def [symmetric] e(1) u by (simp; blast)
qed

lemma tls_id_client: "c \<in> clients \<Longrightarrow> tls_id_of (tls_at (c - 1)) = of_nat c"
  using tls_index(1) [of "c - 1"] clientsD [of c] by (auto simp: tls_id_of_def layout simp del: of_nat_add)

lemma redo_client:
  assumes inv: "inv Objs Refs s" and c: "c \<in> clients" and lg: "log_of (p_phase s c) = Some (k, ref, o')"
  shows "redo_ref_cnt (tls_at (c - 1)) (p_heap s) =
    (if evidence (p_heap s) c o'
     then set_cell ref (case k of Link_op \<Rightarrow> o' | Unlink_op \<Rightarrow> 0) (p_heap s) else p_heap s)"
proof -
  let ?h = "p_heap s"
  let ?r = "latest_redo (tls_redo (h_tls ?h (tls_at (c - 1))))"
  have R: "redo_ok (tls_redo (h_tls ?h (tls_at (c - 1)))) (own ?h c) (p_phase s c)"
    and E: "seen ?h 0 c = 0" "own ?h c \<noteq> 0" "\<And>j. j \<in> clients \<Longrightarrow> j \<noteq> c \<Longrightarrow> seen ?h j c \<le> own ?h c"
    using inv c by (auto simp: inv_def eras_ok_def)
  note L = latest_redo_ok [OF R lg E(2)]
  have n: "need_redo ?h (of_nat c) ?r \<longleftrightarrow> evidence ?h c o'"
    using need_redo_iff [OF c L(3) E(2,1,3)] unfolding L(5) .
  have z: "get_ref_cnt_from_info (ucast (x :: u16)) = 0" for x
    using unat_bound [of x] by (simp add: word_unat_eq_iff unat_fields)
  show ?thesis
    unfolding redo_ref_cnt_def Let_def tls_id_client [OF c] n L(2,4,5) z
    by (cases k) (simp_all add: op_code_def)
qed

lemma evidence_iff_swapped:
  assumes inv: "inv Objs Refs s" and c: "c \<in> clients" and lg: "log_of (p_phase s c) = Some (k, ref, o')"
  shows "evidence (p_heap s) c o' \<longleftrightarrow> swapped (p_phase s c)"
proof -
  note I = inv [unfolded inv_def]
  have p: "phase_ok Objs Refs (p_heap s) c (p_phase s c)" using I c by blast
  show ?thesis
  proof (cases "swapped (p_phase s c)")
    case True
    then show ?thesis using p lg by (auto simp: phase_ok_def log_of_def)
  next
    case False
    have o: "o' \<in> Objs" using p lg False by (auto simp: phase_ok_def log_of_def split: phase.splits)
    have "own (p_heap s) c \<noteq> 0" using I c by (simp add: eras_ok_def)
    then have "\<not> (info_cid (obj_ref_info (p_heap s) o') = c \<and> info_era (obj_ref_info (p_heap s) o') = own (p_heap s) c)"
      using objs_okD(3) [OF conjunct1 [OF conjunct2 [OF I]] o refl] False by fastforce
    moreover have "seen (p_heap s) j c \<noteq> own (p_heap s) c" if "j \<in> clients" "j \<noteq> c" for j
      using I c that False by (auto simp: eras_ok_def)
    ultimately show ?thesis using False by (auto simp: evidence_def)
  qed
qed

section \<open>A run\<close>

text \<open>All clients in their first era, one object at 4096, one reference cell at 512.\<close>

definition demo_heap :: shm_heap where
  "demo_heap = zero_heap\<lparr>h_era := (\<lambda>i. if i \<in> (\<lambda>c. era (int c) (int c)) ` clients then 1 else 0)\<rparr>"

definition demo_proto :: proto where
  "demo_proto = \<lparr>p_heap = demo_heap, p_phase = (\<lambda>_. Idle)\<rparr>"

definition demo_object :: shm_heap where
  "demo_object = block_to_cxlobj (client 1) 4096 0 0 demo_heap"

lemma client1: "1 \<in> clients" "2 \<in> clients" by (simp_all add: clients_def layout)

lemma demo_seen: "c \<in> clients \<Longrightarrow> seen demo_heap j c = (if j = c then 1 else 0)"
  using clients_le era_inj by (fastforce simp: demo_heap_def seen_def zero_heap_def image_iff)

lemma demo_init: "proto_init {4096} demo_proto" "separate {4096} {512}"
  using demo_seen by (auto simp: proto_init_def demo_proto_def separate_def)
    (simp_all add: demo_heap_def zero_defs obj_ref_info_def)

lemma demo_object_act: "act {4096} {512} (Allocated 4096) demo_proto (enter 1 Idle demo_object demo_proto)"
  using alloc_act [of 1 demo_proto 4096 "{4096}" "{512}" 0 0] client1 demo_seen [OF client1(1)]
  by (simp add: demo_proto_def demo_object_def) (simp add: demo_heap_def zero_defs obj_ref_info_def)

lemma demo_object_word:
  "info_cid (obj_ref_info demo_object 4096) = 1" "info_cnt (obj_ref_info demo_object 4096) = 1"
  "info_era (obj_ref_info demo_object 4096) = 1" "own demo_object 1 = 2"
  "tls_redo (h_tls demo_object (tls_at 0)) = (\<lambda>_. zero_redo)"
proof -
  have "h_cell (take_block 4096 0 demo_heap) = h_cell demo_heap" "h_era (take_block 4096 0 demo_heap) = h_era demo_heap"
    "h_tls (take_block 4096 0 demo_heap) = h_tls demo_heap" by (simp_all add: take_block_def Let_def)
  note t = this seen_cong [OF this(2)]
  have w: "obj_ref_info demo_object 4096 = pack_ref_info (ucast (shm_thread_id (client 1))) 1 1"
    using demo_seen [OF client1(1), of 1] client1
    by (simp add: demo_object_def block_to_cxlobj_def Let_def obj_ref_info_def t seen_def)
  show "info_cid (obj_ref_info demo_object 4096) = 1" "info_cnt (obj_ref_info demo_object 4096) = 1"
    "info_era (obj_ref_info demo_object 4096) = 1"
    using info_pack [OF client1(1), of 1 1] by (simp_all add: w)
  show "own demo_object 1 = 2"
    using seen_bump [OF client1(1) client1(1), of "take_block 4096 0 demo_heap" 1] demo_seen [OF client1(1), of 1]
    by (simp add: demo_object_def block_to_cxlobj_def Let_def t)
  show "tls_redo (h_tls demo_object (tls_at 0)) = (\<lambda>_. zero_redo)"
    by (simp add: demo_object_def block_to_cxlobj_def Let_def t) (simp add: demo_heap_def zero_defs)
qed

lemma demo_acts:
  "\<exists>s old. runs (act {4096} {512}) demo_proto [Allocated 4096, Internal, Changed Link_op 4096] s
    \<and> p_phase s 1 = Swapped Link_op 512 4096 old"
proof -
  let ?s1 = "enter 1 Idle demo_object demo_proto"
  obtain old new h where p: "prepare Link_op (client 1) 512 4096 demo_object = (old, new, h)"
    by (metis prod_cases3)
  let ?s2 = "enter 1 (Logged Link_op 512 4096 old new) h ?s1"
  have 2: "act {4096} {512} Internal ?s1 ?s2"
    using prepare_act [of 1 ?s1 Link_op 512 4096 "{4096}" "{512}"] client1 p demo_object_word(2)
    by (simp add: countable_op_def)
  have "cas_ref_info 4096 old new h = Some (set_cell 4104 new h)"
    using cas_after_prepare(1) [of 4096 "client 1" 512 demo_object new] p by (simp add: prepare_def)
  then have 3: "act {4096} {512} (Changed Link_op 4096) ?s2 (enter 1 (Swapped Link_op 512 4096 old) (set_cell 4104 new h) ?s2)"
    using swap_act [of 1 ?s2 Link_op 512 4096 old new] client1 by simp
  have "runs (act {4096} {512}) demo_proto [Allocated 4096, Internal, Changed Link_op 4096]
      (enter 1 (Swapped Link_op 512 4096 old) (set_cell 4104 new h) ?s2)"
    by (rule runs.go, rule demo_object_act, rule runs.go, rule 2, rule runs.go, rule 3, rule runs.stop)
  moreover have "p_phase (enter 1 (Swapped Link_op 512 4096 old) (set_cell 4104 new h) ?s2) 1
      = Swapped Link_op 512 4096 old" by simp
  ultimately show ?thesis by blast
qed

lemma run_reaches: "runs (act Objs Refs) s es s' \<Longrightarrow> (step Objs Refs)\<^sup>*\<^sup>* s s'"
proof (induction rule: runs.induct)
  case (go e s s1 es s2)
  then have "step Objs Refs s s1" by (auto simp: step_def)
  then show ?case using go.IH by (rule converse_rtranclp_into_rtranclp)
qed simp

lemma demo_swap:
  "\<exists>s old. (step {4096} {512})\<^sup>*\<^sup>* demo_proto s \<and> p_phase s 1 = Swapped Link_op 512 4096 old"
  using demo_acts run_reaches by blast


section \<open>Properties\<close>

text \<open>
  C2. The heart of the crash tolerance. Whatever the interleaving of any number of clients
  that change references, whenever a client stops in the middle of a change, the monitor
  completes the change if and only if its compare-and-swap took effect: then the reference
  gets the value the client was about to store, and otherwise the region is left alone.
\<close>

theorem recovery_completes_iff_swapped:
  assumes "(step Objs Refs)\<^sup>*\<^sup>* s0 s" and "separate Objs Refs" and "proto_init Objs s0"
    and "c \<in> clients" and "log_of (p_phase s c) = Some (k, ref, o')"
  shows "redo_ref_cnt (tls_at (c - 1)) (p_heap s) =
    (if swapped (p_phase s c)
     then set_cell ref (case k of Link_op \<Rightarrow> o' | Unlink_op \<Rightarrow> 0) (p_heap s) else p_heap s)"
  using redo_client [OF inv_reachable [OF assms(1-3)] assms(4,5)]
    evidence_iff_swapped [OF inv_reachable [OF assms(1-3)] assms(4,5)] by simp


theorem recovery_completes_iff_swapped_witness:
  "\<exists>s. (step {4096} {512})\<^sup>*\<^sup>* demo_proto s \<and> swapped (p_phase s 1)
    \<and> redo_ref_cnt (tls_at (1 - 1)) (p_heap s) = set_cell 512 4096 (p_heap s)"
proof -
  obtain s old where s: "(step {4096} {512})\<^sup>*\<^sup>* demo_proto s" "p_phase s 1 = Swapped Link_op 512 4096 old"
    using demo_swap by blast
  then show ?thesis
    using recovery_completes_iff_swapped [OF s(1) demo_init(2,1) client1(1), of Link_op 512 4096]
    by (auto simp: log_of_def)
qed

text \<open>
  C17. No client ever records an era of another client that the other has not reached, and it
  records the current era of another only while a change of that client is swapped in.
\<close>

theorem seen_eras_never_ahead:
  assumes "(step Objs Refs)\<^sup>*\<^sup>* s0 s" and "separate Objs Refs" and "proto_init Objs s0"
    and "j \<in> clients" and "c \<in> clients" and "j \<noteq> c"
  shows "seen (p_heap s) j c \<le> own (p_heap s) c
    \<and> (\<not> swapped (p_phase s c) \<longrightarrow> seen (p_heap s) j c < own (p_heap s) c)"
  using inv_reachable [OF assms(1-3)] assms(4-6) by (auto simp: inv_def eras_ok_def order_less_le)

theorem seen_eras_never_ahead_witness:
  "\<exists>s. (step {4096} {512})\<^sup>*\<^sup>* demo_proto s \<and> swapped (p_phase s 1) \<and> seen (p_heap s) 2 1 \<le> own (p_heap s) 1"
proof -
  obtain s old where s: "(step {4096} {512})\<^sup>*\<^sup>* demo_proto s" "p_phase s 1 = Swapped Link_op 512 4096 old"
    using demo_swap by blast
  then show ?thesis
    using seen_eras_never_ahead [OF s(1) demo_init(2,1) client1(2,1)] by auto
qed

text \<open>
  C37. Completing a link is not idempotent once the reference has been consumed: client
  \<open>c1\<close> links an object into a cell and does nothing else, client \<open>c2\<close> takes the object out
  of the cell, \<open>c1\<close> crashes; the monitor stores the reference again although the count no
  longer includes it. (A message queue slot after \<open>sent_to\<close> and \<open>cxl_unwrap\<close>.)
\<close>

theorem redo_resurrects_consumed_reference:
  assumes c: "c1 \<in> clients" "c2 \<in> clients" "c1 \<noteq> c2"
    and w: "countable_op Link_op (obj_ref_info h o')" "info_cid (obj_ref_info h o') \<in> clients"
    and le: "info_cid (obj_ref_info h o') = c1 \<longrightarrow> info_era (obj_ref_info h o') \<le> own h c1"
    and redo: "redo_ok (tls_redo (h_tls h (tls_at (c1 - 1)))) (own h c1) Idle" "own h c1 \<noteq> 0"
    and ref: "ref \<noteq> o' + 8" "o' \<noteq> 0"
  shows "\<exists>h2. unlink_reference (client c2) ref o' (link_reference (client c1) ref o' h) = Inr h2
    \<and> h_cell h2 ref = 0 \<and> info_cnt (obj_ref_info h2 o') = info_cnt (obj_ref_info h o')
    \<and> h_cell (redo_ref_cnt (tls_at (c1 - 1)) h2) ref = o'"
proof -
  define w where "w = obj_ref_info h o'"
  obtain old new h1 where p1: "prepare Link_op (client c1) ref o' h = (old, new, h1)" by (metis prod_cases3)
  note P1 = prepare_spec [OF c(1) w_def w(2) [folded w_def] le [folded w_def] p1]
  define g where "g = link_reference (client c1) ref o' h"
  have g: "g = bump_era (client c1) (set_cell ref o' (set_cell (o' + 8) new h1))"
    using p1 by (simp add: g_def link_reference_def prepare_def link_finish_def)
  have n: "0 < info_cnt w" "unat (info_cnt w + 1) < 2 ^ 16" "info_cnt w + 1 - 1 > 0"
    using w(1) by (auto simp: w_def countable_op_def word_less_nat_alt unat_word_ariths)
  have gw: "obj_ref_info g o' = new" using ref by (auto simp: g obj_ref_info_def)
  note N = info_pack [OF c(1) n(2), of "own h c1"]
  have new: "info_cid new = c1" "info_cnt new = info_cnt w + 1" "info_era new = own h c1"
    using N by (simp_all add: P1(2) word_of_def)
  obtain old2 new2 h3 where p2: "prepare Unlink_op (client c2) ref o' g = (old2, new2, h3)" by (metis prod_cases3)
  have cid: "info_cid new \<in> clients" "info_cid new = c2 \<longrightarrow> info_era new \<le> own g c2" using c new by auto
  note P2 = prepare_spec [OF c(2) gw [symmetric] cid p2]
  define h2 where "h2 = bump_era (client c2) (set_cell ref 0 (set_cell (o' + 8) new2 h3))"
  have u: "unlink_reference (client c2) ref o' g = Inr h2"
    using p2 P2(1) n(3) new(2)
    by (simp add: unlink_reference_def prepare_def unlink_finish_def h2_def Let_def flip: info_cnt_def)
  have "own h c1 \<le> seen h3 c2 c1"
    using P2(4) [OF c(1), of c2] new by (auto simp: not_less)
  then have seen: "own h c1 \<le> seen h2 c2 c1"
    using seen_bump [OF c(2,1)] c(3) by (simp add: h2_def)
  have "redo_ok (tls_redo (h_tls h1 (tls_at (c1 - 1)))) (own h c1) (Logged Link_op ref o' 0 0)"
    using redo_ok_write [OF redo(1)] by (simp add: P1(5) log_of_def)
  moreover have "tls_redo (h_tls h2 (tls_at (c1 - 1))) = tls_redo (h_tls h1 (tls_at (c1 - 1)))"
    using P2(5) [of "tls_at (c1 - 1)"] client_tls_inj [OF c(1,2)] c(3) by (simp add: h2_def g)
  ultimately have "redo_ok (tls_redo (h_tls h2 (tls_at (c1 - 1)))) (own h c1) (Logged Link_op ref o' 0 0)"
    by simp
  note L = latest_redo_ok [OF this _ redo(2), of Link_op ref o', simplified log_of_def phase.case, OF refl]
  have "own h c1 \<le> max_seen_era h2 (int c1)"
    using max_seen_iff [of "own h c1" h2 c1] redo(2) seen c by (auto simp: word_greater_zero_iff clients_def)
  then have "need_redo h2 (of_nat c1) (latest_redo (tls_redo (h_tls h2 (tls_at (c1 - 1)))))"
    unfolding need_redo_def Let_def L(3) using uint_u32 [of c1] clientsD [OF c(1)] by simp
  then have r: "redo_ref_cnt (tls_at (c1 - 1)) h2 = set_cell ref o' h2"
    unfolding redo_ref_cnt_def Let_def tls_id_client [OF c(1)] L(2,4,5) by (simp add: op_code_def)
  have nn: "unat (info_cnt w) < 2 ^ 16" by (rule info_cnt_bound)
  have "info_cnt (obj_ref_info h2 o') = info_cnt w"
    using info_pack [OF c(2) nn, of "own g c2"] ref P2(2) new(2)
    by (simp add: h2_def obj_ref_info_def word_of_def)
  then show ?thesis using u r by (simp add: g_def w_def h2_def)
qed

theorem redo_resurrects_consumed_reference_witness:
  "\<exists>h2. unlink_reference (client 2) 512 4096 (link_reference (client 1) 512 4096 demo_object) = Inr h2
    \<and> h_cell h2 512 = 0 \<and> info_cnt (obj_ref_info h2 4096) = 1
    \<and> h_cell (redo_ref_cnt (tls_at (1 - 1)) h2) 512 = 4096"
  using redo_resurrects_consumed_reference [of 1 2 demo_object 4096 512] client1 demo_object_word
  by (simp add: countable_op_def redo_ok_def log_of_def zero_redo_def)

text \<open>
  C39. Completing an unlink never marks a segment as possibly leaking, whatever the log says:
  the test takes the count field out of a value that is the 16-bit count already, and gets 0.
\<close>

theorem redo_never_marks_leaking: "h_sas (redo_ref_cnt offset h) = h_sas h"
proof -
  have "get_ref_cnt_from_info (ucast (n :: u16)) = 0" for n
    using unat_bound [of n] by (simp add: word_unat_eq_iff unat_fields)
  then show ?thesis by (simp add: redo_ref_cnt_def Let_def)
qed

end
