(* ===== verification/Count_Refinement.thy ===== *)
theory Count_Refinement
  imports Era_Protocol
begin

text \<open>
  The reference counting protocol of \<open>Era_Protocol\<close> as a refinement: its runs, seen through
  the counts in the objects' words, are runs of atomic counters under the same events.
\<close>

section \<open>Refinement\<close>

text \<open>
  What the protocol implements: one counter per object, changed atomically. An object is
  allocated with count 1, and a positive count goes up and down by one. A step carries what
  happens as its label, so that a run of the counters follows the events of the protocol: a
  link or unlink whose client takes its swap for successful is counted, once, at that moment.
\<close>

inductive count_step :: "count_event \<Rightarrow> (u64 \<Rightarrow> nat) \<Rightarrow> (u64 \<Rightarrow> nat) \<Rightarrow> bool" where
  count_alloc: "n a = 0 \<Longrightarrow> count_step (Allocated a) n (n(a := 1))"
| count_link: "0 < n a \<Longrightarrow> count_step (Changed Link_op a) n (n(a := n a + 1))"
| count_unlink: "0 < n a \<Longrightarrow> count_step (Changed Unlink_op a) n (n(a := n a - 1))"
| count_other: "count_step Internal n n"

text \<open>In a run of the counters a count is what was added less what was taken away.\<close>

lemma count_balance:
  assumes "runs count_step n es m"
  shows "m a + count_list es (Changed Unlink_op a) = n a + count_list es (Allocated a) + count_list es (Changed Link_op a)"
  using assms
proof (induction rule: runs.induct)
  case (go e n n1 es n2)
  have "n1 a + count_list [e] (Changed Unlink_op a) = n a + count_list [e] (Allocated a) + count_list [e] (Changed Link_op a)"
    using go.hyps(1) by cases auto
  then show ?case using go.IH by auto
qed simp

definition counts :: "u64 set \<Rightarrow> proto \<Rightarrow> u64 \<Rightarrow> nat" where
  "counts Objs s a = (if a \<in> Objs then unat (info_cnt (obj_ref_info (p_heap s) a)) else 0)"

lemma counts_upd:
  assumes "\<And>a. a \<in> Objs \<Longrightarrow> a \<noteq> b \<Longrightarrow> obj_ref_info (p_heap s') a = obj_ref_info (p_heap s) a" and "b \<in> Objs"
  shows "counts Objs s' = (counts Objs s)(b := unat (info_cnt (obj_ref_info (p_heap s') b)))"
  using assms by (auto simp: counts_def fun_eq_iff)

lemma counts_same:
  assumes "\<And>a. a \<in> Objs \<Longrightarrow> info_cnt (obj_ref_info (p_heap s') a) = info_cnt (obj_ref_info (p_heap s) a)"
  shows "counts Objs s' = counts Objs s"
  using assms by (auto simp: counts_def fun_eq_iff)

lemma swap_counts:
  assumes inv: "inv Objs Refs s" and i: "i \<in> clients" and ph: "p_phase s i = Logged k ref o' old new"
    and cas: "cas_ref_info o' old new (p_heap s) = Some h"
  shows "count_step (Changed k o') (counts Objs s) (counts Objs (enter i ph' h s))"
proof -
  have old: "obj_ref_info (p_heap s) o' = old" and h: "h = set_cell (o' + 8) new (p_heap s)"
    using cas by (auto simp: cas_ref_info_def split: if_splits)
  have L: "o' \<in> Objs" "countable_op k old" "new = word_of k i old (own (p_heap s) i)"
    using inv i ph by (auto simp: inv_def phase_ok_def dest!: bspec [of _ _ i])
  have o: "counts Objs s o' = unat (info_cnt old)" "0 < unat (info_cnt old)"
    using L(1,2) old by (auto simp: counts_def countable_op_def word_less_nat_alt)
  have c: "counts Objs (enter i ph' h s) = (counts Objs s)(o' := unat (info_cnt new))"
    using counts_upd [of Objs o' "enter i ph' h s" s] L(1) by (simp add: h obj_ref_info_def)
  show ?thesis
  proof (cases k)
    case Link_op
    then have n: "unat (info_cnt old + 1) = unat (info_cnt old) + 1" "unat (info_cnt old + 1) < 2 ^ 16"
      using L(2) by (auto simp: countable_op_def word_less_nat_alt unat_word_ariths)
    have "info_cnt new = info_cnt old + 1"
      using info_pack(2) [OF i n(2)] Link_op by (simp add: L(3) word_of_def)
    then show ?thesis using count_link [of "counts Objs s" o'] c o n(1) Link_op by simp
  next
    case Unlink_op
    have n: "unat (info_cnt old - 1) = unat (info_cnt old) - 1" using o(2) by (simp add: unat_sub_if_size)
    then have "unat (info_cnt old - 1) < 2 ^ 16" using info_cnt_bound [of old] by simp
    then have "info_cnt new = info_cnt old - 1"
      using info_pack(2) [OF i] Unlink_op by (simp add: L(3) word_of_def)
    then show ?thesis using count_unlink [of "counts Objs s" o'] c o n Unlink_op by simp
  qed
qed

lemma finish_counts:
  assumes inv: "inv Objs Refs s" and sep: "separate Objs Refs" and i: "i \<in> clients"
    and ph: "p_phase s i = Swapped k ref o' old"
    and fin: "finish k (client i) ref o' old (p_heap s) = Inr h"
  shows "counts Objs (enter i ph' h s) = counts Objs s"
proof (rule counts_same)
  fix a assume a: "a \<in> Objs"
  have P: "o' \<in> Objs" "ref \<in> Refs" "countable_op k old"
    "k = Unlink_op \<and> info_cnt old = 1 \<Longrightarrow> info_cnt (obj_ref_info (p_heap s) o') = 0"
    using inv i ph by (auto simp: inv_def phase_ok_def dest!: bspec [of _ _ i])
  have r: "a + 8 \<noteq> ref" using sep a P(2) by (auto simp: separate_def)
  define h0 where "h0 = bump_era (client i) (set_cell ref (case k of Link_op \<Rightarrow> o' | Unlink_op \<Rightarrow> 0) (p_heap s))"
  have h0: "obj_ref_info h0 a = obj_ref_info (p_heap s) a" using r by (simp add: h0_def obj_ref_info_def)
  show "info_cnt (obj_ref_info (p_heap (enter i ph' h s)) a) = info_cnt (obj_ref_info (p_heap s) a)"
  proof (cases "h = h0")
    case True
    then show ?thesis using h0 by simp
  next
    case False
    then have k: "k = Unlink_op" "\<not> info_cnt old - 1 > 0" "cxl_free (client i) False o' h0 = Inr h"
      using fin by (cases k; auto simp: finish_def link_finish_def unlink_finish_def Let_def h0_def
          info_cnt_def split: if_splits)+
    note F = free_object_frame [OF k(3)]
    have "info_cnt old = 1" using k(2) by (simp add: word_greater_zero_iff)
    then have z: "info_cnt (obj_ref_info (p_heap s) o') = 0" using P(4) k(1) by blast
    show ?thesis
    proof (cases "a = o'")
      case True
      then show ?thesis using F(1) z by (simp add: obj_ref_info_def)
    next
      case False
      have "h_cell h (a + 8) = h_cell h0 (a + 8)"
        using sep a P(1) False by (intro F(2)) (auto simp: separate_def)
      then show ?thesis using h0 by (simp add: obj_ref_info_def)
    qed
  qed
qed

lemma act_counts:
  assumes "act Objs Refs e s s'" and sep: "separate Objs Refs" and inv: "inv Objs Refs s"
  shows "count_step e (counts Objs s) (counts Objs s')"
  using assms(1)
proof cases
  case (prepare_act i k ref o' old new h)
  have "h_cell h = h_cell (p_heap s)"
    using prepare_act by (cases k) (auto simp: prepare_def link_prepare_def unlink_prepare_def Let_def)
  then have "counts Objs s' = counts Objs s"
    unfolding prepare_act(2) by (intro counts_same) (simp add: obj_ref_info_def)
  then show ?thesis using prepare_act(1) count_other by simp
next
  case swap_act
  then show ?thesis using swap_counts [OF inv] by blast
next
  case fail_act
  then have "counts Objs s' = counts Objs s" by (simp add: counts_def fun_eq_iff)
  then show ?thesis using fail_act(1) count_other by simp
next
  case finish_act
  then show ?thesis using finish_counts [OF inv sep] count_other [of "counts Objs s"] by fastforce
next
  case (alloc_act i o' page emb)
  let ?h = "block_to_cxlobj (client i) o' page emb (p_heap s)"
  have tb: "h_cell (take_block o' page h) = h_cell h" "h_era (take_block o' page h) = h_era h" for h
    by (simp_all add: take_block_def Let_def)
  have "counts Objs (enter i Idle ?h s) = (counts Objs s)(o' := unat (info_cnt (obj_ref_info ?h o')))"
    using sep alloc_act(5) counts_upd [of Objs o' "enter i Idle ?h s" s]
    by (simp add: separate_def block_to_cxlobj_def Let_def obj_ref_info_def tb)
  moreover have "info_cnt (obj_ref_info ?h o') = 1"
    using info_pack(2) [OF alloc_act(3), of 1 "own (p_heap s) i"] alloc_act(3)
    by (simp add: block_to_cxlobj_def Let_def obj_ref_info_def tb seen_def)
  moreover have "counts Objs s o' = 0" using alloc_act(6) by (simp add: counts_def)
  ultimately show ?thesis unfolding alloc_act(1,2) using count_alloc [of "counts Objs s" o'] by simp
next
  case (clear_act i)
  then have "counts Objs s' = counts Objs s" by (simp add: counts_def clear_redo_def obj_ref_info_def fun_eq_iff)
  then show ?thesis using clear_act(1) count_other by simp
qed

text \<open>
  C13. The protocol refines atomic counters. Along every run of any number of clients, with
  all interleavings of their reads, logs, swaps and stores, the counts in the objects' words
  change as the counters do under the same events: an allocation sets the count to 1, a link or
  unlink whose client goes on as if its swap took effect changes it by exactly one, and no other
  step changes it. So the count in an object's word is the number of its allocations and links
  less that of its unlinks, none of them lost to a concurrent one.
\<close>

theorem protocol_refines_counters:
  assumes "runs (act Objs Refs) s0 es s" and "separate Objs Refs" and "proto_init Objs s0"
  shows "runs count_step (\<lambda>_. 0) es (counts Objs s)
    \<and> (\<forall>a. counts Objs s a + count_list es (Changed Unlink_op a)
        = count_list es (Allocated a) + count_list es (Changed Link_op a))"
proof -
  have "runs count_step (counts Objs s0) es (counts Objs s)"
    using assms(1) inv_init [OF assms(3), of Refs]
  proof (induction rule: runs.induct)
    case (go e s s1 es s2)
    show ?case
      by (rule runs.go, rule act_counts [OF go.hyps(1) assms(2) go.prems])
        (rule go.IH [OF inv_act [OF go.hyps(1) assms(2) go.prems]])
  qed (rule runs.stop)
  moreover have "counts Objs s0 = (\<lambda>_. 0)" using assms(3) by (auto simp: counts_def proto_init_def)
  ultimately have "runs count_step (\<lambda>_. 0) es (counts Objs s)" by simp
  then show ?thesis using count_balance [of "\<lambda>_. 0" es] by simp
qed

theorem protocol_refines_counters_witness:
  "\<exists>s. runs (act {4096} {512}) demo_proto [Allocated 4096, Internal, Changed Link_op 4096] s \<and> swapped (p_phase s 1)
    \<and> counts {4096} s 4096 = 2"
proof -
  obtain s old where s: "runs (act {4096} {512}) demo_proto [Allocated 4096, Internal, Changed Link_op 4096] s"
      "p_phase s 1 = Swapped Link_op 512 4096 old"
    using demo_acts by blast
  then show ?thesis
    using protocol_refines_counters [OF s(1) demo_init(2,1)] by auto
qed

end
