(* ===== verification/Hash_Index.thy ===== *)
theory Hash_Index
  imports Ref_Count
begin

text \<open>
  The key-value index (\<open>src/hash_index.cpp\<close>): one table of buckets per client, each bucket a
  list of nodes. A node is an object whose data is the key, the value and the link to the
  next node; a client puts into its own table and gets from the table the key's upper byte
  names.
\<close>

section \<open>Operations\<close>

definition node_data :: "u64 \<Rightarrow> u64" where "node_data n = n + sizeof_CXLObj"

definition put_bucket :: "cxl_shm \<Rightarrow> u64 \<Rightarrow> u64" where
  "put_bucket sh key =
     (let hash_offset = key AND (push_bit 17 1 - 1)
      in HASH_TABLE_START + ucast (shm_thread_id sh - 1) * HASH_TABLE_SIZE + 8 * hash_offset)"

definition get_bucket :: "u64 \<Rightarrow> u64" where
  "get_bucket key =
     (let partion_id = drop_bit 56 key;
          hash_offset = key AND (push_bit 17 1 - 1)
      in HASH_TABLE_START + partion_id * HASH_TABLE_SIZE + 8 * hash_offset)"

text \<open>
  The walk of both: the cell that holds the link at which it stops, and whether the node
  there has the key. The list may be cyclic in a damaged region: fuel.
\<close>

fun find_entry :: "nat \<Rightarrow> u64 \<Rightarrow> u64 \<Rightarrow> shm_heap \<Rightarrow> fault + (u64 \<times> bool)" where
  "find_entry 0 key entry h = Inl Out_Of_Fuel"
| "find_entry (Suc n) key entry h =
     (if h_cell h entry \<noteq> 0
      then let data = node_data (h_cell h entry)
           in if h_cell h data = key then Inr (entry, True)
              else find_entry n key (data + 16) h
      else Inr (entry, False))"

text \<open>
  A new node's \<open>ref_info\<close> carries count 0 and the client's current era, which is not
  advanced before the bucket's reference to the node is linked.
\<close>

definition put_node :: "cxl_shm \<Rightarrow> u64 \<Rightarrow> u64 \<Rightarrow> u64 \<Rightarrow> u64 \<Rightarrow> shm_heap \<Rightarrow> shm_heap" where
  "put_node sh block page key val h =
     (let h = take_block block page h;
          h = set_cell (block + 8)
                (pack_ref_info (ucast (shm_thread_id sh)) 0 (h_era h (own_era sh))) h;
          h = set_cell (block + 16) 0 h;
          data = node_data block;
          h = set_cell data key h;
          h = set_cell (data + 8) val h
      in set_cell (data + 16) 0 h)"

definition put :: "nat \<Rightarrow> cxl_shm \<Rightarrow> u64 \<Rightarrow> u64 \<Rightarrow> shm_heap \<Rightarrow> fault + shm_heap" where
  "put fuel sh key val h =
     bnd (find_entry fuel key (put_bucket sh key) h) (\<lambda>(entry, found).
       if found then Inr (set_cell (node_data (h_cell h entry) + 8) val h)
       else
         bnd (cxl_page_queue False (3 * 8 + sizeof_CXLObj)) (\<lambda>pq.
         let page = cxl_find_page sh pq h
         in bnd (cxl_page_malloc fuel sh pq page h) (\<lambda>(block, page, h).
            bnd (deref page) (\<lambda>page.
            bnd (deref block) (\<lambda>block.
              let h = put_node sh block page key val h
              in Inr (link_reference sh entry block h))))))"

definition get :: "nat \<Rightarrow> u64 \<Rightarrow> shm_heap \<Rightarrow> fault + u64 option" where
  "get fuel key h =
     bnd (find_entry fuel key (get_bucket key) h) (\<lambda>(entry, found).
       if found then Inr (Some (h_cell h (node_data (h_cell h entry) + 8))) else Inr None)"

end
