(* ===== verification/Block_Lists.thy ===== *)
theory Block_Lists
  imports Alloc
begin

text \<open>
  The allocator's view of the region: which blocks stand in which list (the free list and the
  local list of each page, the foreign list of each segment). \<open>alloc_inv h V\<close> says that the
  lists of \<open>h\<close> are those of \<open>V\<close>, that every listed block is a block of its page, that no
  block stands in two lists, and that each page's use count is the number of its blocks
  outside its own lists. A block is live when it is in no list; each operation moves blocks
  between the lists and the live ones.
\<close>

section \<open>Blocks of a page\<close>

definition bsize :: "shm_heap \<Rightarrow> u64 \<Rightarrow> nat" where
  "bsize h p = unat (pg_block_size (h_page h p))"

definition page_cap :: "shm_heap \<Rightarrow> u64 \<Rightarrow> nat" where "page_cap h p = 65536 div bsize h p"

definition block_in :: "shm_heap \<Rightarrow> u64 \<Rightarrow> u64 \<Rightarrow> bool" where
  "block_in h p b \<longleftrightarrow> (\<exists>s j k. s < MAX_SEGMENT_NUM \<and> j < PAGES_PER_SEGMENT \<and> p = meta_at (seg_at s) j
     \<and> b = page_area (seg_at s) j + of_nat (k * bsize h p) \<and> k < page_cap h p \<and> 8 \<le> bsize h p)"

lemma block_inE:
  assumes "block_in h p b"
  obtains s j k where "s < MAX_SEGMENT_NUM" "j < PAGES_PER_SEGMENT" "p = meta_at (seg_at s) j"
    "b = page_area (seg_at s) j + of_nat (k * bsize h p)" "k * bsize h p + bsize h p \<le> 65536"
    "k < page_cap h p" "8 \<le> bsize h p"
proof -
  from assms obtain s j k where b: "s < MAX_SEGMENT_NUM" "j < PAGES_PER_SEGMENT" "p = meta_at (seg_at s) j"
    "b = page_area (seg_at s) j + of_nat (k * bsize h p)" "k < page_cap h p" "8 \<le> bsize h p"
    by (auto simp: block_in_def)
  have "(k + 1) * bsize h p \<le> page_cap h p * bsize h p" using b(5) by (intro mult_le_mono1) simp
  also have "\<dots> \<le> 65536" by (simp add: page_cap_def)
  finally have "k * bsize h p + bsize h p \<le> 65536" by simp
  then show ?thesis using that b by blast
qed

lemma block_in_page:
  assumes "block_in h p b" and "d < bsize h p"
  shows "cxl_ptr_page (b + of_nat d) = p"
proof -
  from assms(1) obtain s j k where b: "s < MAX_SEGMENT_NUM" "j < PAGES_PER_SEGMENT" "p = meta_at (seg_at s) j"
    "b = page_area (seg_at s) j + of_nat (k * bsize h p)" "k * bsize h p + bsize h p \<le> 65536" by (rule block_inE)
  have eq: "b + of_nat d = page_area (seg_at s) j + of_nat (k * bsize h p + d)" unfolding b(4) by simp
  have "k * bsize h p + d < 2 ^ 16" using b(5) assms(2) by simp
  then show ?thesis unfolding eq b(3) [symmetric] using cxl_ptr_page_in [OF b(1,2)] b(3) by metis
qed

lemma block_in_ptr_page: "block_in h p b \<Longrightarrow> cxl_ptr_page b = p"
  using block_in_page [of h p b 0] by (auto elim!: block_inE)

text \<open>No block starts inside another.\<close>

lemma block_in_inside:
  assumes b: "block_in h p b" and b': "block_in h p' b'" and eq: "b' = b + of_nat d" and d: "d < bsize h p"
  shows "b' = b"
proof -
  have "p' = p" using block_in_ptr_page [OF b'] block_in_page [OF b d] eq by simp
  from b obtain s j k where k: "s < MAX_SEGMENT_NUM" "j < PAGES_PER_SEGMENT" "p = meta_at (seg_at s) j"
    "b = page_area (seg_at s) j + of_nat (k * bsize h p)" "k * bsize h p + bsize h p \<le> 65536" by (rule block_inE)
  from b' obtain s' j' k' where k': "s' < MAX_SEGMENT_NUM" "j' < PAGES_PER_SEGMENT" "p' = meta_at (seg_at s') j'"
    "b' = page_area (seg_at s') j' + of_nat (k' * bsize h p')" "k' * bsize h p' + bsize h p' \<le> 65536" by (rule block_inE)
  have "meta_at (seg_at s') j' = meta_at (seg_at s) j" unfolding k(3) [symmetric] k'(3) [symmetric] by (rule \<open>p' = p\<close>)
  then have sj: "s' = s" "j' = j" unfolding meta_at_inj [OF k'(1,2) k(1,2)] by blast+
  let ?B = "2 ^ 27 + s * 2 ^ 26 + j * 2 ^ 16"
  have "of_nat (?B + k' * bsize h p) = (of_nat (?B + (k * bsize h p + d)) :: u64)"
    using eq k(4) k'(4) sj \<open>p' = p\<close> by (simp add: page_area_nat)
  moreover have "?B + k' * bsize h p < 2 ^ 64" "?B + (k * bsize h p + d) < 2 ^ 64"
    using k(1,2,5) k'(5) d \<open>p' = p\<close> by (simp_all add: layout)
  ultimately have "k' * bsize h p = k * bsize h p + d" using of_nat_eq_64 by (metis add_left_cancel)
  then have "k' = k" using digit_div [OF d, of k] d by (metis add.right_neutral digit_div gr_implies_not0 gr0I)
  then show ?thesis unfolding k(4) k'(4) sj \<open>p' = p\<close> by simp
qed

lemma card_blocks:
  assumes "block_in h p b"
  shows "finite {b. block_in h p b}" "card {b. block_in h p b} \<le> page_cap h p"
proof -
  from assms obtain s j where p: "s < MAX_SEGMENT_NUM" "j < PAGES_PER_SEGMENT" "p = meta_at (seg_at s) j"
    by (rule block_inE)
  have sub: "{b. block_in h p b} \<subseteq> (\<lambda>k. page_area (seg_at s) j + of_nat (k * bsize h p)) ` {..<page_cap h p}"
  proof
    fix b assume "b \<in> {b. block_in h p b}"
    then obtain s' j' k where b: "s' < MAX_SEGMENT_NUM" "j' < PAGES_PER_SEGMENT" "p = meta_at (seg_at s') j'"
      "b = page_area (seg_at s') j' + of_nat (k * bsize h p)" "k < page_cap h p" by (auto simp: block_in_def)
    have "meta_at (seg_at s') j' = meta_at (seg_at s) j" unfolding b(3) [symmetric] p(3) [symmetric] ..
    then have sj: "s' = s" "j' = j" unfolding meta_at_inj [OF b(1,2) p(1,2)] by blast+
    show "b \<in> (\<lambda>k. page_area (seg_at s) j + of_nat (k * bsize h p)) ` {..<page_cap h p}"
      unfolding b(4) sj using b(5) by blast
  qed
  show "finite {b. block_in h p b}" by (rule finite_subset [OF sub]) simp
  have "card {b. block_in h p b} \<le> card ((\<lambda>k. page_area (seg_at s) j + of_nat (k * bsize h p)) ` {..<page_cap h p})"
    using sub by (rule card_mono [rotated]) simp
  also have "\<dots> \<le> page_cap h p" using card_image_le [of "{..<page_cap h p}"] by simp
  finally show "card {b. block_in h p b} \<le> page_cap h p" .
qed

section \<open>The lists of free blocks\<close>

record block_lists =
  bl_free :: "u64 \<Rightarrow> u64 list"
  bl_local :: "u64 \<Rightarrow> u64 list"
  bl_foreign :: "u64 \<Rightarrow> u64 list"

definition listed :: "block_lists \<Rightarrow> u64 \<Rightarrow> bool" where
  "listed V b \<longleftrightarrow> b \<in> set (bl_free V (cxl_ptr_page b)) \<or> b \<in> set (bl_local V (cxl_ptr_page b))
     \<or> b \<in> set (bl_foreign V (sas_of_segment (cxl_ptr_segment b)))"

definition lists_of :: "shm_heap \<Rightarrow> block_lists \<Rightarrow> bool" where
  "lists_of h V \<longleftrightarrow> (\<forall>p. chain (h_cell h) (pg_free (h_page h p)) (bl_free V p))
     \<and> (\<forall>p. chain (h_cell h) (pg_local_free (h_page h p)) (bl_local V p))
     \<and> (\<forall>a. chain (h_cell h) (sf_thread_free (sas_info (h_sas h a))) (bl_foreign V a))"

definition placed :: "shm_heap \<Rightarrow> block_lists \<Rightarrow> bool" where
  "placed h V \<longleftrightarrow> (\<forall>p. \<forall>b \<in> set (bl_free V p) \<union> set (bl_local V p). block_in h p b)
     \<and> (\<forall>a. \<forall>b \<in> set (bl_foreign V a). block_in h (cxl_ptr_page b) b \<and> sas_of_segment (cxl_ptr_segment b) = a)"

definition disjoint :: "block_lists \<Rightarrow> bool" where
  "disjoint V \<longleftrightarrow> (\<forall>p. set (bl_free V p) \<inter> set (bl_local V p) = {})
     \<and> (\<forall>p a. set (bl_foreign V a) \<inter> (set (bl_free V p) \<union> set (bl_local V p)) = {})"

definition counted :: "shm_heap \<Rightarrow> block_lists \<Rightarrow> bool" where
  "counted h V \<longleftrightarrow> (\<forall>p. bsize h p \<noteq> 0 \<longrightarrow>
     unat (pg_used (h_page h p)) + length (bl_free V p) + length (bl_local V p) = page_cap h p)"

definition alloc_inv :: "shm_heap \<Rightarrow> block_lists \<Rightarrow> bool" where
  "alloc_inv h V \<longleftrightarrow> lists_of h V \<and> placed h V \<and> disjoint V \<and> counted h V"

lemma placedD:
  assumes "placed h V"
  shows "b \<in> set (bl_free V p) \<Longrightarrow> block_in h p b" "b \<in> set (bl_local V p) \<Longrightarrow> block_in h p b"
    and "b \<in> set (bl_foreign V a) \<Longrightarrow> block_in h (cxl_ptr_page b) b"
    and "b \<in> set (bl_foreign V a) \<Longrightarrow> sas_of_segment (cxl_ptr_segment b) = a"
  using assms unfolding placed_def by blast+

lemma disjointD:
  assumes "disjoint V"
  shows "b \<in> set (bl_free V p) \<Longrightarrow> b \<notin> set (bl_local V p)" "b \<in> set (bl_foreign V a) \<Longrightarrow> b \<notin> set (bl_free V p)"
    and "b \<in> set (bl_foreign V a) \<Longrightarrow> b \<notin> set (bl_local V p)"
  using assms unfolding disjoint_def by blast+

lemma listed_iff:
  assumes "placed h V"
  shows "listed V b \<longleftrightarrow> (\<exists>p. b \<in> set (bl_free V p) \<or> b \<in> set (bl_local V p)) \<or> (\<exists>a. b \<in> set (bl_foreign V a))"
proof -
  have "cxl_ptr_page b = p" if "b \<in> set (bl_free V p) \<or> b \<in> set (bl_local V p)" for p
    using assms that block_in_ptr_page unfolding placed_def by blast
  moreover have "sas_of_segment (cxl_ptr_segment b) = a" if "b \<in> set (bl_foreign V a)" for a
    using assms that unfolding placed_def by blast
  ultimately show ?thesis unfolding listed_def by metis
qed

text \<open>Writes that miss the first cell of every listed block keep the lists.\<close>

lemma alloc_inv_cells:
  assumes "alloc_inv h V" and "h_page h' = h_page h" and "h_sas h' = h_sas h"
    and "\<And>b. listed V b \<Longrightarrow> h_cell h' b = h_cell h b"
  shows "alloc_inv h' V"
proof -
  have pl: "placed h V" using assms(1) by (simp add: alloc_inv_def)
  have bi: "block_in h' = block_in h" "bsize h' = bsize h" "page_cap h' = page_cap h"
    using assms(2) by (simp_all add: block_in_def bsize_def page_cap_def fun_eq_iff)
  have c: "chain (h_cell h') x xs \<longleftrightarrow> chain (h_cell h) x xs" if "\<And>b. b \<in> set xs \<Longrightarrow> listed V b" for x xs
    by (rule chain_cong) (use that assms(4) in blast)
  have "lists_of h' V"
    using assms(1) listed_iff [OF pl] unfolding alloc_inv_def lists_of_def assms(2,3)
    by (intro conjI allI; subst c; blast)
  then show ?thesis
    using assms(1,2) by (simp add: alloc_inv_def placed_def counted_def bi)
qed

lemma block_write_misses:
  assumes "alloc_inv h V" and "block_in h p b" and "\<not> listed V b" and "d < bsize h p" and "listed V b'"
  shows "b + of_nat d \<noteq> b'"
proof
  assume eq: "b + of_nat d = b'"
  have pl: "placed h V" using assms(1) by (simp add: alloc_inv_def)
  obtain p' where "block_in h p' b'" using assms(5) pl unfolding listed_def placed_def by blast
  from block_in_inside [OF assms(2) this _ assms(4)] eq have "b' = b" by simp
  with assms(3,5) show False by simp
qed

lemma alloc_inv_write:
  assumes "alloc_inv h V" and "block_in h p b" and "\<not> listed V b" and "d < bsize h p"
  shows "alloc_inv (set_cell (b + of_nat d) v h) V"
  using block_write_misses [OF assms] by (intro alloc_inv_cells [OF assms(1)]) auto

section \<open>Taking and giving back\<close>

lemma alloc_inv_take:
  assumes inv: "alloc_inv h V" and f: "bl_free V p = b # fs"
  shows "alloc_inv (take_block b p h) (V\<lparr>bl_free := (bl_free V)(p := fs)\<rparr>)"
    and "\<not> listed (V\<lparr>bl_free := (bl_free V)(p := fs)\<rparr>) b" and "block_in h p b" and "block_in (take_block b p h) = block_in h"
proof -
  let ?h = "take_block b p h" and ?V = "V\<lparr>bl_free := (bl_free V)(p := fs)\<rparr>"
  have I: "lists_of h V" "placed h V" "disjoint V" "counted h V" using inv by (simp_all add: alloc_inv_def)
  have c: "chain (h_cell h) (pg_free (h_page h p)) (b # fs)" using I(1) f unfolding lists_of_def by metis
  then have nx: "chain (h_cell h) (h_cell h b) fs" "b \<notin> set fs" using chain_distinct [OF c] by simp_all
  show bi: "block_in h p b" using I(2) f by (auto simp: placed_def)
  have same: "bsize ?h = bsize h" "page_cap ?h = page_cap h" "block_in ?h = block_in h"
    by (auto simp: fun_eq_iff bsize_def page_cap_def block_in_def take_block_def Let_def)
  then show "block_in ?h = block_in h" by blast
  have pg: "h_page ?h q = (if q = p then (h_page h p)\<lparr>pg_used := pg_used (h_page h p) + 1, pg_free := h_cell h b\<rparr> else h_page h q)" for q
    by (simp add: take_block_def Let_def blk_next_def)
  have eq: "h_cell ?h = h_cell h" "h_sas ?h = h_sas h" by (simp_all add: take_block_def Let_def)
  have "lists_of ?h ?V" using I(1) nx by (auto simp: lists_of_def pg eq)
  moreover have "placed ?h ?V" using I(2) f by (auto simp: placed_def same)
  moreover have "set (bl_free ?V q) \<subseteq> set (bl_free V q)" for q using f by auto
  then have "disjoint ?V" using I(3) unfolding disjoint_def by fastforce
  moreover have "counted ?h ?V"
  proof -
    have "bsize h p \<noteq> 0" using bi by (auto elim: block_inE)
    then have u: "unat (pg_used (h_page h p)) + 1 + length fs + length (bl_local V p) = page_cap h p"
      using I(4) f by (auto simp: counted_def dest: spec [of _ p])
    moreover have "page_cap h p \<le> 65536" by (simp add: page_cap_def)
    ultimately have s: "unat (pg_used (h_page h p) + 1) = unat (pg_used (h_page h p)) + 1"
      by (simp add: unat_word_ariths)
    show ?thesis using I(4) u s by (auto simp: counted_def same pg)
  qed
  ultimately show "alloc_inv ?h ?V" by (simp add: alloc_inv_def)
  show "\<not> listed ?V b"
  proof -
    have "set (b # fs) \<inter> set (bl_local V p) = {}" using I(3) f unfolding disjoint_def by metis
    moreover have "set (bl_foreign V a) \<inter> (set (b # fs) \<union> set (bl_local V p)) = {}" for a
      using I(3) f unfolding disjoint_def by metis
    ultimately have "b \<notin> set (bl_local V p)" "\<And>a. b \<notin> set (bl_foreign V a)" by auto
    then show ?thesis using nx(2) block_in_ptr_page [OF bi] by (simp add: listed_def)
  qed
qed

text \<open>A page with a block in no list has that block counted as used.\<close>

lemma unlisted_used:
  assumes inv: "alloc_inv h V" and b: "block_in h p b" and n: "\<not> listed V b"
  shows "0 < unat (pg_used (h_page h p))"
proof -
  have I: "lists_of h V" "placed h V" "disjoint V" "counted h V" using inv by (simp_all add: alloc_inv_def)
  let ?F = "set (bl_free V p)" and ?L = "set (bl_local V p)"
  have "distinct (bl_free V p)" "distinct (bl_local V p)"
    using I(1) chain_distinct unfolding lists_of_def by blast+
  then have c: "card ?F = length (bl_free V p)" "card ?L = length (bl_local V p)" by (simp_all add: distinct_card)
  have "?F \<inter> ?L = {}" using I(3) by (simp add: disjoint_def)
  then have "card (?F \<union> ?L) = length (bl_free V p) + length (bl_local V p)" by (simp add: card_Un_disjoint c)
  moreover have "?F \<union> ?L \<subset> {b. block_in h p b}"
  proof
    show "?F \<union> ?L \<subseteq> {b. block_in h p b}" using I(2) by (auto simp: placed_def)
    show "?F \<union> ?L \<noteq> {b. block_in h p b}"
      using b n block_in_ptr_page [OF b] by (auto simp: listed_def)
  qed
  then have "card (?F \<union> ?L) < card {b. block_in h p b}"
    using card_blocks(1) [OF b] by (rule psubset_card_mono [rotated])
  moreover have "bsize h p \<noteq> 0" using b by (auto elim: block_inE)
  ultimately show ?thesis
    using I(4) card_blocks(2) [OF b] by (auto simp: counted_def dest: spec [of _ p])
qed

definition push_local :: "u64 \<Rightarrow> u64 \<Rightarrow> shm_heap \<Rightarrow> shm_heap" where
  "push_local b p h =
     (let h = set_cell b (pg_local_free (h_page h p)) h;
          h = upd_page p (\<lambda>g. g\<lparr>pg_local_free := b\<rparr>) h
      in upd_page p (\<lambda>g. g\<lparr>pg_used := pg_used g - 1\<rparr>) h)"

lemma block_nonzero: "block_in h p b \<Longrightarrow> b \<noteq> 0"
proof (erule block_inE)
  fix s j k
  assume a: "s < MAX_SEGMENT_NUM" "j < PAGES_PER_SEGMENT" "b = page_area (seg_at s) j + of_nat (k * bsize h p)"
    "k * bsize h p + bsize h p \<le> 65536"
  have "b = of_nat (2 ^ 27 + s * 2 ^ 26 + j * 2 ^ 16 + k * bsize h p)" unfolding a(3) page_area_nat by simp
  moreover have "2 ^ 27 + s * 2 ^ 26 + j * 2 ^ 16 + k * bsize h p < 2 ^ 64" using a by (simp add: layout)
  ultimately have "unat b = 2 ^ 27 + s * 2 ^ 26 + j * 2 ^ 16 + k * bsize h p" using unat_of_nat_64 by blast
  then show "b \<noteq> 0" by auto
qed

lemma alloc_inv_push_local:
  assumes inv: "alloc_inv h V" and b: "block_in h p b" and n: "\<not> listed V b"
  defines "V' \<equiv> V\<lparr>bl_local := (bl_local V)(p := b # bl_local V p)\<rparr>"
  shows "alloc_inv (push_local b p h) V'" and "block_in (push_local b p h) = block_in h"
    and "unat (pg_used (h_page (push_local b p h) p)) = unat (pg_used (h_page h p)) - 1"
proof -
  let ?h = "push_local b p h"
  have I: "lists_of h V" "placed h V" "disjoint V" "counted h V" using inv by (simp_all add: alloc_inv_def)
  have same: "bsize ?h = bsize h" "page_cap ?h = page_cap h" "block_in ?h = block_in h"
    by (auto simp: fun_eq_iff bsize_def page_cap_def block_in_def push_local_def Let_def)
  then show "block_in ?h = block_in h" by blast
  have pg: "h_page ?h q = (if q = p then (h_page h p)\<lparr>pg_local_free := b, pg_used := pg_used (h_page h p) - 1\<rparr> else h_page h q)" for q
    by (simp add: push_local_def Let_def)
  have eq: "h_sas ?h = h_sas h" "h_cell ?h = (h_cell h)(b := pg_local_free (h_page h p))"
    by (simp_all add: push_local_def Let_def)
  have nl: "b \<notin> set (bl_free V q)" "b \<notin> set (bl_local V q)" "b \<notin> set (bl_foreign V a)" for q a
    using n unfolding listed_iff [OF I(2)] by blast+
  have u: "unat (pg_used (h_page h p) - 1) = unat (pg_used (h_page h p)) - 1"
    using unlisted_used [OF inv b n] by (simp add: unat_sub_if_size)
  then show "unat (pg_used (h_page ?h p)) = unat (pg_used (h_page h p)) - 1" by (simp add: pg)
  have "lists_of ?h V'"
    using I(1) nl block_nonzero [OF b] by (auto simp: lists_of_def pg eq V'_def)
  moreover have "placed ?h V'" using I(2) b by (auto simp: placed_def same V'_def)
  moreover have "disjoint V'" using I(3) nl by (auto simp: disjoint_def V'_def)
  moreover have "bsize h p \<noteq> 0" using b by (auto elim: block_inE)
  then have "unat (pg_used (h_page h p)) + length (bl_free V p) + length (bl_local V p) = page_cap h p"
    using I(4) by (simp add: counted_def)
  then have "counted ?h V'"
    using I(4) u unlisted_used [OF inv b n] by (auto simp: counted_def same pg V'_def)
  ultimately show "alloc_inv ?h V'" by (simp add: alloc_inv_def)
qed

lemma alloc_inv_push_foreign:
  assumes inv: "alloc_inv h V" and b: "block_in h p b" and n: "\<not> listed V b"
    and st: "sf_state (sas_info (h_sas h (sas_of_segment (cxl_ptr_segment b)))) \<noteq> segment_state_code POTENTIAL_LEAKING"
  defines "a \<equiv> sas_of_segment (cxl_ptr_segment b)"
  defines "V' \<equiv> V\<lparr>bl_foreign := (bl_foreign V)(a := b # bl_foreign V a)\<rparr>"
  shows "alloc_inv (push_foreign b h) V'"
proof -
  let ?h = "push_foreign b h"
  have I: "lists_of h V" "placed h V" "disjoint V" "counted h V" using inv by (simp_all add: alloc_inv_def)
  have pg: "h_page ?h = h_page h" by (simp add: push_foreign_def Let_def)
  have same: "bsize ?h = bsize h" "page_cap ?h = page_cap h" "block_in ?h = block_in h"
    by (auto simp: fun_eq_iff bsize_def page_cap_def block_in_def pg)
  have eq: "h_cell ?h = (h_cell h)(b := sf_thread_free (sas_info (h_sas h a)))"
    "sf_thread_free (sas_info (h_sas ?h x)) = (if x = a then b else sf_thread_free (sas_info (h_sas h x)))" for x
    using st by (simp_all add: push_foreign_def Let_def a_def)
  have nl: "b \<notin> set (bl_free V q)" "b \<notin> set (bl_local V q)" "b \<notin> set (bl_foreign V x)" for q x
    using n unfolding listed_iff [OF I(2)] by blast+
  have "lists_of ?h V'"
    using I(1) nl block_nonzero [OF b] by (auto simp: lists_of_def pg eq V'_def)
  moreover have "placed ?h V'"
    using I(2) b block_in_ptr_page [OF b] by (auto simp: placed_def same V'_def a_def)
  moreover have "disjoint V'" using I(3) nl by (auto simp: disjoint_def V'_def)
  moreover have "counted ?h V'" using I(4) by (simp add: counted_def same pg V'_def)
  ultimately show ?thesis by (simp add: alloc_inv_def)
qed

section \<open>Allocation from the first page of a bin\<close>

definition drop_free :: "u64 \<Rightarrow> block_lists \<Rightarrow> block_lists" where
  "drop_free p V = V\<lparr>bl_free := (bl_free V)(p := tl (bl_free V p))\<rparr>"

lemma find_page_hit:
  assumes "cxl_find_page sh pq h = Some p" and "lists_of h V"
  obtains b fs where "bl_free V p = b # fs" "pg_free (h_page h p) = b" "b \<noteq> 0" "page_block p h = Some b"
proof -
  have nz: "pg_free (h_page h p) \<noteq> 0"
    using assms(1) by (auto simp: cxl_find_page_def split: option.splits)
  moreover have "chain (h_cell h) (pg_free (h_page h p)) (bl_free V p)" using assms(2) by (simp add: lists_of_def)
  ultimately show ?thesis using that by (auto simp: chain_nonnull page_block_def)
qed

lemma listed_drop_free:
  assumes "alloc_inv h V" and "bl_free V p = b # fs"
  shows "listed (drop_free p V) x \<longleftrightarrow> listed V x \<and> x \<noteq> b"
proof -
  note T = alloc_inv_take [OF assms]
  have V': "drop_free p V = V\<lparr>bl_free := (bl_free V)(p := fs)\<rparr>" using assms(2) by (simp add: drop_free_def)
  have "listed (drop_free p V) x" if "listed V x" "x \<noteq> b"
    using that assms(2) by (auto simp: listed_def drop_free_def)
  moreover have "listed V x" if "listed (drop_free p V) x"
    using that assms(2) by (auto simp: listed_def drop_free_def split: if_splits)
  ultimately show ?thesis using T(2) V' by metis
qed

lemma take_block_frame [simp]:
  "h_cell (take_block b p h) = h_cell h" "h_era (take_block b p h) = h_era h"
  "h_tls (take_block b p h) = h_tls h" "h_sas (take_block b p h) = h_sas h"
  "h_seg (take_block b p h) = h_seg h" "q \<noteq> p \<Longrightarrow> h_page (take_block b p h) q = h_page h q"
  by (simp_all add: take_block_def Let_def)

text \<open>A root reference.\<close>

lemma block_to_tbr_step:
  assumes inv: "alloc_inv h V" and f: "bl_free V p = b # fs" and n: "16 \<le> bsize h p"
  shows "alloc_inv (block_to_tbr b p h) (drop_free p V)" "block_in (block_to_tbr b p h) = block_in h"
    and "rr_pptr (block_to_tbr b p h) b = 0" "rr_in_use (block_to_tbr b p h) b = 1" "rr_ref_cnt (block_to_tbr b p h) b = 0"
    and "h_tls (block_to_tbr b p h) = h_tls h" "h_era (block_to_tbr b p h) = h_era h"
    and "\<And>q. q \<noteq> p \<Longrightarrow> h_page (block_to_tbr b p h) q = h_page h q" "bsize (block_to_tbr b p h) = bsize h"
proof -
  note T = alloc_inv_take [OF inv f]
  have V': "V\<lparr>bl_free := (bl_free V)(p := fs)\<rparr> = drop_free p V" using f by (simp add: drop_free_def)
  let ?t = "take_block b p h"
  have bs: "bsize ?t = bsize h" by (auto simp: fun_eq_iff bsize_def take_block_def Let_def)
  have bi: "block_in ?t p b" using T(3,4) by simp
  have w: "alloc_inv (set_cell (b + of_nat d) v h') (drop_free p V)"
    if "alloc_inv h' (drop_free p V)" "h_page h' = h_page ?t" "d < 16" for h' d v
  proof -
    have "block_in h' = block_in ?t" "bsize h' = bsize ?t" using that(2)
      by (simp_all add: block_in_def bsize_def page_cap_def fun_eq_iff)
    then show ?thesis
      using alloc_inv_write [OF that(1), of p b d v] bi T(2) V' n that(3) bs by simp
  qed
  note w0 = w [of _ 0, simplified] and w8 = w [of _ 8, simplified]
  show "alloc_inv (block_to_tbr b p h) (drop_free p V)"
    unfolding block_to_tbr_def Let_def set_rr_in_use_def set_rr_ref_cnt_def
    using T(1) V' by (intro w8 w0) simp_all
  show "block_in (block_to_tbr b p h) = block_in h" "bsize (block_to_tbr b p h) = bsize h"
    unfolding T(4) [symmetric] bs [symmetric]
    by (simp_all add: block_in_def bsize_def page_cap_def fun_eq_iff block_to_tbr_def Let_def
        set_rr_in_use_def set_rr_ref_cnt_def)
  show "rr_pptr (block_to_tbr b p h) b = 0" "rr_in_use (block_to_tbr b p h) b = 1" "rr_ref_cnt (block_to_tbr b p h) b = 0"
    by (simp_all add: block_to_tbr_def Let_def) (simp add: rr_pptr_def)
  show "h_tls (block_to_tbr b p h) = h_tls h" "h_era (block_to_tbr b p h) = h_era h"
    "\<And>q. q \<noteq> p \<Longrightarrow> h_page (block_to_tbr b p h) q = h_page h q"
    by (simp_all add: block_to_tbr_def Let_def set_rr_in_use_def set_rr_ref_cnt_def)
qed

lemma tbr_alloc_step:
  assumes inv: "alloc_inv h V" and p: "cxl_find_page sh 0 h = Some p" and n: "bsize h p = 16"
  shows "\<exists>b. thread_base_ref_alloc fuel sh h = Inr (Some b, block_to_tbr b p h) \<and> bl_free V p = b # tl (bl_free V p)"
proof -
  have "lists_of h V" using inv by (simp add: alloc_inv_def)
  from find_page_hit [OF p this] obtain b fs where b: "bl_free V p = b # fs" "page_block p h = Some b" by blast
  then show ?thesis by (simp add: thread_base_ref_alloc_def p cxl_page_malloc_def)
qed

end
