(* ===== verification/Malloc.thy ===== *)
theory Malloc
  imports Block_Lists
begin

text \<open>
  Allocation and release of blocks against the lists of \<open>Block_Lists\<close>.
\<close>

lemma other_page_cells:
  assumes "block_in h p b" "block_in h q c" "p \<noteq> q" "d < bsize h p" "e < bsize h q"
  shows "b + of_nat d \<noteq> c + of_nat e"
  using block_in_page [OF assms(1,4)] block_in_page [OF assms(2,5)] assms(3) by metis

text \<open>An object, linked to a root reference in another page.\<close>

lemma block_to_cxlobj_step:
  fixes sh :: cxl_shm and emb :: u64
  assumes inv: "alloc_inv h V" and f: "bl_free V p = ob # fs" and n: "24 \<le> bsize h p"
    and r: "block_in h q r" "\<not> listed V r" "16 \<le> bsize h q" "q \<noteq> p"
  defines "h' \<equiv> block_to_cxlobj sh ob p emb (link_block_to_tbr ob r h)"
  shows "alloc_inv h' (drop_free p V)"
    and "obj_ref_info h' ob = pack_ref_info (ucast (shm_thread_id sh)) 1 (h_era h (own_era sh))"
    and "obj_embedded h' ob = emb" and "rr_pptr h' r = ob" and "rr_ref_cnt h' r = rr_ref_cnt h r + 1"
    and "rr_in_use h' r = rr_in_use h r" and "h_era h' (own_era sh) = h_era h (own_era sh) + 1"
proof -
  let ?l = "link_block_to_tbr ob r h"
  have pg: "h_page ?l = h_page h" "h_sas ?l = h_sas h" "h_era ?l = h_era h"
    by (simp_all add: link_block_to_tbr_def Let_def set_rr_ref_cnt_def)
  have same: "bsize ?l = bsize h" "block_in ?l = block_in h"
    by (simp_all add: bsize_def block_in_def page_cap_def pg fun_eq_iff)
  have cell: "h_cell ?l c = h_cell h c" if "c \<noteq> r" "c \<noteq> r + 8" for c
    using that by (simp add: link_block_to_tbr_def Let_def set_rr_ref_cnt_def)
  have invl: "alloc_inv ?l V"
  proof (rule alloc_inv_cells [OF inv pg(1,2)])
    fix b assume "listed V b"
    then have "r + of_nat 0 \<noteq> b" "r + of_nat 8 \<noteq> b"
      using block_write_misses [OF inv r(1,2) _ \<open>listed V b\<close>, of 0]
        block_write_misses [OF inv r(1,2) _ \<open>listed V b\<close>, of 8] r(3) by simp_all
    then show "h_cell ?l b = h_cell h b" by (intro cell) auto
  qed
  note T = alloc_inv_take [OF invl f]
  have V': "V\<lparr>bl_free := (bl_free V)(p := fs)\<rparr> = drop_free p V" using f by (simp add: drop_free_def)
  let ?t = "take_block ob p ?l"
  have bt: "bsize ?t = bsize h" by (auto simp: fun_eq_iff bsize_def take_block_def Let_def pg)
  have bi: "block_in ?t p ob" "block_in h p ob" using T(3,4) same by simp_all
  have w: "alloc_inv (set_cell (ob + of_nat d) v g) (drop_free p V)"
    if "alloc_inv g (drop_free p V)" "h_page g = h_page ?t" "d < 24" for g d v
  proof -
    have "block_in g = block_in ?t" "bsize g = bsize ?t" using that(2)
      by (simp_all add: block_in_def bsize_def page_cap_def fun_eq_iff)
    then show ?thesis
      using alloc_inv_write [OF that(1), of p ob d v] bi T(2) V' n that(3) bt by simp
  qed
  note w8 = w [of _ 8, simplified] and w16 = w [of _ 16, simplified]
  have "alloc_inv (bump_era sh ?t) (drop_free p V)"
    by (rule alloc_inv_cells [OF T(1) [unfolded V']]) (simp_all add: bump_era_def)
  then show "alloc_inv h' (drop_free p V)"
    unfolding h'_def block_to_cxlobj_def Let_def by (intro w16 w8) (simp_all add: bump_era_def)
  show "obj_ref_info h' ob = pack_ref_info (ucast (shm_thread_id sh)) 1 (h_era h (own_era sh))"
    "obj_embedded h' ob = emb" "h_era h' (own_era sh) = h_era h (own_era sh) + 1"
    by (simp_all add: h'_def block_to_cxlobj_def Let_def obj_ref_info_def obj_embedded_def bump_era_def pg)
  have c': "h_cell h' c = h_cell ?l c" if "c = r \<or> c = r + 8" for c
  proof -
    have "r + of_nat d \<noteq> ob + of_nat e" if "d < 16" "e < 24" for d e
      using other_page_cells [OF r(1) bi(2) r(4), of d e] r(3) n that by simp
    from this [of 0 8] this [of 8 8] this [of 0 16] this [of 8 16] that show ?thesis
      by (auto simp: h'_def block_to_cxlobj_def Let_def bump_era_def)
  qed
  have L: "rr_pptr ?l r = ob" "rr_ref_cnt ?l r = rr_ref_cnt h r + 1" "rr_in_use ?l r = rr_in_use h r"
    by (simp_all add: link_block_to_tbr_def Let_def) (simp_all add: rr_pptr_def rr_ref_cnt_def rr_in_use_def)
  show "rr_pptr h' r = ob" "rr_ref_cnt h' r = rr_ref_cnt h r + 1" "rr_in_use h' r = rr_in_use h r"
    using L c' by (simp_all add: rr_pptr_def rr_ref_cnt_def rr_in_use_def)
qed

text \<open>
  While the first pages of the two bins have a free block, \<open>cxl_malloc\<close> succeeds. The
  root reference and the object it returns are two blocks that were free and are no longer
  in any list; every other free block stays in its list and no list is damaged; the root
  reference is in use, counts one handle and points to the object; the object has count 1
  and carries the client's id and era, and the era advances.
\<close>

lemma malloc_hands_out_fresh_blocks:
  assumes inv: "alloc_inv h V" and p1: "cxl_find_page sh 0 h = Some p1" "bsize h p1 = 16"
    and i: "cxl_page_queue False (data_size + sizeof_CXLObj) = Inr i"
    and p2: "cxl_find_page sh i h = Some p2" "24 \<le> bsize h p2"
    and tid: "unat (shm_thread_id sh) < 2 ^ 16"
  defines "V' \<equiv> drop_free p2 (drop_free p1 V)"
  shows "\<exists>r ob h'. cxl_malloc fuel sh data_size emb h = Inr (\<lparr>ref_tbr = r, ref_data = ob + sizeof_CXLObj\<rparr>, h')
    \<and> listed V r \<and> listed V ob \<and> r \<noteq> ob \<and> alloc_inv h' V'
    \<and> (\<forall>x. listed V' x \<longleftrightarrow> listed V x \<and> x \<noteq> r \<and> x \<noteq> ob)
    \<and> rr_pptr h' r = ob \<and> rr_in_use h' r = 1 \<and> rr_ref_cnt h' r = 1
    \<and> get_ref_cnt_from_info (obj_ref_info h' ob) = 1
    \<and> get_lcid_from_info (obj_ref_info h' ob) = ucast (shm_thread_id sh)
    \<and> get_lenum_from_info (obj_ref_info h' ob) = ucast (h_era h (own_era sh))
    \<and> obj_embedded h' ob = ucast emb \<and> h_era h' (own_era sh) = h_era h (own_era sh) + 1"
proof -
  have ne: "p1 \<noteq> p2" using p1(2) p2(2) by auto
  from tbr_alloc_step [OF inv p1, of fuel] obtain r where
    r: "thread_base_ref_alloc fuel sh h = Inr (Some r, block_to_tbr r p1 h)" "bl_free V p1 = r # tl (bl_free V p1)" by blast
  define h1 where "h1 = block_to_tbr r p1 h"
  note B = block_to_tbr_step [OF inv r(2), unfolded p1(2), OF order.refl, folded h1_def]
  have find: "cxl_find_page sh i h1 = Some p2"
    using p2(1) B(6) B(8) [of p2] ne by (auto simp: cxl_find_page_def split: option.splits)
  have "lists_of h1 (drop_free p1 V)" using B(1) by (simp add: alloc_inv_def)
  from find_page_hit [OF find this] obtain ob fs where
    ob: "bl_free (drop_free p1 V) p2 = ob # fs" "page_block p2 h1 = Some ob" by blast
  have ob': "bl_free V p2 = ob # fs" using ob(1) ne by (simp add: drop_free_def)
  have rb: "block_in h1 p1 r" using alloc_inv_take(3) [OF inv r(2)] B(2) by simp
  have rl: "listed V r" "\<not> listed (drop_free p1 V) r"
  proof -
    have "r \<in> set (bl_free V p1)" by (subst r(2)) simp
    then show "listed V r" using block_in_ptr_page [OF alloc_inv_take(3) [OF inv r(2)]] by (simp add: listed_def)
    show "\<not> listed (drop_free p1 V) r" using listed_drop_free [OF inv r(2)] by blast
  qed
  have n: "24 \<le> bsize h1 p2" "16 \<le> bsize h1 p1" using B(9) p2(2) p1(2) by simp_all
  define h' where "h' = block_to_cxlobj sh ob p2 (ucast emb) (link_block_to_tbr ob r h1)"
  note O = block_to_cxlobj_step [OF B(1) ob(1) n(1) rb rl(2) n(2) ne, of sh "ucast emb", folded h'_def]
  have run: "cxl_malloc fuel sh data_size emb h = Inr (\<lparr>ref_tbr = r, ref_data = ob + sizeof_CXLObj\<rparr>, h')"
    using find ob(2) by (simp add: cxl_malloc_def r(1) cxl_ref_alloc_def i h1_def [symmetric] cxl_page_malloc_def h'_def Let_def)
  have x: "listed V' x \<longleftrightarrow> listed V x \<and> x \<noteq> r \<and> x \<noteq> ob" for x
    using listed_drop_free [OF B(1) ob(1)] listed_drop_free [OF inv r(2)] by (auto simp: V'_def)
  have "listed (drop_free p1 V) ob"
    using ob(1) block_in_ptr_page [OF alloc_inv_take(3) [OF B(1) ob(1)]] by (simp add: listed_def)
  then have obl: "listed V ob" "r \<noteq> ob" using listed_drop_free [OF inv r(2)] by auto
  have "unat (ucast (shm_thread_id sh) :: u64) < 2 ^ 16" using tid by simp
  note f = pack_fields [OF this, of 1 "h_era h (own_era sh)"]
  show ?thesis
    using run x obl rl(1) O B(4,5,7) f by (intro exI [of _ r] exI [of _ ob] exI [of _ h']) (simp add: V'_def)
qed

text \<open>
  Freeing an object of one's own segment, its page having other blocks in use, puts it
  at the front of its page's local list and damages no list; nothing else is freed. If the
  segment belongs to another client, the block goes to the front of that segment's foreign
  list, unless the segment is marked as possibly leaking: then it goes to no list.
\<close>

lemma free_returns_block_to_its_list:
  fixes sh :: cxl_shm
  assumes inv: "alloc_inv h V" and b: "block_in h p b" "24 \<le> bsize h p" and n: "\<not> listed V b"
    and used: "pg_used (h_page h p) \<noteq> 1"
  defines "a \<equiv> sas_of_segment (cxl_ptr_segment b)"
  defines "V' \<equiv> (if ucast (seg_thread_id (h_seg h (cxl_ptr_segment b))) = shm_thread_id sh
       then V\<lparr>bl_local := (bl_local V)(p := b # bl_local V p)\<rparr>
       else if sf_state (sas_info (h_sas h a)) = segment_state_code POTENTIAL_LEAKING then V
       else V\<lparr>bl_foreign := (bl_foreign V)(a := b # bl_foreign V a)\<rparr>)"
  shows "\<exists>h'. cxl_free sh False b h = Inr h' \<and> alloc_inv h' V'"
proof -
  let ?h1 = "clear_block False b h"
  have pp: "cxl_ptr_page b = p" by (rule block_in_ptr_page [OF b(1)])
  have c1: "h_page ?h1 = h_page h" "h_sas ?h1 = h_sas h" "h_seg ?h1 = h_seg h"
    "\<And>c. c \<noteq> b \<Longrightarrow> c \<noteq> b + 8 \<Longrightarrow> c \<noteq> b + 16 \<Longrightarrow> h_cell ?h1 c = h_cell h c"
    by (auto simp: clear_block_def numeral_3_eq_3 add.assoc)
  have inv1: "alloc_inv ?h1 V"
  proof (rule alloc_inv_cells [OF inv c1(1,2)])
    fix x assume x: "listed V x"
    note m = block_write_misses [OF inv b(1) n _ x]
    from m [of 0] m [of 8] m [of 16] b(2) show "h_cell ?h1 x = h_cell h x" by (intro c1(4)) auto
  qed
  have bi: "block_in ?h1 p b" using b(1) by (simp add: block_in_def bsize_def page_cap_def c1)
  show ?thesis
  proof (cases "ucast (seg_thread_id (h_seg h (cxl_ptr_segment b))) = shm_thread_id sh")
    case True
    note L = alloc_inv_push_local [OF inv1 bi n]
    have "pg_used (h_page (push_local b p ?h1) p) = pg_used (h_page h p) - 1"
      by (simp add: push_local_def Let_def c1)
    then have "pg_used (h_page (push_local b p ?h1) p) \<noteq> 0" using used by simp
    then have "cxl_free sh False b h = Inr (push_local b p ?h1)"
      using True by (simp add: cxl_free_def pp push_local_def Let_def c1)
    then show ?thesis using L(1) True by (simp add: V'_def)
  next
    case False
    then have r: "cxl_free sh False b h = Inr (push_foreign b ?h1)"
      by (simp add: cxl_free_def Let_def c1)
    show ?thesis
    proof (cases "sf_state (sas_info (h_sas h a)) = segment_state_code POTENTIAL_LEAKING")
      case True
      then have "push_foreign b ?h1 = ?h1" by (simp add: push_foreign_def Let_def c1 a_def)
      then show ?thesis using r inv1 False True by (simp add: V'_def)
    next
      case nl: False
      then have "alloc_inv (push_foreign b ?h1) V'"
        using alloc_inv_push_foreign [OF inv1 bi n] False by (simp add: V'_def a_def c1)
      then show ?thesis using r by simp
    qed
  qed
qed

end
