(* ===== verification/Refill.thy ===== *)
theory Refill
  imports Malloc
begin

text \<open>
  What a collection does to the lists of \<open>Block_Lists\<close>: the blocks other clients freed move
  to the local lists of their pages, and a page that ran dry goes on with its local list. No
  free block is lost or made.
\<close>

section \<open>Collecting keeps every free block\<close>

lemma foreign_counted:
  assumes inv: "alloc_inv h V"
  shows "length (blocks_of_page p (bl_foreign V a)) \<le> unat (pg_used (h_page h p))"
proof (cases "blocks_of_page p (bl_foreign V a) = []")
  case False
  have I: "lists_of h V" "placed h V" "disjoint V" "counted h V" using inv by (simp_all add: alloc_inv_def)
  let ?F = "set (bl_free V p)" and ?L = "set (bl_local V p)" and ?T = "set (blocks_of_page p (bl_foreign V a))"
  have T: "?T \<subseteq> set (bl_foreign V a)" "\<And>b. b \<in> ?T \<Longrightarrow> cxl_ptr_page b = p" by (auto simp: blocks_of_page_def)
  have "distinct (bl_free V p)" "distinct (bl_local V p)" "distinct (bl_foreign V a)"
    using I(1) chain_distinct unfolding lists_of_def by blast+
  then have "distinct (bl_free V p)" "distinct (bl_local V p)" "distinct (blocks_of_page p (bl_foreign V a))"
    by (simp_all add: blocks_of_page_def)
  then have c: "card ?F = length (bl_free V p)" "card ?L = length (bl_local V p)"
    "card ?T = length (blocks_of_page p (bl_foreign V a))" by (simp_all only: distinct_card)
  have d: "?F \<inter> ?L = {}" "?T \<inter> (?F \<union> ?L) = {}" using I(3) T(1) unfolding disjoint_def by blast+
  have "card ?T + (card ?F + card ?L) = card (?T \<union> (?F \<union> ?L))"
    using d by (simp add: card_Un_disjoint)
  moreover have sub: "?T \<union> (?F \<union> ?L) \<subseteq> {b. block_in h p b}"
  proof -
    have "block_in h p x" if "x \<in> ?T" for x
      using placedD(3) [OF I(2) subsetD [OF T(1) that]] T(2) [OF that] by simp
    then show ?thesis using placedD(1,2) [OF I(2)] by auto
  qed
  obtain b where b: "block_in h p b" using False sub by (metis UnCI hd_in_set mem_Collect_eq subsetD)
  have "card (?T \<union> (?F \<union> ?L)) \<le> page_cap h p"
    using card_mono [OF card_blocks(1) [OF b] sub] card_blocks(2) [OF b] by simp
  moreover have "bsize h p \<noteq> 0" using b by (auto elim: block_inE)
  then have "unat (pg_used (h_page h p)) + length (bl_free V p) + length (bl_local V p) = page_cap h p"
    using I(4) by (simp add: counted_def)
  ultimately show ?thesis using c by simp
qed simp

text \<open>What the lists become: \<open>collect_lists\<close> for the foreign list of segment state \<open>a\<close>.\<close>

definition collect_lists :: "u64 \<Rightarrow> block_lists \<Rightarrow> block_lists" where
  "collect_lists a V = V\<lparr>bl_local := (\<lambda>p. rev (blocks_of_page p (bl_foreign V a)) @ bl_local V p),
     bl_foreign := (bl_foreign V)(a := [])\<rparr>"

definition refill_lists :: "u64 \<Rightarrow> block_lists \<Rightarrow> block_lists" where
  "refill_lists p V = (if bl_free V p = []
     then V\<lparr>bl_free := (bl_free V)(p := bl_local V p), bl_local := (bl_local V)(p := [])\<rparr> else V)"

lemma alloc_inv_thread_collect:
  assumes inv: "alloc_inv h V" and fuel: "length (bl_foreign V (sas_of_segment (cxl_ptr_segment page))) \<le> fuel"
  defines "V' \<equiv> collect_lists (sas_of_segment (cxl_ptr_segment page)) V"
  shows "\<exists>h'. cxl_thread_free_collect fuel page h = Inr h' \<and> alloc_inv h' V'
    \<and> h_tls h' = h_tls h \<and> h_seg h' = h_seg h \<and> h_era h' = h_era h
    \<and> (\<forall>x. sas_thread_id (h_sas h' x) = sas_thread_id (h_sas h x)) \<and> (\<forall>x. sf_state (sas_info (h_sas h' x)) = sf_state (sas_info (h_sas h x)))
    \<and> (\<forall>c. \<not> listed V c \<longrightarrow> h_cell h' c = h_cell h c) \<and> (\<forall>q. page_keep (h_page h q) (h_page h' q))"
proof -
  let ?a = "sas_of_segment (cxl_ptr_segment page)"
  let ?tf = "bl_foreign V ?a"
  have I: "lists_of h V" "placed h V" "disjoint V" "counted h V" using inv by (simp_all add: alloc_inv_def)
  have ch: "chain (h_cell h) (sf_thread_free (sas_info (h_sas h ?a))) ?tf"
    and ll: "local_lists h (bl_local V)" using I(1) by (simp_all add: lists_of_def local_lists_def)
  have dj: "\<forall>p. set (bl_local V p) \<inter> set ?tf = {}" using I(3) unfolding disjoint_def by blast
  from thread_free_collect_step [OF ch fuel ll dj] obtain h' where
    h': "cxl_thread_free_collect fuel page h = Inr h'"
    "local_lists h' (\<lambda>p. rev (blocks_of_page p ?tf) @ bl_local V p)"
    "\<And>p. pg_used (h_page h' p) = pg_used (h_page h p) - of_nat (length (blocks_of_page p ?tf))"
    "\<And>p. page_keep (h_page h p) (h_page h' p)"
    "sf_thread_free (sas_info (h_sas h' ?a)) = 0"
    "\<And>c. c \<notin> set ?tf \<Longrightarrow> h_cell h' c = h_cell h c"
    "\<And>x. x \<noteq> ?a \<Longrightarrow> h_sas h' x = h_sas h x" "h_tls h' = h_tls h" "h_seg h' = h_seg h" "h_era h' = h_era h"
    "\<And>x. sas_thread_id (h_sas h' x) = sas_thread_id (h_sas h x)" "sf_state (sas_info (h_sas h' ?a)) = sf_state (sas_info (h_sas h ?a))"
    "\<And>x. x \<noteq> ?a \<Longrightarrow> h_sas h' x = h_sas h x" by blast
  have same: "bsize h' = bsize h" "block_in h' = block_in h" "page_cap h' = page_cap h"
    using h'(4) by (simp_all add: bsize_def block_in_def page_cap_def page_keep_def fun_eq_iff)
  have fr: "pg_free (h_page h' q) = pg_free (h_page h q)" for q using h'(4) by (simp add: page_keep_def)
  have fd: "set (bl_free V q) \<inter> set ?tf = {}" for q using I(3) unfolding disjoint_def by blast
  have gd: "set (bl_foreign V x) \<inter> set ?tf = {}" if "x \<noteq> ?a" for x
    using placedD(4) [OF I(2)] that by blast
  have gd': "b \<notin> set ?tf" if "x \<noteq> ?a" "b \<in> set (bl_foreign V x)" for x b using gd [OF that(1)] that(2) by blast
  have "lists_of h' V'"
    unfolding lists_of_def V'_def collect_lists_def
  proof (simp, intro conjI allI impI)
    show "chain (h_cell h') (pg_free (h_page h' q)) (bl_free V q)" for q
      using I(1) fd [of q] h'(6) unfolding fr by (subst chain_cong [of _ _ "h_cell h"]) (auto simp: lists_of_def)
    show "chain (h_cell h') (pg_local_free (h_page h' q)) (rev (blocks_of_page q ?tf) @ bl_local V q)" for q
      using h'(2) by (simp add: local_lists_def)
    show "sf_thread_free (sas_info (h_sas h' ?a)) = 0" by (rule h'(5))
    show "chain (h_cell h') (sf_thread_free (sas_info (h_sas h' x))) (bl_foreign V x)" if "x \<noteq> ?a" for x
      using I(1) gd [OF that] h'(6) unfolding h'(7) [OF that]
      by (subst chain_cong [of _ _ "h_cell h"]) (auto simp: lists_of_def)
  qed
  moreover have "placed h' V'"
    using I(2) by (auto simp: placed_def V'_def collect_lists_def same blocks_of_page_def)
  moreover have "disjoint V'"
    using disjointD [OF I(3)] gd'
    by (auto simp: disjoint_def V'_def collect_lists_def blocks_of_page_def split: if_splits)
  moreover have "counted h' V'"
  proof -
    have "unat (pg_used (h_page h' q)) = unat (pg_used (h_page h q)) - length (blocks_of_page q ?tf)" for q
    proof -
      have le: "length (blocks_of_page q ?tf) \<le> unat (pg_used (h_page h q))" by (rule foreign_counted [OF inv])
      then have "unat (of_nat (length (blocks_of_page q ?tf)) :: u32) = length (blocks_of_page q ?tf)"
        using unat_bound [of "pg_used (h_page h q)"] by (simp add: unsigned_of_nat take_bit_nat_eq_self)
      then show ?thesis using le by (simp add: h'(3) unat_sub_if_size)
    qed
    note u = this
    show ?thesis
      unfolding counted_def same
    proof (intro allI impI)
      fix q assume "bsize h q \<noteq> 0"
      then have "unat (pg_used (h_page h q)) + length (bl_free V q) + length (bl_local V q) = page_cap h q"
        using I(4) by (simp add: counted_def)
      then show "unat (pg_used (h_page h' q)) + length (bl_free V' q) + length (bl_local V' q) = page_cap h q"
        using foreign_counted [OF inv, of q ?a] u [of q] by (simp add: V'_def collect_lists_def)
    qed
  qed
  moreover have "c \<notin> set ?tf" if "\<not> listed V c" for c using that listed_iff [OF I(2)] by blast
  moreover have "sf_state (sas_info (h_sas h' x)) = sf_state (sas_info (h_sas h x))" for x
    using h'(12,13) by (cases "x = ?a") simp_all
  ultimately show ?thesis using h'(1,4,6,8-11) by (simp add: alloc_inv_def)
qed

lemma alloc_inv_refill:
  fixes p :: u64
  assumes inv: "alloc_inv h V"
  defines "h' \<equiv> (if pg_local_free (h_page h p) \<noteq> 0 \<and> pg_free (h_page h p) = 0
     then upd_page p (\<lambda>g. g\<lparr>pg_free := pg_local_free g, pg_local_free := 0\<rparr>) h else h)"
  shows "alloc_inv h' (refill_lists p V)"
proof -
  have I: "lists_of h V" "placed h V" "disjoint V" "counted h V" using inv by (simp_all add: alloc_inv_def)
  have c: "chain (h_cell h) (pg_free (h_page h p)) (bl_free V p)"
    "chain (h_cell h) (pg_local_free (h_page h p)) (bl_local V p)" using I(1) by (simp_all add: lists_of_def)
  then have e: "pg_free (h_page h p) = 0 \<longleftrightarrow> bl_free V p = []" "pg_local_free (h_page h p) = 0 \<longleftrightarrow> bl_local V p = []"
    using chain_head [OF c(1)] chain_head [OF c(2)] chain_nonzero [OF c(1)] chain_nonzero [OF c(2)]
    by (auto split: if_splits)
  show ?thesis
  proof (cases "pg_local_free (h_page h p) \<noteq> 0 \<and> pg_free (h_page h p) = 0")
    case True
    have V: "refill_lists p V = V\<lparr>bl_free := (bl_free V)(p := bl_local V p), bl_local := (bl_local V)(p := [])\<rparr>"
      using True e by (simp add: refill_lists_def)
    have h: "h' = upd_page p (\<lambda>g. g\<lparr>pg_free := pg_local_free g, pg_local_free := 0\<rparr>) h"
      using True by (simp add: h'_def)
    have same: "bsize h' = bsize h" "block_in h' = block_in h" "page_cap h' = page_cap h"
      by (auto simp: bsize_def block_in_def page_cap_def h fun_eq_iff)
    have "lists_of h' (refill_lists p V)" using I(1) by (auto simp: lists_of_def V h)
    moreover have "placed h' (refill_lists p V)" using I(2) by (auto simp: placed_def V same)
    moreover have "disjoint (refill_lists p V)" using disjointD [OF I(3)] by (auto simp: disjoint_def V)
    moreover have "counted h' (refill_lists p V)" using I(4) True e by (auto simp: counted_def V same [unfolded h] h dest: spec [of _ p])
    ultimately show ?thesis by (simp add: alloc_inv_def)
  next
    case False
    then have "refill_lists p V = V"
      using e by (cases V) (auto simp: refill_lists_def fun_upd_idem_iff)
    then show ?thesis using False inv unfolding h'_def by (simp only: if_False)
  qed
qed

lemma alloc_inv_free_collect:
  assumes inv: "alloc_inv h V" and fuel: "length (bl_foreign V (sas_of_segment (cxl_ptr_segment page))) \<le> fuel"
  defines "V' \<equiv> refill_lists page (collect_lists (sas_of_segment (cxl_ptr_segment page)) V)"
  shows "\<exists>h'. cxl_page_free_collect fuel page h = Inr h' \<and> alloc_inv h' V'
    \<and> h_tls h' = h_tls h \<and> h_seg h' = h_seg h \<and> h_era h' = h_era h
    \<and> (\<forall>x. sas_thread_id (h_sas h' x) = sas_thread_id (h_sas h x)) \<and> (\<forall>x. sf_state (sas_info (h_sas h' x)) = sf_state (sas_info (h_sas h x)))
    \<and> (\<forall>c. \<not> listed V c \<longrightarrow> h_cell h' c = h_cell h c)
    \<and> (\<forall>q. pg_next (h_page h' q) = pg_next (h_page h q) \<and> pg_prev (h_page h' q) = pg_prev (h_page h q)
         \<and> pg_block_size (h_page h' q) = pg_block_size (h_page h q)
         \<and> pg_is_msg_queue_page (h_page h' q) = pg_is_msg_queue_page (h_page h q))"
proof -
  from alloc_inv_thread_collect [OF inv fuel] obtain h1 where
    h1: "cxl_thread_free_collect fuel page h = Inr h1"
    "alloc_inv h1 (collect_lists (sas_of_segment (cxl_ptr_segment page)) V)"
    "h_tls h1 = h_tls h" "h_seg h1 = h_seg h" "h_era h1 = h_era h"
    "\<And>x. sas_thread_id (h_sas h1 x) = sas_thread_id (h_sas h x)" "\<And>x. sf_state (sas_info (h_sas h1 x)) = sf_state (sas_info (h_sas h x))"
    "\<And>c. \<not> listed V c \<Longrightarrow> h_cell h1 c = h_cell h c" "\<And>q. page_keep (h_page h q) (h_page h1 q)" by blast
  note R = alloc_inv_refill [OF h1(2), of page]
  show ?thesis
    using R h1(1,3-9) unfolding cxl_page_free_collect_def V'_def
    by (auto simp: page_keep_def split: if_splits)
qed

text \<open>No free block is lost or made.\<close>

lemma listed_collect:
  assumes "placed h V"
  shows "listed (refill_lists p (collect_lists a V)) x \<longleftrightarrow> listed V x"
proof -
  have "listed (collect_lists a V) x \<longleftrightarrow> listed V x"
    using assms by (auto simp: listed_def collect_lists_def blocks_of_page_def placed_def)
  moreover have "listed (refill_lists p V') x \<longleftrightarrow> listed V' x" for V'
    by (auto simp: listed_def refill_lists_def)
  ultimately show ?thesis by simp
qed

end
