(* ===== verification/Pool.thy ===== *)
theory Pool
  imports Refill
begin

text \<open>
  The pages of one client: the pages of its segments stand in its free queue or in one of its
  66 bins, each once. \<open>client_inv\<close> adds this to \<open>alloc_inv\<close>; under it the allocator's
  abstract state is the set \<open>live\<close> of the blocks handed out. Here: what a fresh page and a
  fresh segment do to it.
\<close>

section \<open>The pages of a client\<close>

definition bin_bytes :: "nat \<Rightarrow> nat" where
  "bin_bytes i = (if i = 0 then 16 else if i = 1 then 192 else 16 * (i - 1))"

record page_pool =
  po_bin :: "nat \<Rightarrow> u64 list"
  po_free :: "u64 list"

definition pool_pages :: "page_pool \<Rightarrow> u64 set" where
  "pool_pages P = set (po_free P) \<union> (\<Union>i<CXL_BIN_SIZE. set (po_bin P i))"

definition owned :: "cxl_shm \<Rightarrow> shm_heap \<Rightarrow> nat \<Rightarrow> bool" where
  "owned sh h s \<longleftrightarrow> s < MAX_SEGMENT_NUM \<and> sas_thread_id (h_sas h (sas_at s)) = shm_thread_id sh"

definition pages_used :: "page_pool \<Rightarrow> nat \<Rightarrow> u64 set" where
  "pages_used P s = {p \<in> set (segment_pages (seg_at s)). p \<notin> set (po_free P)}"

text \<open>What holds of the segments whoever owns them.\<close>

definition segments_ok :: "shm_heap \<Rightarrow> bool" where
  "segments_ok h \<longleftrightarrow> (\<forall>s < MAX_SEGMENT_NUM.
     ucast (seg_thread_id (h_seg h (seg_at s))) = sas_thread_id (h_sas h (sas_at s))
     \<and> bsize h (meta_at (seg_at s) 0) = 0
     \<and> (sas_thread_id (h_sas h (sas_at s)) = 0 \<longrightarrow> (\<forall>p \<in> set (segment_pages (seg_at s)). bsize h p = 0)))"

definition pool_lists :: "cxl_shm \<Rightarrow> shm_heap \<Rightarrow> page_pool \<Rightarrow> bool" where
  "pool_lists sh h P \<longleftrightarrow> free_list sh h (po_free P)
     \<and> (\<forall>i < CXL_BIN_SIZE. bin_list sh i h (po_bin P i)
          \<and> pq_block_size (bin_queue sh i h) = of_nat (bin_bytes i))"

definition pool_sizes :: "shm_heap \<Rightarrow> page_pool \<Rightarrow> bool" where
  "pool_sizes h P \<longleftrightarrow> (\<forall>p \<in> set (po_free P). bsize h p = 0)
     \<and> (\<forall>i < CXL_BIN_SIZE. \<forall>p \<in> set (po_bin P i). bsize h p = bin_bytes i \<and> pg_is_msg_queue_page (h_page h p) = (i = 1))
     \<and> (\<forall>i < CXL_BIN_SIZE. \<forall>k < CXL_BIN_SIZE. i \<noteq> k \<longrightarrow> set (po_bin P i) \<inter> set (po_bin P k) = {})
     \<and> po_bin P 2 = []"

definition pool_segments :: "cxl_shm \<Rightarrow> shm_heap \<Rightarrow> page_pool \<Rightarrow> bool" where
  "pool_segments sh h P \<longleftrightarrow> pool_pages P = (\<Union>s \<in> {s. owned sh h s}. set (segment_pages (seg_at s)))
     \<and> (\<forall>s. owned sh h s \<longrightarrow> unat (seg_used (h_seg h (seg_at s))) = card (pages_used P s))"

text \<open>The region has no more segments than allocation states.\<close>

definition region_fits :: "cxl_shm \<Rightarrow> bool" where
  "region_fits sh \<longleftrightarrow> unat (shm_size sh) \<le> unat SEGMENTS_AREA_START + MAX_SEGMENT_NUM * unat SEGMENT_SIZE"

definition pool_inv :: "cxl_shm \<Rightarrow> shm_heap \<Rightarrow> page_pool \<Rightarrow> bool" where
  "pool_inv sh h P \<longleftrightarrow> pool_lists sh h P \<and> pool_sizes h P \<and> pool_segments sh h P
     \<and> segments_ok h \<and> shm_thread_id sh \<noteq> 0 \<and> unat (shm_thread_id sh) < 2 ^ 16 \<and> region_fits sh"

definition client_inv :: "cxl_shm \<Rightarrow> shm_heap \<Rightarrow> block_lists \<Rightarrow> page_pool \<Rightarrow> bool" where
  "client_inv sh h V P \<longleftrightarrow> alloc_inv h V \<and> pool_inv sh h P"

text \<open>The abstract state of the allocator: the blocks handed out.\<close>

definition live :: "shm_heap \<Rightarrow> block_lists \<Rightarrow> u64 set" where
  "live h V = {b. block_in h (cxl_ptr_page b) b \<and> \<not> listed V b}"

lemma bin_bytes_bounds: "i < CXL_BIN_SIZE \<Longrightarrow> 16 \<le> bin_bytes i \<and> bin_bytes i \<le> 1024"
  by (auto simp: bin_bytes_def layout)

lemma bin_bytes_big: "2 \<le> i \<Longrightarrow> i \<noteq> 2 \<Longrightarrow> 32 \<le> bin_bytes i"
  by (auto simp: bin_bytes_def)

lemma pool_page:
  assumes "pool_segments sh h P" and "p \<in> pool_pages P"
  obtains s j where "owned sh h s" "s < MAX_SEGMENT_NUM" "1 \<le> j" "j < PAGES_PER_SEGMENT" "p = meta_at (seg_at s) j"
    "p \<in> set (segment_pages (seg_at s))"
proof -
  from assms obtain s where "owned sh h s" "p \<in> set (segment_pages (seg_at s))" by (auto simp: pool_segments_def)
  then show ?thesis using that by (auto simp: set_segment_pages owned_def)
qed

lemma segment_pages_disjoint:
  assumes "s < MAX_SEGMENT_NUM" "s' < MAX_SEGMENT_NUM" "s \<noteq> s'"
  shows "set (segment_pages (seg_at s)) \<inter> set (segment_pages (seg_at s')) = {}"
  using meta_at_inj [OF assms(1) _ assms(2)] assms(3) unfolding set_segment_pages by fastforce

text \<open>Blocks of a page of known size, and where they lie.\<close>

lemma block_in_page_blocks:
  assumes "s < MAX_SEGMENT_NUM" "j < PAGES_PER_SEGMENT" "bsize h (meta_at (seg_at s) j) = n" "8 \<le> n"
  shows "block_in h (meta_at (seg_at s) j) b \<longleftrightarrow> b \<in> set (page_blocks s j n)"
proof
  assume "block_in h (meta_at (seg_at s) j) b"
  then obtain s' j' k where b: "s' < MAX_SEGMENT_NUM" "j' < PAGES_PER_SEGMENT" "meta_at (seg_at s) j = meta_at (seg_at s') j'"
    "b = page_area (seg_at s') j' + of_nat (k * n)" "k < page_cap h (meta_at (seg_at s) j)"
    unfolding block_in_def assms(3) by blast
  then have "s' = s" "j' = j" using meta_at_inj [OF assms(1,2) b(1,2)] by blast+
  then show "b \<in> set (page_blocks s j n)"
    unfolding page_blocks_def b(4) using b(5) by (simp add: page_cap_def assms(3))
next
  assume "b \<in> set (page_blocks s j n)"
  then obtain k where "k < 65536 div n" "b = page_area (seg_at s) j + of_nat (k * n)" by (auto simp: page_blocks_def)
  then show "block_in h (meta_at (seg_at s) j) b"
    unfolding block_in_def page_cap_def assms(3) using assms(1,2,4) by blast
qed

lemma outside_page:
  assumes "s < MAX_SEGMENT_NUM" "j < PAGES_PER_SEGMENT" "cxl_ptr_page b \<noteq> meta_at (seg_at s) j"
  shows "unat b < unat (page_area (seg_at s) j) \<or> unat (page_area (seg_at s) j) + 65536 \<le> unat b"
proof (rule ccontr)
  assume "\<not> ?thesis"
  then have d: "unat (page_area (seg_at s) j) \<le> unat b" "unat b - unat (page_area (seg_at s) j) < 65536" by linarith+
  define d where "d = unat b - unat (page_area (seg_at s) j)"
  have "b = of_nat (unat (page_area (seg_at s) j) + d)" using d(1) by (simp add: d_def del: of_nat_add)
  then have "b = page_area (seg_at s) j + of_nat d" by simp
  then have "cxl_ptr_page b = meta_at (seg_at s) j"
    using cxl_ptr_page_in [OF assms(1,2), of d] d(2) by (simp add: d_def)
  then show False using assms(3) by simp
qed

lemma page_without_blocks:
  assumes "alloc_inv h V" and "bsize h p = 0"
  shows "bl_free V p = [] \<and> bl_local V p = [] \<and> pg_free (h_page h p) = 0 \<and> pg_local_free (h_page h p) = 0"
proof -
  have n: "\<not> block_in h p b" for b using assms(2) by (auto elim: block_inE)
  have "placed h V" "lists_of h V" using assms(1) by (simp_all add: alloc_inv_def)
  then have "bl_free V p = []" "bl_local V p = []" using placedD(1,2) [of h V _ p] n by (metis last_in_set)+
  moreover from this have "chain (h_cell h) (pg_free (h_page h p)) []" "chain (h_cell h) (pg_local_free (h_page h p)) []"
    using \<open>lists_of h V\<close> unfolding lists_of_def by metis+
  ultimately show ?thesis by simp
qed

section \<open>A fresh page\<close>

lemma alloc_inv_fresh:
  fixes s j n :: nat
  defines "p \<equiv> meta_at (seg_at s) j"
  assumes inv: "alloc_inv h V" and s: "s < MAX_SEGMENT_NUM" "j < PAGES_PER_SEGMENT" and n: "8 \<le> n" "n \<le> 65536"
    and old: "bsize h p = 0"
    and new: "chain (h_cell h') (pg_free (h_page h' p)) (page_blocks s j n)" "pg_local_free (h_page h' p) = 0"
      "pg_used (h_page h' p) = 0" "pg_block_size (h_page h' p) = of_nat n"
    and others0: "\<forall>q. q \<noteq> p \<longrightarrow> pg_free (h_page h' q) = pg_free (h_page h q)
         \<and> pg_local_free (h_page h' q) = pg_local_free (h_page h q)
         \<and> pg_block_size (h_page h' q) = pg_block_size (h_page h q) \<and> pg_used (h_page h' q) = pg_used (h_page h q)
         \<and> pg_is_msg_queue_page (h_page h' q) = pg_is_msg_queue_page (h_page h q)"
    and cells0: "\<forall>m < 2 ^ 64. m < unat (page_area (seg_at s) j) \<or> unat (page_area (seg_at s) j) + 65536 \<le> m
         \<longrightarrow> h_cell h' (of_nat m) = h_cell h (of_nat m)"
    and sas: "h_sas h' = h_sas h"
  shows "alloc_inv h' (V\<lparr>bl_free := (bl_free V)(p := page_blocks s j n)\<rparr>)"
    and "live h' (V\<lparr>bl_free := (bl_free V)(p := page_blocks s j n)\<rparr>) = live h V"
    and "\<And>x. listed (V\<lparr>bl_free := (bl_free V)(p := page_blocks s j n)\<rparr>) x \<longleftrightarrow> listed V x \<or> x \<in> set (page_blocks s j n)"
    and "\<And>q. bsize h' q = (if q = p then n else bsize h q)"
proof -
  let ?V = "V\<lparr>bl_free := (bl_free V)(p := page_blocks s j n)\<rparr>"
  note others = others0 [rule_format] and cells = cells0 [rule_format]
  have I: "lists_of h V" "placed h V" "disjoint V" "counted h V" using inv by (simp_all add: alloc_inv_def)
  note E = page_without_blocks [OF inv old]
  have bs: "bsize h' q = (if q = p then n else bsize h q)" for q
    using others [of q] new(4) n(2) by (auto simp: bsize_def unsigned_of_nat take_bit_nat_eq_self)
  then show "\<And>q. bsize h' q = (if q = p then n else bsize h q)" by blast
  have bp: "block_in h' p b \<longleftrightarrow> b \<in> set (page_blocks s j n)" "\<not> block_in h p b" for b
    using block_in_page_blocks [OF s _ n(1), of h' b] bs [of p] old by (auto simp: p_def elim: block_inE)
  have bq: "block_in h' q = block_in h q" if "q \<noteq> p" for q
    using bs [of q] that by (simp add: fun_eq_iff block_in_def page_cap_def)
  have keep: "h_cell h' b = h_cell h b" if "block_in h q b" for q b
  proof -
    have "q \<noteq> p" using bp(2) that by blast
    then show ?thesis
      using outside_page [OF s, of b] block_in_ptr_page [OF that] cells [of "unat b"] unat_bound [of b] by (simp add: p_def)
  qed
  have ch: "chain (h_cell h') x xs \<longleftrightarrow> chain (h_cell h) x xs" if "\<And>b. b \<in> set xs \<Longrightarrow> \<exists>q. block_in h q b" for x xs
    by (rule chain_cong) (use that keep in blast)
  have ch3: "chain (h_cell h') x (bl_free V q) \<longleftrightarrow> chain (h_cell h) x (bl_free V q)"
    "chain (h_cell h') x (bl_local V q) \<longleftrightarrow> chain (h_cell h) x (bl_local V q)"
    "chain (h_cell h') x (bl_foreign V a) \<longleftrightarrow> chain (h_cell h) x (bl_foreign V a)" for x q a
    by (rule ch; use placedD(1-3) [OF I(2)] in blast)+
  have "lists_of h' ?V"
    unfolding lists_of_def
  proof (intro conjI allI)
    fix q a
    show "chain (h_cell h') (pg_free (h_page h' q)) (bl_free ?V q)"
      using I(1) new(1) others [of q] ch3 by (auto simp: lists_of_def)
    show "chain (h_cell h') (pg_local_free (h_page h' q)) (bl_local ?V q)"
      using I(1) new(2) E others [of q] ch3 by (cases "q = p") (auto simp: lists_of_def)
    show "chain (h_cell h') (sf_thread_free (sas_info (h_sas h' a))) (bl_foreign ?V a)"
      using I(1) sas ch3 by (auto simp: lists_of_def)
  qed
  moreover have pl: "placed h' ?V"
    unfolding placed_def
  proof (intro conjI allI ballI)
    fix q a b
    show "block_in h' q b" if "b \<in> set (bl_free ?V q) \<union> set (bl_local ?V q)"
      using that bp bq placedD(1,2) [OF I(2)] E by (cases "q = p") auto
    show "block_in h' (cxl_ptr_page b) b" "sas_of_segment (cxl_ptr_segment b) = a" if "b \<in> set (bl_foreign ?V a)"
      using that placedD(3,4) [OF I(2)] bp(2) bq by auto (metis bp(2) bq)
  qed
  moreover have nb: "b \<notin> set (page_blocks s j n)" if "block_in h q b" for q b
    using that bp block_in_ptr_page by (metis bp(1,2))
  then have "disjoint ?V"
    using disjointD [OF I(3)] placedD [OF I(2)] E by (fastforce simp: disjoint_def)
  moreover have "counted h' ?V"
    using I(4) others new(3) E bs by (auto simp: counted_def page_cap_def page_blocks_def)
  ultimately show "alloc_inv h' ?V" by (simp add: alloc_inv_def)
  have pb: "cxl_ptr_page b = p" if "b \<in> set (page_blocks s j n)" for b
    using that bp(1) block_in_ptr_page by blast
  show li: "listed ?V x \<longleftrightarrow> listed V x \<or> x \<in> set (page_blocks s j n)" for x
    using E pb [of x] by (cases "cxl_ptr_page x = p") (auto simp: listed_def)
  show "live h' ?V = live h V"
  proof (rule set_eqI)
    fix b
    show "b \<in> live h' ?V \<longleftrightarrow> b \<in> live h V"
      unfolding live_def mem_Collect_eq li using bp bq by (cases "cxl_ptr_page b = p") (auto dest: nb)
  qed
qed

section \<open>What the allocator leaves alone\<close>

lemma block_high:
  assumes "block_in h p b" and "d < bsize h p"
  shows "\<not> b + of_nat d < SEGMENTS_AREA_START"
proof -
  from assms(1) obtain s j k where k: "s < MAX_SEGMENT_NUM" "j < PAGES_PER_SEGMENT"
    "b = page_area (seg_at s) j + of_nat (k * bsize h p)" "k * bsize h p + bsize h p \<le> 65536" by (rule block_inE)
  let ?n = "2 ^ 27 + s * 2 ^ 26 + j * 2 ^ 16 + (k * bsize h p + d)"
  have "b + of_nat d = of_nat ?n" unfolding k(3) page_area_nat by simp
  moreover have "?n < 2 ^ 64" using k assms(2) by (simp add: layout)
  ultimately have "unat (b + of_nat d) = ?n" using unat_of_nat_64 by metis
  then show ?thesis by (simp add: word_less_nat_alt layout)
qed

text \<open>
  The blocks of \<open>L\<close> keep their size, their kind and their contents, and so do the hash tables
  below the segments.
\<close>

definition keeps :: "u64 set \<Rightarrow> shm_heap \<Rightarrow> shm_heap \<Rightarrow> bool" where
  "keeps L h h' \<longleftrightarrow> (\<forall>c < SEGMENTS_AREA_START. h_cell h' c = h_cell h c)
     \<and> (\<forall>b \<in> L. bsize h' (cxl_ptr_page b) = bsize h (cxl_ptr_page b)
       \<and> pg_is_msg_queue_page (h_page h' (cxl_ptr_page b)) = pg_is_msg_queue_page (h_page h (cxl_ptr_page b))
       \<and> (\<forall>d < bsize h (cxl_ptr_page b). h_cell h' (b + of_nat d) = h_cell h (b + of_nat d)))"

lemma keepsD:
  assumes "keeps L h h'"
  shows "c < SEGMENTS_AREA_START \<Longrightarrow> h_cell h' c = h_cell h c"
    and "b \<in> L \<Longrightarrow> bsize h' (cxl_ptr_page b) = bsize h (cxl_ptr_page b)"
    and "b \<in> L \<Longrightarrow> pg_is_msg_queue_page (h_page h' (cxl_ptr_page b)) = pg_is_msg_queue_page (h_page h (cxl_ptr_page b))"
    and "b \<in> L \<Longrightarrow> d < bsize h (cxl_ptr_page b) \<Longrightarrow> h_cell h' (b + of_nat d) = h_cell h (b + of_nat d)"
  using assms by (simp_all add: keeps_def)

lemma keeps_refl [simp]: "keeps L h h" by (simp add: keeps_def)

lemma keeps_trans: "keeps L h h1 \<Longrightarrow> keeps L h1 h2 \<Longrightarrow> keeps L h h2" by (simp add: keeps_def)

lemma keeps_mono: "keeps L h h' \<Longrightarrow> L' \<subseteq> L \<Longrightarrow> keeps L' h h'" by (auto simp: keeps_def)

lemma live_cell_unlisted:
  assumes "alloc_inv h V" and "b \<in> live h V" and "d < bsize h (cxl_ptr_page b)"
  shows "\<not> listed V (b + of_nat d)"
  using block_write_misses [OF assms(1) _ _ assms(3)] assms(2) by (auto simp: live_def)

text \<open>The page headers agree in the links of the queues, the block sizes and the kinds.\<close>

definition same_shape :: "shm_heap \<Rightarrow> shm_heap \<Rightarrow> bool" where
  "same_shape h h' \<longleftrightarrow> (\<forall>q. pg_next (h_page h' q) = pg_next (h_page h q) \<and> pg_prev (h_page h' q) = pg_prev (h_page h q)
     \<and> pg_block_size (h_page h' q) = pg_block_size (h_page h q)
     \<and> pg_is_msg_queue_page (h_page h' q) = pg_is_msg_queue_page (h_page h q))"

lemma same_shapeD:
  assumes "same_shape h h'"
  shows "bsize h' = bsize h" "block_in h' = block_in h" "page_cap h' = page_cap h"
    and "dlist (h_page h') q xs \<longleftrightarrow> dlist (h_page h) q xs"
    and "pg_is_msg_queue_page (h_page h' p) = pg_is_msg_queue_page (h_page h p)"
proof -
  show bs: "bsize h' = bsize h" using assms by (simp add: same_shape_def fun_eq_iff bsize_def)
  show "block_in h' = block_in h" "page_cap h' = page_cap h" by (simp_all add: fun_eq_iff block_in_def page_cap_def bs)
  show "dlist (h_page h') q xs \<longleftrightarrow> dlist (h_page h) q xs"
    using assms by (intro dlist_cong) (auto simp: same_shape_def)
  show "pg_is_msg_queue_page (h_page h' p) = pg_is_msg_queue_page (h_page h p)" using assms by (simp add: same_shape_def)
qed

lemma same_shape_page [simp]: "h_page h' = h_page h \<Longrightarrow> same_shape h h'" by (simp add: same_shape_def)

lemma keeps_unlisted:
  assumes "alloc_inv h V" and "same_shape h h'" and "\<And>c. \<not> listed V c \<Longrightarrow> h_cell h' c = h_cell h c"
  shows "keeps (live h V) h h'"
proof -
  have "\<not> listed V c" if "c < SEGMENTS_AREA_START" for c
  proof
    assume "listed V c"
    then obtain p where "block_in h p c" using assms(1) unfolding alloc_inv_def listed_def placed_def by blast
    moreover from this have "0 < bsize h p" by (auto elim: block_inE)
    ultimately show False using block_high [of h p c 0] that by simp
  qed
  then show ?thesis
    using assms(3) live_cell_unlisted [OF assms(1)] same_shapeD [OF assms(2)] by (auto simp: keeps_def)
qed

text \<open>So do writes in a page that had no blocks.\<close>

lemma keeps_outside:
  fixes s j :: nat
  assumes s: "s < MAX_SEGMENT_NUM" "j < PAGES_PER_SEGMENT" and old: "bsize h (meta_at (seg_at s) j) = 0"
    and pages: "\<And>q. q \<noteq> meta_at (seg_at s) j \<Longrightarrow> bsize h' q = bsize h q
        \<and> pg_is_msg_queue_page (h_page h' q) = pg_is_msg_queue_page (h_page h q)"
    and cells: "\<And>m. m < 2 ^ 64 \<Longrightarrow> m < unat (page_area (seg_at s) j) \<or> unat (page_area (seg_at s) j) + 65536 \<le> m
         \<Longrightarrow> h_cell h' (of_nat m) = h_cell h (of_nat m)"
  shows "keeps (live h V) h h'"
  unfolding keeps_def
proof (intro conjI ballI allI impI)
  fix c assume c: "c < SEGMENTS_AREA_START"
  have "unat (page_area (seg_at s) j) = 2 ^ 27 + s * 2 ^ 26 + j * 2 ^ 16"
    unfolding page_area_nat by (rule unat_of_nat_64) (use s in \<open>simp add: layout\<close>)
  then show "h_cell h' c = h_cell h c"
    using cells [of "unat c"] c unat_bound [of c] by (simp add: word_less_nat_alt layout)
next
  fix b assume b: "b \<in> live h V"
  then have bi: "block_in h (cxl_ptr_page b) b" by (simp add: live_def)
  then have np: "cxl_ptr_page b \<noteq> meta_at (seg_at s) j" using old by (auto elim: block_inE)
  show "bsize h' (cxl_ptr_page b) = bsize h (cxl_ptr_page b)"
    "pg_is_msg_queue_page (h_page h' (cxl_ptr_page b)) = pg_is_msg_queue_page (h_page h (cxl_ptr_page b))"
    using pages [OF np] by blast+
  fix d assume d: "d < bsize h (cxl_ptr_page b)"
  have "cxl_ptr_page (b + of_nat d) \<noteq> meta_at (seg_at s) j" using block_in_page [OF bi d] np by simp
  then show "h_cell h' (b + of_nat d) = h_cell h (b + of_nat d)"
    using outside_page [OF s, of "b + of_nat d"] cells [of "unat (b + of_nat d)"] unat_bound [of "b + of_nat d"] by simp
qed

lemma alloc_inv_cong:
  assumes "alloc_inv h V" and "page_data_eq (h_page h) (h_page h')"
    and "\<And>a. sf_thread_free (sas_info (h_sas h' a)) = sf_thread_free (sas_info (h_sas h a))"
    and "h_cell h' = h_cell h"
  shows "alloc_inv h' V" and "live h' V = live h V" and "bsize h' = bsize h" and "keeps L h h'"
proof -
  note d = page_data_eqD [OF assms(2)]
  show bs: "bsize h' = bsize h" using d by (simp add: fun_eq_iff bsize_def)
  have bi: "block_in h' = block_in h" "page_cap h' = page_cap h" by (simp_all add: fun_eq_iff block_in_def page_cap_def bs)
  show "alloc_inv h' V"
    using assms(1) d by (simp add: alloc_inv_def lists_of_def placed_def counted_def bi bs assms(3,4))
  show "live h' V = live h V" by (simp add: live_def bi)
  show "keeps L h h'" using d by (simp add: keeps_def bs assms(4))
qed

lemma bsize_0: "bsize h p = 0 \<longleftrightarrow> pg_block_size (h_page h p) = 0"
  by (simp add: bsize_def unat_eq_0)

text \<open>Changes that spare the queues, the page sizes and the owners keep the pool.\<close>

lemma pool_inv_cong:
  assumes "pool_inv sh h P" and "same_shape h h'"
    and "\<And>i. bin_queue sh i h' = bin_queue sh i h" "free_queue sh h' = free_queue sh h" "h_seg h' = h_seg h"
    and "\<And>x. sas_thread_id (h_sas h' x) = sas_thread_id (h_sas h x)"
  shows "pool_inv sh h' P"
  using assms(1) unfolding pool_inv_def pool_lists_def pool_sizes_def pool_segments_def segments_ok_def
    free_list_def bin_list_def owned_def same_shapeD [OF assms(2)] assms(3-6) .

lemma pool_disjoint:
  assumes "pool_sizes h P" and "p \<in> set (po_free P)" and "k < CXL_BIN_SIZE"
  shows "p \<notin> set (po_bin P k)"
  using assms bin_bytes_bounds [OF assms(3)] by (fastforce simp: pool_sizes_def)

lemma pool_sizes_cong:
  assumes P: "pool_sizes h P"
    and sz: "\<And>p. p \<in> pool_pages P \<Longrightarrow> bsize h' p = bsize h p"
      "\<And>p. p \<in> pool_pages P \<Longrightarrow> pg_is_msg_queue_page (h_page h' p) = pg_is_msg_queue_page (h_page h p)"
  shows "pool_sizes h' P"
proof -
  have f: "bsize h' p = bsize h p" if "p \<in> set (po_free P)" for p using sz(1) that by (simp add: pool_pages_def)
  have b: "bsize h' p = bsize h p \<and> pg_is_msg_queue_page (h_page h' p) = pg_is_msg_queue_page (h_page h p)"
    if "i < CXL_BIN_SIZE" "p \<in> set (po_bin P i)" for i p
    using sz [of p] that by (auto simp: pool_pages_def)
  show ?thesis using P f b unfolding pool_sizes_def by simp
qed

lemma pool_bins_disjoint:
  assumes "pool_sizes h P" and "i < CXL_BIN_SIZE" "k < CXL_BIN_SIZE" "i \<noteq> k" and "p \<in> set (po_bin P i)"
  shows "p \<notin> set (po_bin P k)"
  using assms unfolding pool_sizes_def by blast

section \<open>A step inside one segment\<close>

text \<open>
  What the operations on pages have in common: they work on one segment. Its pages stay or
  become or cease to be the client's, and everything else stays as it is.
\<close>

lemma meta_0_outside:
  assumes "s < MAX_SEGMENT_NUM" "s' < MAX_SEGMENT_NUM"
  shows "meta_at (seg_at s) 0 \<notin> set (segment_pages (seg_at s'))"
proof
  assume "meta_at (seg_at s) 0 \<in> set (segment_pages (seg_at s'))"
  then obtain j where "1 \<le> j" "j < PAGES_PER_SEGMENT" "meta_at (seg_at s) 0 = meta_at (seg_at s') j" by (auto simp: set_segment_pages)
  then show False using meta_at_inj [OF assms(1) _ assms(2), of 0 j] by (simp add: layout)
qed

lemma pool_segments_step:
  assumes P: "pool_segments sh h P" and s: "s < MAX_SEGMENT_NUM"
    and ow: "\<And>s'. s' \<noteq> s \<Longrightarrow> owned sh h' s' = owned sh h s'"
    and pages: "\<And>p. p \<notin> set (segment_pages (seg_at s)) \<Longrightarrow> p \<in> pool_pages P' \<longleftrightarrow> p \<in> pool_pages P"
      "\<And>p. p \<in> set (segment_pages (seg_at s)) \<Longrightarrow> p \<in> pool_pages P' \<longleftrightarrow> owned sh h' s"
    and free: "\<And>p. p \<notin> set (segment_pages (seg_at s)) \<Longrightarrow> p \<in> set (po_free P') \<longleftrightarrow> p \<in> set (po_free P)"
    and seg: "\<And>x. x \<noteq> seg_at s \<Longrightarrow> h_seg h' x = h_seg h x"
    and used: "owned sh h' s \<Longrightarrow> unat (seg_used (h_seg h' (seg_at s))) = card (pages_used P' s)"
  shows "pool_segments sh h' P'"
  unfolding pool_segments_def
proof (intro conjI allI impI)
  show "pool_pages P' = (\<Union>s'\<in>{s'. owned sh h' s'}. set (segment_pages (seg_at s')))"
  proof (rule set_eqI)
    fix p
    show "p \<in> pool_pages P' \<longleftrightarrow> p \<in> (\<Union>s'\<in>{s'. owned sh h' s'}. set (segment_pages (seg_at s')))"
    proof (cases "p \<in> set (segment_pages (seg_at s))")
      case True
      then have "p \<in> (\<Union>s'\<in>{s'. owned sh h' s'}. set (segment_pages (seg_at s'))) \<longleftrightarrow> owned sh h' s"
        using segment_pages_disjoint [OF _ s] by (fastforce simp: owned_def)
      then show ?thesis using pages(2) True by blast
    next
      case False
      then have "p \<in> (\<Union>s'\<in>{s'. owned sh h' s'}. set (segment_pages (seg_at s')))
          \<longleftrightarrow> p \<in> (\<Union>s'\<in>{s'. owned sh h s'}. set (segment_pages (seg_at s')))"
        using ow by fastforce
      then show ?thesis using pages(1) [OF False] P by (simp add: pool_segments_def)
    qed
  qed
  fix s' assume s': "owned sh h' s'"
  then have m: "s' < MAX_SEGMENT_NUM" by (simp add: owned_def)
  show "unat (seg_used (h_seg h' (seg_at s'))) = card (pages_used P' s')"
  proof (cases "s' = s")
    case False
    have "pages_used P' s' = pages_used P s'"
      using free segment_pages_disjoint [OF m s False] by (fastforce simp: pages_used_def)
    moreover have "seg_at s' \<noteq> seg_at s" using seg_at_inj [OF m s] False by simp
    ultimately show ?thesis using P s' ow [OF False] seg by (simp add: pool_segments_def)
  qed (use s' used in simp)
qed

lemma segments_ok_step:
  assumes ok: "segments_ok h" and s: "s < MAX_SEGMENT_NUM"
    and seg: "\<And>x. x \<noteq> seg_at s \<Longrightarrow> seg_thread_id (h_seg h' x) = seg_thread_id (h_seg h x)"
    and sas: "\<And>x. x \<noteq> sas_at s \<Longrightarrow> sas_thread_id (h_sas h' x) = sas_thread_id (h_sas h x)"
    and bs: "\<And>q. q \<notin> set (segment_pages (seg_at s)) \<Longrightarrow> bsize h' q = bsize h q"
    and id: "ucast (seg_thread_id (h_seg h' (seg_at s))) = sas_thread_id (h_sas h' (sas_at s))"
    and zero: "sas_thread_id (h_sas h' (sas_at s)) = 0 \<Longrightarrow> \<forall>p \<in> set (segment_pages (seg_at s)). bsize h' p = 0"
  shows "segments_ok h'"
  unfolding segments_ok_def
proof (intro allI impI)
  fix s' assume s': "s' < MAX_SEGMENT_NUM"
  have b0: "bsize h' (meta_at (seg_at s') 0) = 0"
    using bs [OF meta_0_outside [OF s' s]] ok s' by (simp add: segments_ok_def)
  show "ucast (seg_thread_id (h_seg h' (seg_at s'))) = sas_thread_id (h_sas h' (sas_at s'))
      \<and> bsize h' (meta_at (seg_at s') 0) = 0
      \<and> (sas_thread_id (h_sas h' (sas_at s')) = 0 \<longrightarrow> (\<forall>q\<in>set (segment_pages (seg_at s')). bsize h' q = 0))"
  proof (cases "s' = s")
    case False
    have "bsize h' q = bsize h q" if "q \<in> set (segment_pages (seg_at s'))" for q
      using that bs segment_pages_disjoint [OF s' s False] by blast
    moreover have "seg_at s' \<noteq> seg_at s" "sas_at s' \<noteq> sas_at s"
      using seg_at_inj [OF s' s] sas_at_inj [OF s' s] False by simp_all
    ultimately show ?thesis using ok s' seg sas b0 by (simp add: segments_ok_def)
  qed (use id zero b0 in simp)
qed

text \<open>Two clients share no page.\<close>

lemma pools_disjoint:
  assumes "pool_segments sh h P" "pool_segments sh2 h P2" "shm_thread_id sh2 \<noteq> shm_thread_id sh" "p \<in> pool_pages P"
  shows "p \<notin> pool_pages P2"
proof
  assume "p \<in> pool_pages P2"
  with assms(2) obtain s2 where s2: "owned sh2 h s2" "s2 < MAX_SEGMENT_NUM" "p \<in> set (segment_pages (seg_at s2))" by (rule pool_page)
  from assms(1,4) obtain s where s: "owned sh h s" "s < MAX_SEGMENT_NUM" "p \<in> set (segment_pages (seg_at s))" by (rule pool_page)
  have "s \<noteq> s2" using s(1) s2(1) assms(3) by (auto simp: owned_def)
  then show False using segment_pages_disjoint [OF s(2) s2(2)] s(3) s2(3) by blast
qed

text \<open>
  What a client does to its pages is nothing to the others: their pools and the rest of their
  states stay.
\<close>

definition others_ok :: "cxl_shm \<Rightarrow> shm_heap \<Rightarrow> shm_heap \<Rightarrow> bool" where
  "others_ok sh h h' \<longleftrightarrow> tls_frame sh h h'
     \<and> (\<forall>x. sas_thread_id (h_sas h' x) \<in> {sas_thread_id (h_sas h x), 0, shm_thread_id sh})
     \<and> (\<forall>x. sf_state (sas_info (h_sas h' x)) = segment_state_code POTENTIAL_LEAKING
          \<longrightarrow> sf_state (sas_info (h_sas h x)) = segment_state_code POTENTIAL_LEAKING)
     \<and> (\<forall>sh2 P2. shm_tls_offset sh2 \<noteq> shm_tls_offset sh \<and> shm_thread_id sh2 \<noteq> shm_thread_id sh
          \<and> pool_inv sh2 h P2 \<longrightarrow> pool_inv sh2 h' P2)"

lemma others_ok_refl [simp]: "others_ok sh h h" by (simp add: others_ok_def)

lemma others_okD:
  assumes "others_ok sh h h'"
  shows "tls_frame sh h h'" "sas_thread_id (h_sas h' x) \<in> {sas_thread_id (h_sas h x), 0, shm_thread_id sh}"
    and "sf_state (sas_info (h_sas h' x)) = segment_state_code POTENTIAL_LEAKING
      \<Longrightarrow> sf_state (sas_info (h_sas h x)) = segment_state_code POTENTIAL_LEAKING"
    and "shm_tls_offset sh2 \<noteq> shm_tls_offset sh \<Longrightarrow> shm_thread_id sh2 \<noteq> shm_thread_id sh \<Longrightarrow> pool_inv sh2 h P2 \<Longrightarrow> pool_inv sh2 h' P2"
  using assms unfolding others_ok_def by blast+

lemma others_ok_trans:
  assumes "others_ok sh h h1" and "others_ok sh h1 h2"
  shows "others_ok sh h h2"
proof -
  have "sas_thread_id (h_sas h2 x) \<in> {sas_thread_id (h_sas h x), 0, shm_thread_id sh}" for x
    using others_okD(2) [OF assms(1), of x] others_okD(2) [OF assms(2), of x] by auto
  moreover have "sf_state (sas_info (h_sas h x)) = segment_state_code POTENTIAL_LEAKING"
    if "sf_state (sas_info (h_sas h2 x)) = segment_state_code POTENTIAL_LEAKING" for x
    by (rule others_okD(3) [OF assms(1) others_okD(3) [OF assms(2) that]])
  ultimately show ?thesis
    using tls_frame_trans [OF others_okD(1) [OF assms(1)] others_okD(1) [OF assms(2)]] others_okD(4) [OF assms(1)] others_okD(4) [OF assms(2)]
    by (simp add: others_ok_def)
qed

lemma others_ok_shape:
  assumes "same_shape h h'" "tls_frame sh h h'" "h_seg h' = h_seg h"
    and "\<And>x. sas_thread_id (h_sas h' x) = sas_thread_id (h_sas h x)"
    and "\<And>x. sf_state (sas_info (h_sas h' x)) = sf_state (sas_info (h_sas h x))"
  shows "others_ok sh h h'"
  using assms by (auto simp: others_ok_def tls_frame_other intro: pool_inv_cong)

lemma others_ok_step:
  assumes P: "pool_segments sh h P" and s: "s < MAX_SEGMENT_NUM"
    and tls: "tls_frame sh h h'"
    and dl: "\<And>q zs. dlist (h_page h) q zs
        \<Longrightarrow> set zs \<inter> (pool_pages P \<union> insert (meta_at (seg_at s) 0) (set (segment_pages (seg_at s)))) = {} \<Longrightarrow> dlist (h_page h') q zs"
    and sz: "\<And>q. q \<notin> insert (meta_at (seg_at s) 0) (set (segment_pages (seg_at s))) \<Longrightarrow> bsize h' q = bsize h q
        \<and> pg_is_msg_queue_page (h_page h' q) = pg_is_msg_queue_page (h_page h q)"
    and sas: "\<And>x. x \<noteq> sas_at s \<Longrightarrow> sas_thread_id (h_sas h' x) = sas_thread_id (h_sas h x)"
    and ids: "sas_thread_id (h_sas h (sas_at s)) \<in> {0, shm_thread_id sh}" "sas_thread_id (h_sas h' (sas_at s)) \<in> {0, shm_thread_id sh}"
    and seg: "\<And>x. x \<noteq> seg_at s \<Longrightarrow> h_seg h' x = h_seg h x" and ok: "segments_ok h'"
    and st: "\<And>x. sf_state (sas_info (h_sas h' x)) \<in> {sf_state (sas_info (h_sas h x)), segment_state_code NORMAL}"
  shows "others_ok sh h h'"
  unfolding others_ok_def
proof (intro conjI allI impI; (elim conjE)?)
  fix sh2 P2
  assume n: "shm_tls_offset sh2 \<noteq> shm_tls_offset sh" "shm_thread_id sh2 \<noteq> shm_thread_id sh" and P2: "pool_inv sh2 h P2"
  then have I: "pool_lists sh2 h P2" "pool_sizes h P2" "pool_segments sh2 h P2" "shm_thread_id sh2 \<noteq> 0" "unat (shm_thread_id sh2) < 2 ^ 16" "region_fits sh2"
    by (simp_all add: pool_inv_def)
  have ns: "\<not> owned sh2 h s" "\<not> owned sh2 h' s" using ids n(2) I(4) by (auto simp: owned_def)
  have ow: "owned sh2 h' s' = owned sh2 h s'" for s'
  proof (cases "s' = s \<or> \<not> s' < MAX_SEGMENT_NUM")
    case False
    then have "sas_at s' \<noteq> sas_at s" using sas_at_inj [OF _ s, of s'] by simp
    then show ?thesis using sas by (simp add: owned_def)
  qed (use ns in \<open>auto simp: owned_def\<close>)
  have out: "p \<notin> pool_pages P" "p \<notin> insert (meta_at (seg_at s) 0) (set (segment_pages (seg_at s)))" if "p \<in> pool_pages P2" for p
  proof -
    show "p \<notin> pool_pages P" using pools_disjoint [OF I(3) P n(2) [symmetric] that] .
    from I(3) that obtain s2 where "owned sh2 h s2" "s2 < MAX_SEGMENT_NUM" "p \<in> set (segment_pages (seg_at s2))" by (rule pool_page)
    then show "p \<notin> insert (meta_at (seg_at s) 0) (set (segment_pages (seg_at s)))"
      using segment_pages_disjoint [OF _ s, of s2] ns(1) meta_0_outside [OF s] by blast
  qed
  have dl2: "dlist (h_page h') q zs" if "dlist (h_page h) q zs" "set zs \<subseteq> pool_pages P2" for q zs
    using that out by (intro dl) blast+
  have sub: "set (po_free P2) \<subseteq> pool_pages P2" "i < CXL_BIN_SIZE \<Longrightarrow> set (po_bin P2 i) \<subseteq> pool_pages P2" for i
    by (auto simp: pool_pages_def)
  have tls2: "bin_queue sh2 i h' = bin_queue sh2 i h" "free_queue sh2 h' = free_queue sh2 h" for i
    by (simp_all add: tls_frame_other [OF tls n(1)])
  have szf: "bsize h' p = bsize h p" "pg_is_msg_queue_page (h_page h' p) = pg_is_msg_queue_page (h_page h p)"
    if "p \<in> pool_pages P2" for p
    using sz [OF out(2) [OF that]] by blast+
  have "pool_lists sh2 h' P2"
    using I(1) dl2 sub by (auto simp: pool_lists_def free_list_def bin_list_def tls2)
  moreover have "pool_sizes h' P2"
    by (rule pool_sizes_cong [OF I(2) szf(1) szf(2)])
  moreover have "pool_segments sh2 h' P2"
    by (rule pool_segments_step [OF I(3) s ow refl _ refl seg]) (use ns out(2) in auto)
  ultimately show "pool_inv sh2 h' P2" using ok I(4-6) by (simp add: pool_inv_def)
next
  fix x
  show "sas_thread_id (h_sas h' x) \<in> {sas_thread_id (h_sas h x), 0, shm_thread_id sh}"
    using sas [of x] ids(2) by (cases "x = sas_at s") auto
next
  fix x assume "sf_state (sas_info (h_sas h' x)) = segment_state_code POTENTIAL_LEAKING"
  then show "sf_state (sas_info (h_sas h x)) = segment_state_code POTENTIAL_LEAKING" using st [of x] by auto
qed (rule tls)

section \<open>A bin gets a page\<close>

text \<open>Page \<open>p\<close>, the first free one, is in bin \<open>i\<close> now and holds the fresh blocks \<open>bs\<close>.\<close>

definition fresh_pool :: "nat \<Rightarrow> u64 \<Rightarrow> page_pool \<Rightarrow> page_pool" where
  "fresh_pool i p P = P\<lparr>po_bin := (po_bin P)(i := p # po_bin P i), po_free := tl (po_free P)\<rparr>"

definition fresh_lists :: "u64 \<Rightarrow> u64 list \<Rightarrow> block_lists \<Rightarrow> block_lists" where
  "fresh_lists p bs V = V\<lparr>bl_free := (bl_free V)(p := bs)\<rparr>"

lemma pages_used_few: "finite (pages_used P s)" "card (pages_used P s) \<le> 1023"
proof -
  show "finite (pages_used P s)" by (simp add: pages_used_def)
  have "card (pages_used P s) \<le> card (set (segment_pages (seg_at s)))"
    by (rule card_mono) (auto simp: pages_used_def)
  also have "\<dots> \<le> 1023" using card_length [of "segment_pages (seg_at s)"] by (simp add: segment_pages_def layout)
  finally show "card (pages_used P s) \<le> 1023" .
qed

lemma fresh_pool_lists:
  assumes P: "pool_lists sh h P" "pool_sizes h P" and i: "i < CXL_BIN_SIZE" and f: "po_free P = p # xs"
    and new: "free_list sh h' xs" "bin_list sh i h' (p # po_bin P i)"
    and bb: "\<And>k. pq_block_size (bin_queue sh k h') = pq_block_size (bin_queue sh k h)"
    and bq: "\<And>k. k \<noteq> i \<Longrightarrow> bin_queue sh k h' = bin_queue sh k h"
    and dl: "\<And>q zs. dlist (h_page h) q zs \<Longrightarrow> set zs \<inter> (set (p # xs) \<union> set (po_bin P i)) = {} \<Longrightarrow> dlist (h_page h') q zs"
  shows "pool_lists sh h' (fresh_pool i p P)"
  unfolding pool_lists_def
proof (intro conjI allI impI)
  show "free_list sh h' (po_free (fresh_pool i p P))" using new(1) by (simp add: fresh_pool_def f)
  fix k assume k: "k < CXL_BIN_SIZE"
  show "pq_block_size (bin_queue sh k h') = of_nat (bin_bytes k)" using P(1) bb k by (simp add: pool_lists_def)
  show "bin_list sh k h' (po_bin (fresh_pool i p P) k)"
  proof (cases "k = i")
    case False
    have "set (po_bin P k) \<inter> (set (p # xs) \<union> set (po_bin P i)) = {}"
      using pool_disjoint [OF P(2) _ k] pool_bins_disjoint [OF P(2) k i False] f by auto
    then show ?thesis using dl bq [OF False] P(1) k False by (simp add: bin_list_def fresh_pool_def pool_lists_def)
  qed (use new(2) in \<open>simp add: fresh_pool_def\<close>)
qed

lemma fresh_pool_sizes:
  assumes P: "pool_sizes h P" and i: "i < CXL_BIN_SIZE" "i \<noteq> 2" and f: "po_free P = p # xs" "p \<notin> set xs"
    and new: "bsize h' p = bin_bytes i" "pg_is_msg_queue_page (h_page h' p) = (i = 1)"
    and old: "\<And>q. q \<noteq> p \<Longrightarrow> bsize h' q = bsize h q \<and> pg_is_msg_queue_page (h_page h' q) = pg_is_msg_queue_page (h_page h q)"
  shows "pool_sizes h' (fresh_pool i p P)"
proof -
  have np: "p \<notin> set (po_bin P k)" if "k < CXL_BIN_SIZE" for k using pool_disjoint [OF P _ that] f(1) by simp
  show ?thesis
    unfolding pool_sizes_def
  proof (intro conjI allI impI ballI)
    fix k m q assume k: "k < CXL_BIN_SIZE"
    show "bsize h' q = bin_bytes k" "pg_is_msg_queue_page (h_page h' q) = (k = 1)" if "q \<in> set (po_bin (fresh_pool i p P) k)"
      using that P k old [of q] new np [OF k] by (cases "q = p"; auto simp: fresh_pool_def pool_sizes_def split: if_splits)+
    assume m: "m < CXL_BIN_SIZE" "k \<noteq> m"
    show "set (po_bin (fresh_pool i p P) k) \<inter> set (po_bin (fresh_pool i p P) m) = {}"
      using P np k m by (auto simp: fresh_pool_def pool_sizes_def)
  next
    fix q assume "q \<in> set (po_free (fresh_pool i p P))"
    then have "q \<noteq> p" "bsize h q = 0" using f P by (auto simp: fresh_pool_def pool_sizes_def)
    then show "bsize h' q = 0" using old by simp
  qed (use P i(2) in \<open>simp add: fresh_pool_def pool_sizes_def\<close>)
qed

lemma pool_fresh_hit:
  assumes inv: "client_inv sh h V P" and i: "i < CXL_BIN_SIZE" "i \<noteq> 2" and f: "po_free P = p # xs"
  shows "\<exists>h' bs. cxl_page_fresh sh i h = Inr (p, h') \<and> client_inv sh h' (fresh_lists p bs V) (fresh_pool i p P)
    \<and> bs \<noteq> [] \<and> live h' (fresh_lists p bs V) = live h V \<and> keeps (live h V) h h'
    \<and> h_era h' = h_era h \<and> h_sas h' = h_sas h \<and> others_ok sh h h'"
proof -
  have A: "alloc_inv h V" and pi: "pool_lists sh h P" "pool_sizes h P" "pool_segments sh h P" "segments_ok h"
    "shm_thread_id sh \<noteq> 0" "unat (shm_thread_id sh) < 2 ^ 16" "region_fits sh"
    using inv by (simp_all add: client_inv_def pool_inv_def)
  have "p \<in> pool_pages P" by (simp add: pool_pages_def f)
  then obtain s j where p: "owned sh h s" "s < MAX_SEGMENT_NUM" "1 \<le> j" "j < PAGES_PER_SEGMENT" "p = meta_at (seg_at s) j"
    "p \<in> set (segment_pages (seg_at s))" using pool_page [OF pi(3)] by metis
  have n: "16 \<le> bin_bytes i" "bin_bytes i \<le> 1024" using bin_bytes_bounds [OF i(1)] by simp_all
  have old: "bsize h p = 0" using pi(2) by (simp add: pool_sizes_def f)
  have fl: "free_list sh h (p # xs)" and bl: "bin_list sh i h (po_bin P i)"
    and bb: "pq_block_size (bin_queue sh i h) = of_nat (bin_bytes i)"
    using pi(1) i(1) by (simp_all add: pool_lists_def f)
  have dj: "set (p # xs) \<inter> set (po_bin P i) = {}" using pool_disjoint [OF pi(2) _ i(1)] f by auto
  have sz: "(if i = 0 \<or> i = 1 then 8 else 24) \<le> bin_bytes i" "bin_bytes i \<le> 65536" "8 \<le> bin_bytes i"
    using n i(2) unfolding bin_bytes_def by presburger+
  have fresh: "pg_free (h_page h (meta_at (seg_at s) j)) = 0"
    using page_without_blocks [OF A old] by (simp add: p(5))
  let ?used = "seg_used (h_seg h (seg_at s))"
  from page_fresh_step [OF p(2,4) bb sz(1,2) fl [unfolded p(5)] bl dj [unfolded p(5)] fresh, folded p(5)]
  obtain h' where h': "cxl_page_fresh sh i h = Inr (p, h')" "free_list sh h' xs" "bin_list sh i h' (p # po_bin P i)"
    "chain (h_cell h') (pg_free (h_page h' p)) (page_blocks s j (bin_bytes i))"
    "pg_local_free (h_page h' p) = 0" "pg_used (h_page h' p) = 0" "pg_block_size (h_page h' p) = of_nat (bin_bytes i)"
    "pg_is_msg_queue_page (h_page h' p) = (i = 1)"
    "h_seg h' = (h_seg h)(seg_at s := (h_seg h (seg_at s))\<lparr>seg_used := ?used + 1\<rparr>)" "h_sas h' = h_sas h" "h_era h' = h_era h"
    "\<And>k. pq_block_size (bin_queue sh k h') = pq_block_size (bin_queue sh k h)"
    "\<And>k. k \<noteq> i \<Longrightarrow> bin_queue sh k h' = bin_queue sh k h" "tls_frame sh h h'"
    "\<And>q zs. dlist (h_page h) q zs \<Longrightarrow> set zs \<inter> (set (p # xs) \<union> set (po_bin P i)) = {} \<Longrightarrow> dlist (h_page h') q zs"
    "\<forall>q. q \<noteq> p \<longrightarrow> pg_free (h_page h' q) = pg_free (h_page h q)
         \<and> pg_local_free (h_page h' q) = pg_local_free (h_page h q)
         \<and> pg_block_size (h_page h' q) = pg_block_size (h_page h q) \<and> pg_used (h_page h' q) = pg_used (h_page h q)
         \<and> pg_is_msg_queue_page (h_page h' q) = pg_is_msg_queue_page (h_page h q)"
    "\<forall>m < 2 ^ 64. m < unat (page_area (seg_at s) j) \<or> unat (page_area (seg_at s) j) + 65536 \<le> m
         \<longrightarrow> h_cell h' (of_nat m) = h_cell h (of_nat m)" by blast
  note F = alloc_inv_fresh [OF A p(2,4) sz(3,2) old [unfolded p(5)] h'(4-7) [unfolded p(5)] h'(16) [unfolded p(5)] h'(17,10),
      folded p(5) fresh_lists_def]
  note sizes = F(4)
  have pd: "p \<notin> set xs" using fl by (auto simp: free_list_def dest: dlist_distinct)
  have ow: "owned sh h' = owned sh h" by (simp add: fun_eq_iff owned_def h'(10))
  have pp: "pool_pages (fresh_pool i p P) = pool_pages P"
    using i(1) by (auto simp: pool_pages_def fresh_pool_def f split: if_splits)
  have inS: "q \<in> pool_pages P" if "q \<in> set (segment_pages (seg_at s))" for q
    using that pi(3) p(1) by (auto simp: pool_segments_def)
  have "pool_lists sh h' (fresh_pool i p P)" by (rule fresh_pool_lists [OF pi(1,2) i(1) f h'(2,3,12,13,15)])
  moreover have "pool_sizes h' (fresh_pool i p P)"
    by (rule fresh_pool_sizes [OF pi(2) i f pd _ h'(8)]) (use sizes h'(16) in auto)
  moreover have "pool_segments sh h' (fresh_pool i p P)"
  proof (rule pool_segments_step [OF pi(3) p(2)])
    have u: "pages_used (fresh_pool i p P) s = insert p (pages_used P s)" "p \<notin> pages_used P s"
      using p(6) pd by (auto simp: pages_used_def fresh_pool_def f)
    moreover have "unat ?used = card (pages_used P s)" using pi(3) p(1) by (simp add: pool_segments_def)
    ultimately show "unat (seg_used (h_seg h' (seg_at s))) = card (pages_used (fresh_pool i p P) s)"
      using pages_used_few [of P s] by (simp add: h'(9) unat_word_ariths)
  qed (use ow pp inS p h'(9) in \<open>auto simp: fresh_pool_def f\<close>)
  moreover have ok: "segments_ok h'"
    by (rule segments_ok_step [OF pi(4) p(2)]) (use pi(4,5) p sizes h'(9,10) in \<open>auto simp: segments_ok_def owned_def\<close>)
  moreover have "keeps (live h V) h h'"
    by (rule keeps_outside [OF p(2,4) old [unfolded p(5)]]) (use sizes h'(16,17) p(5) in auto)
  moreover have "others_ok sh h h'"
  proof (rule others_ok_step [OF pi(3) p(2) h'(14) _ _ _ _ _ _ ok])
    show "dlist (h_page h') q zs" if "dlist (h_page h) q zs"
      "set zs \<inter> (pool_pages P \<union> insert (meta_at (seg_at s) 0) (set (segment_pages (seg_at s)))) = {}" for q zs
      using that(2) i(1) by (intro h'(15) [OF that(1)]) (auto simp: pool_pages_def f)
  qed (use p sizes h'(9,10,16) in \<open>auto simp: owned_def\<close>)
  moreover have "page_blocks s j (bin_bytes i) \<noteq> []"
    using n by (simp add: page_blocks_def div_greater_zero_iff)
  ultimately show ?thesis
    using h'(1,10,11) F(1,2) pi(5-7) unfolding client_inv_def pool_inv_def by blast
qed

text \<open>With no free page, a segment is claimed first.\<close>

lemma unowned_foreign:
  assumes A: "alloc_inv h V" and ok: "segments_ok h" and s: "s < MAX_SEGMENT_NUM" "sas_thread_id (h_sas h (sas_at s)) = 0"
  shows "bl_foreign V (sas_at s) = []"
proof (rule ccontr)
  assume "bl_foreign V (sas_at s) \<noteq> []"
  then obtain b where b: "b \<in> set (bl_foreign V (sas_at s))" by (meson last_in_set)
  have pl: "placed h V" using A by (simp add: alloc_inv_def)
  have bi: "block_in h (cxl_ptr_page b) b" and sg: "sas_of_segment (cxl_ptr_segment b) = sas_at s"
    using placedD(3,4) [OF pl b] by simp_all
  from bi obtain s' j k where k: "s' < MAX_SEGMENT_NUM" "j < PAGES_PER_SEGMENT" "cxl_ptr_page b = meta_at (seg_at s') j"
    "b = page_area (seg_at s') j + of_nat (k * bsize h (cxl_ptr_page b))"
    "k * bsize h (cxl_ptr_page b) + bsize h (cxl_ptr_page b) \<le> 65536" "8 \<le> bsize h (cxl_ptr_page b)" by (rule block_inE)
  have "cxl_ptr_segment b = seg_at s'"
    using cxl_ptr_segment_page [OF k(1,2), of "k * bsize h (cxl_ptr_page b)"] k(4-6) by simp
  then have "s' = s" using sg sas_of_segment_seg_at [OF k(1)] sas_at_inj [OF k(1) s(1)] by simp
  then have "cxl_ptr_page b = meta_at (seg_at s) 0 \<or> cxl_ptr_page b \<in> set (segment_pages (seg_at s))"
    using k(2,3) by (cases "j = 0") (auto simp: set_segment_pages)
  then have "bsize h (cxl_ptr_page b) = 0" using ok s unfolding segments_ok_def by metis
  then show False using k(6) by simp
qed

definition claim_pool :: "nat \<Rightarrow> page_pool \<Rightarrow> page_pool" where
  "claim_pool s P = P\<lparr>po_free := segment_pages (seg_at s)\<rparr>"

lemma pool_claim:
  fixes s :: nat
  assumes inv: "client_inv sh h V P" and f: "po_free P = []"
    and c: "claim_segment sh h 0 = Some (s + 1)" "s < MAX_SEGMENT_NUM"
  shows "\<exists>h'. cxl_page_fresh sh i h = cxl_page_fresh sh i h' \<and> client_inv sh h' V (claim_pool s P)
    \<and> live h' V = live h V \<and> keeps (live h V) h h' \<and> h_era h' = h_era h \<and> others_ok sh h h'"
proof -
  note cl = claim_segment_spec [OF c(1)]
  have A: "alloc_inv h V" and pi: "pool_lists sh h P" "pool_sizes h P" "pool_segments sh h P" "segments_ok h"
    "shm_thread_id sh \<noteq> 0" "unat (shm_thread_id sh) < 2 ^ 16" "region_fits sh"
    using inv by (simp_all add: client_inv_def pool_inv_def)
  have s: "s < MAX_SEGMENT_NUM" "2 ^ 27 + (s + 1) * 2 ^ 26 \<le> unat (shm_size sh)" "sas_thread_id (h_sas h (sas_at s)) = 0"
    "\<forall>j < s. sas_thread_id (h_sas h (sas_at j)) \<noteq> 0"
    using cl c(2) by auto
  have fl: "free_list sh h []" and bl: "\<And>k. k < CXL_BIN_SIZE \<Longrightarrow> bin_list sh k h (po_bin P k)"
    and bb: "\<And>k. k < CXL_BIN_SIZE \<Longrightarrow> pq_block_size (bin_queue sh k h) = of_nat (bin_bytes k)"
    using pi(1) by (simp_all add: pool_lists_def f)
  from segment_alloc_spec [OF s fl] obtain h1 where
    h1: "cxl_segment_alloc sh h = (Some (seg_at s), h1)"
    "h_sas h1 = (h_sas h)(sas_at s := \<lparr>sas_thread_id = shm_thread_id sh, sas_ver = 0, sas_info = zero_info\<rparr>)"
    "h_seg h1 = (h_seg h)(seg_at s := \<lparr>seg_thread_id = ucast (shm_thread_id sh), seg_used = 0\<rparr>)"
    "free_list sh h1 (segment_pages (seg_at s))" "page_data_eq (h_page h) (h_page h1)" "h_cell h1 = h_cell h" "h_era h1 = h_era h"
    "\<And>a. tls_pages (h_tls h1 a) = tls_pages (h_tls h a)" "tls_frame sh h h1"
    "\<And>q ys. dlist (h_page h) q ys \<Longrightarrow> set ys \<inter> set (segment_pages (seg_at s)) = {} \<Longrightarrow> dlist (h_page h1) q ys"
    by auto
  have "pq_first (free_queue sh h) = 0" using fl by (simp add: free_list_def)
  then have "cxl_segment_page_alloc sh h = cxl_segment_page_alloc sh h1"
    by (simp add: cxl_segment_page_alloc.simps [of sh h] h1(1))
  then have r: "cxl_page_fresh sh i h = cxl_page_fresh sh i h1" by (simp add: cxl_page_fresh_def)
  have "chain (h_cell h) (sf_thread_free (sas_info (h_sas h (sas_at s)))) []"
    using A unowned_foreign [OF A pi(4) s(1,3)] unfolding alloc_inv_def lists_of_def by metis
  then have tf: "sf_thread_free (sas_info (h_sas h1 a)) = sf_thread_free (sas_info (h_sas h a))" for a
    by (simp add: h1(2) zero_info_def)
  note C = alloc_inv_cong [OF A h1(5) tf h1(6)]
  have ow: "\<not> owned sh h s" "owned sh h1 s' \<longleftrightarrow> owned sh h s' \<or> s' = s" for s'
    using s(1,3) pi(5) sas_at_inj [OF _ s(1), of s'] by (auto simp: owned_def h1(2))
  have dj: "p \<notin> pool_pages P" if "p \<in> set (segment_pages (seg_at s))" for p
    using pi(3) segment_pages_disjoint [OF _ s(1)] ow(1) that unfolding pool_segments_def owned_def by blast
  have bins: "set (po_bin P k) \<inter> set (segment_pages (seg_at s)) = {}" if "k < CXL_BIN_SIZE" for k
    using dj that by (auto simp: pool_pages_def)
  have pp: "pool_pages (claim_pool s P) = pool_pages P \<union> set (segment_pages (seg_at s))"
    by (auto simp: pool_pages_def claim_pool_def f)
  have "pool_lists sh h1 (claim_pool s P)"
    using h1(4,8,10) bl bb bins by (simp add: pool_lists_def claim_pool_def bin_list_def)
  moreover have "pool_sizes h1 (claim_pool s P)"
    using pi(2,4) s(1,3) page_data_eqD(5) [OF h1(5)] by (simp add: pool_sizes_def claim_pool_def C(3) segments_ok_def)
  moreover have "pool_segments sh h1 (claim_pool s P)"
    by (rule pool_segments_step [OF pi(3) s(1)])
      (use ow pp dj h1(3) f in \<open>auto simp: claim_pool_def pages_used_def\<close>)
  moreover have id: "ucast (ucast (shm_thread_id sh) :: u16) = shm_thread_id sh"
    using pi(6) by (simp add: word_unat_eq_iff unsigned_ucast_eq unsigned_take_bit_eq take_bit_nat_eq_self)
  moreover have ok: "segments_ok h1"
    by (rule segments_ok_step [OF pi(4) s(1)]) (use C(3) h1(2,3) id pi(5) in auto)
  moreover have "others_ok sh h h1"
    by (rule others_ok_step [OF pi(3) s(1) h1(9) h1(10) _ _ _ _ _ ok])
      (use s(3) h1(2,3) C(3) page_data_eqD(5) [OF h1(5)] in \<open>auto simp: zero_info_def\<close>)
  ultimately show ?thesis
    using r C(1,2) C(4) [of "live h V"] h1(7) pi(5-7) unfolding client_inv_def pool_inv_def by blast
qed

end
