(* ===== verification/Find_Page.thy ===== *)
theory Find_Page
  imports Pool
begin

text \<open>
  The slow path of the allocator (\<open>cxl_malloc_generic\<close>): collecting frees while walking the
  pages of a bin, and falling back on a fresh page. It returns for every state with room,
  with a fuel of \<open>2 ^ 64\<close>, since no list of distinct nonzero addresses is longer.
\<close>

section \<open>Finding a page with a free block\<close>

text \<open>A step that only moves free blocks and pages about.\<close>

definition steady :: "cxl_shm \<Rightarrow> shm_heap \<Rightarrow> block_lists \<Rightarrow> page_pool \<Rightarrow> shm_heap \<Rightarrow> block_lists \<Rightarrow> page_pool \<Rightarrow> bool" where
  "steady sh h V P h' V' P' \<longleftrightarrow> client_inv sh h' V' P' \<and> live h' V' = live h V \<and> keeps (live h V) h h' \<and> h_era h' = h_era h
     \<and> others_ok sh h h'"

lemma steady_refl: "client_inv sh h V P \<Longrightarrow> steady sh h V P h V P" by (simp add: steady_def)

lemma steady_trans:
  "steady sh h V P h1 V1 P1 \<Longrightarrow> steady sh h1 V1 P1 h2 V2 P2 \<Longrightarrow> steady sh h V P h2 V2 P2"
  unfolding steady_def by (metis keeps_trans others_ok_trans)

lemma steady_inv: "steady sh h V P h' V' P' \<Longrightarrow> client_inv sh h' V' P'" by (simp add: steady_def)

text \<open>There are \<open>k\<close> pages, or a segment of them, to be had.\<close>

definition room :: "cxl_shm \<Rightarrow> shm_heap \<Rightarrow> page_pool \<Rightarrow> nat \<Rightarrow> bool" where
  "room sh h P k \<longleftrightarrow> k \<le> length (po_free P) \<or> (\<exists>s < MAX_SEGMENT_NUM. claim_segment sh h 0 = Some (s + 1))"

lemma claim_segment_cong:
  assumes "\<And>x. sas_thread_id (h_sas h' x) = sas_thread_id (h_sas h x)"
  shows "claim_segment sh h' n = claim_segment sh h n"
  using assms
proof (induction sh h n rule: claim_segment.induct)
  case (1 sh h n)
  have "claim_segment sh h' (n + 1) = claim_segment sh h (n + 1)"
    if "\<not> unat SEGMENTS_AREA_START + (n + 1) * unat SEGMENT_SIZE > unat (shm_size sh)" "sas_thread_id (h_sas h (sas_at n)) \<noteq> 0"
    using "1.IH" [OF refl] that "1.prems" by simp
  then show ?case
    using "1.prems" by (subst (1 2) claim_segment.simps) (simp add: Let_def)
qed

lemma room_cong:
  assumes "room sh h P k" and "\<And>x. sas_thread_id (h_sas h' x) = sas_thread_id (h_sas h x)" and "po_free P' = po_free P"
  shows "room sh h' P' k"
  using assms(1) claim_segment_cong [OF assms(2), of sh 0] by (simp add: room_def assms(3))

lemma room_mono: "room sh h P (Suc k) \<Longrightarrow> room sh h P k"
  by (auto simp: room_def)

text \<open>
  Every page is either found or not to be had: then the null page is dereferenced. \<open>room\<close>
  rules this out, and each page found uses up one.
\<close>

definition room_kept :: "cxl_shm \<Rightarrow> shm_heap \<Rightarrow> page_pool \<Rightarrow> shm_heap \<Rightarrow> page_pool \<Rightarrow> bool" where
  "room_kept sh h P h' P' \<longleftrightarrow> (\<forall>k \<le> 1022. room sh h P (Suc k) \<longrightarrow> room sh h' P' k)"

lemma room_kept_cong:
  assumes "room_kept sh h1 P1 h' P'" and "\<And>x. sas_thread_id (h_sas h1 x) = sas_thread_id (h_sas h x)" and "po_free P1 = po_free P"
  shows "room_kept sh h P h' P'"
  using assms(1) room_cong [OF _ assms(2,3)] by (auto simp: room_kept_def)

lemma room_kept_same: "(\<And>x. sas_thread_id (h_sas h' x) = sas_thread_id (h_sas h x)) \<Longrightarrow> room_kept sh h P h' P"
  using room_cong [of sh h P _ h' P] by (auto simp: room_kept_def dest: room_mono)

lemma no_room_fresh:
  assumes inv: "client_inv sh h V P" and no: "\<not> room sh h P 1"
  shows "cxl_page_fresh sh i h = Inl Null_Deref"
proof -
  have f: "po_free P = []" using no by (cases "po_free P") (auto simp: room_def)
  have c: "claim_segment sh h 0 \<noteq> Some (s + 1)" if "s < MAX_SEGMENT_NUM" for s
    using no that by (auto simp: room_def)
  have fits: "region_fits sh" and fl: "free_list sh h (po_free P)"
    using inv by (simp_all add: client_inv_def pool_inv_def pool_lists_def)
  have "claim_segment sh h 0 = None"
  proof (rule ccontr)
    assume "claim_segment sh h 0 \<noteq> None"
    then obtain n where n: "claim_segment sh h 0 = Some n" by auto
    note cl = claim_segment_spec [OF n]
    have "n - 1 < MAX_SEGMENT_NUM" "n = (n - 1) + 1" using cl(1,3) fits by (simp_all add: region_fits_def layout)
    then show False using n c by metis
  qed
  moreover have "pq_first (free_queue sh h) = 0" using fl f by (simp add: free_list_def)
  ultimately have "cxl_segment_page_alloc sh h = (None, h)"
    by (simp add: cxl_segment_page_alloc.simps [of sh h] cxl_segment_alloc_def)
  then show ?thesis by (simp add: cxl_page_fresh_def cxl_page_init_def)
qed

lemma pool_fresh:
  assumes inv: "client_inv sh h V P" and i: "i < CXL_BIN_SIZE" "i \<noteq> 2" and r: "room sh h P 1"
  shows "\<exists>p h' V' P'. cxl_page_fresh sh i h = Inr (p, h') \<and> steady sh h V P h' V' P'
    \<and> po_bin P' = (po_bin P)(i := p # po_bin P i) \<and> bl_free V' p \<noteq> [] \<and> room_kept sh h P h' P'"
proof -
  obtain h1 P1 where 1: "cxl_page_fresh sh i h = cxl_page_fresh sh i h1" "steady sh h V P h1 V P1"
    "po_bin P1 = po_bin P" "po_free P1 \<noteq> []" "P1 = P \<and> h1 = h \<or> 1023 \<le> length (po_free P1)"
  proof (cases "po_free P = []")
    case True
    with r obtain s where s: "s < MAX_SEGMENT_NUM" "claim_segment sh h 0 = Some (s + 1)" by (auto simp: room_def)
    from pool_claim [OF inv True s(2,1), of i] obtain h1 where
      h1: "cxl_page_fresh sh i h = cxl_page_fresh sh i h1" "steady sh h V P h1 V (claim_pool s P)"
      by (auto simp: steady_def)
    have l: "length (segment_pages (seg_at s)) = 1023" by (simp add: segment_pages_def layout)
    then have "segment_pages (seg_at s) \<noteq> []" by auto
    then show thesis by (intro that [OF h1]) (use l in \<open>simp_all add: claim_pool_def\<close>)
  qed (use that [OF refl steady_refl [OF inv] refl] in blast)
  then obtain p xs where f: "po_free P1 = p # xs" by (cases "po_free P1") auto
  from pool_fresh_hit [OF steady_inv [OF 1(2)] i f] obtain h2 bs where
    h2: "cxl_page_fresh sh i h1 = Inr (p, h2)" "bs \<noteq> []" "h_sas h2 = h_sas h1"
    "steady sh h1 V P1 h2 (fresh_lists p bs V) (fresh_pool i p P1)"
    by (auto simp: steady_def)
  have "room_kept sh h P h2 (fresh_pool i p P1)"
    using 1(5) claim_segment_cong [of h2 h1 sh 0] h2(3) f by (auto simp: room_kept_def room_def fresh_pool_def)
  moreover have "po_bin (fresh_pool i p P1) = (po_bin P)(i := p # po_bin P i)" by (simp add: fresh_pool_def 1(3))
  ultimately show ?thesis
    using h2(1,2) 1(1) steady_trans [OF 1(2) h2(4)]
    by (intro exI [of _ p] exI [of _ h2] exI [of _ "fresh_lists p bs V"] exI [of _ "fresh_pool i p P1"])
      (simp add: fresh_lists_def)
qed

text \<open>A collection on the way.\<close>

lemma pool_collect:
  assumes inv: "client_inv sh h V P" and fuel: "2 ^ 64 \<le> fuel"
  shows "\<exists>h' V'. cxl_page_free_collect fuel page h = Inr h' \<and> steady sh h V P h' V' P
    \<and> h_tls h' = h_tls h \<and> (\<forall>x. sas_thread_id (h_sas h' x) = sas_thread_id (h_sas h x))"
proof -
  let ?a = "sas_of_segment (cxl_ptr_segment page)"
  have A: "alloc_inv h V" and pi: "pool_inv sh h P" using inv by (simp_all add: client_inv_def)
  have pl: "placed h V" and "lists_of h V" using A by (simp_all add: alloc_inv_def)
  then have "chain (h_cell h) (sf_thread_free (sas_info (h_sas h ?a))) (bl_foreign V ?a)" by (simp add: lists_of_def)
  from chain_length_less [OF this] have l: "length (bl_foreign V ?a) \<le> fuel" using fuel by simp
  let ?V = "refill_lists page (collect_lists ?a V)"
  from alloc_inv_free_collect [OF A l] obtain h' where
    h': "cxl_page_free_collect fuel page h = Inr h'" "alloc_inv h' ?V" "h_tls h' = h_tls h" "h_seg h' = h_seg h" "h_era h' = h_era h"
    "\<And>x. sas_thread_id (h_sas h' x) = sas_thread_id (h_sas h x)" "\<And>x. sf_state (sas_info (h_sas h' x)) = sf_state (sas_info (h_sas h x))"
    "\<And>c. \<not> listed V c \<Longrightarrow> h_cell h' c = h_cell h c"
    "\<And>q. pg_next (h_page h' q) = pg_next (h_page h q) \<and> pg_prev (h_page h' q) = pg_prev (h_page h q)
         \<and> pg_block_size (h_page h' q) = pg_block_size (h_page h q)
         \<and> pg_is_msg_queue_page (h_page h' q) = pg_is_msg_queue_page (h_page h q)" by blast
  have ss: "same_shape h h'" using h'(9) by (simp add: same_shape_def)
  have "live h' ?V = live h V" by (simp add: live_def listed_collect [OF pl] same_shapeD [OF ss])
  moreover have "pool_inv sh h' P" by (rule pool_inv_cong [OF pi ss]) (simp_all add: h'(3,4,6))
  moreover have "others_ok sh h h'" by (rule others_ok_shape [OF ss]) (simp_all add: h'(3,4,6,7))
  ultimately have "steady sh h V P h' ?V P"
    using h'(2,5) keeps_unlisted [OF A ss h'(8)] by (simp add: steady_def client_inv_def)
  then show ?thesis using h'(1,3,6) by blast
qed

lemma free_head_nonempty:
  assumes "client_inv sh h V P"
  shows "pg_free (h_page h p) = 0 \<longleftrightarrow> bl_free V p = []"
proof -
  have "chain (h_cell h) (pg_free (h_page h p)) (bl_free V p)"
    using assms by (simp add: client_inv_def alloc_inv_def lists_of_def)
  then show ?thesis by (cases "bl_free V p") auto
qed

lemma pool_walk:
  assumes "client_inv sh h V P" and "2 ^ 64 \<le> fuel" and "i < CXL_BIN_SIZE"
    and "po_bin P i = as @ ps" and "length ps \<le> n"
  shows "\<exists>r h' V'. find_free_walk n fuel (get_page_by_offset (if ps = [] then 0 else hd ps)) h = Inr (r, h')
    \<and> steady sh h V P h' V' P \<and> h_tls h' = h_tls h \<and> (\<forall>x. sas_thread_id (h_sas h' x) = sas_thread_id (h_sas h x))
    \<and> (case r of None \<Rightarrow> True | Some p \<Rightarrow> p \<in> set ps \<and> bl_free V' p \<noteq> [])"
  using assms(1,4,5)
proof (induction ps arbitrary: n as h V)
  case Nil
  then show ?case using steady_refl [OF Nil.prems(1)] by auto
next
  case (Cons p ps)
  obtain m where n: "n = Suc m" "length ps \<le> m" using Cons.prems(3) by (cases n) auto
  have bl: "dlist (h_page h) (bin_queue sh i h) (as @ p # ps)"
    using Cons.prems(1,2) assms(3) by (auto simp: client_inv_def pool_inv_def pool_lists_def bin_list_def)
  have p: "p \<noteq> 0" "pg_next (h_page h p) = (if ps = [] then 0 else hd ps)"
    using dlist_nonzero [OF bl] dlist_neighbours(1) [OF bl] by auto
  from pool_collect [OF Cons.prems(1) assms(2), of p] obtain h1 V1 where
    h1: "cxl_page_free_collect fuel p h = Inr h1" "steady sh h V P h1 V1 P" "h_tls h1 = h_tls h"
    "\<And>x. sas_thread_id (h_sas h1 x) = sas_thread_id (h_sas h x)" by blast
  have run: "find_free_walk n fuel (get_page_by_offset (if p # ps = [] then 0 else hd (p # ps))) h =
      (if pg_free (h_page h1 p) \<noteq> 0 then Inr (Some p, h1)
       else find_free_walk m fuel (get_page_by_offset (if ps = [] then 0 else hd ps)) h1)"
    using p h1(1) by (simp add: n(1) Let_def)
  show ?case
  proof (cases "pg_free (h_page h1 p) = 0")
    case True
    from Cons.IH [OF steady_inv [OF h1(2)], of "as @ [p]" m] Cons.prems(2) n(2) obtain r h' V' where
      h': "find_free_walk m fuel (get_page_by_offset (if ps = [] then 0 else hd ps)) h1 = Inr (r, h')"
      "steady sh h1 V1 P h' V' P" "h_tls h' = h_tls h1" "\<And>x. sas_thread_id (h_sas h' x) = sas_thread_id (h_sas h1 x)"
      "case r of None \<Rightarrow> True | Some p \<Rightarrow> p \<in> set ps \<and> bl_free V' p \<noteq> []" by auto
    then show ?thesis
      using run True h1(3,4) steady_trans [OF h1(2) h'(2)]
      by (intro exI [of _ r] exI [of _ h'] exI [of _ V']) (auto split: option.splits)
  next
    case False
    then show ?thesis
      using run h1 free_head_nonempty [OF steady_inv [OF h1(2)], of p]
      by (intro exI [of _ "Some p"] exI [of _ h1] exI [of _ V1]) simp
  qed
qed

definition bins_grow :: "page_pool \<Rightarrow> page_pool \<Rightarrow> bool" where
  "bins_grow P P' \<longleftrightarrow> (\<forall>m. set (po_bin P m) \<subseteq> set (po_bin P' m))"

lemma pool_find:
  assumes inv: "client_inv sh h V P" and fuel: "2 ^ 64 \<le> fuel" and i: "i < CXL_BIN_SIZE" "i \<noteq> 2"
  shows "(\<exists>p h' V' P'. cxl_page_queue_find_free_ex fuel sh i h = Inr (Some p, h') \<and> steady sh h V P h' V' P'
      \<and> p \<in> set (po_bin P' i) \<and> bl_free V' p \<noteq> [] \<and> room_kept sh h P h' P' \<and> bins_grow P P')
    \<or> cxl_page_queue_find_free_ex fuel sh i h = Inl Null_Deref \<and> \<not> room sh h P 1"
proof -
  have bl: "dlist (h_page h) (bin_queue sh i h) (po_bin P i)"
    using inv i(1) by (auto simp: client_inv_def pool_inv_def pool_lists_def bin_list_def)
  have "length (po_bin P i) < 2 ^ 64" using bl chain_length_less unfolding dlist_def by blast
  then have l: "length (po_bin P i) \<le> fuel" using fuel by simp
  from pool_walk [OF inv fuel i(1), of "[]", OF _ l] dlist_first [OF bl] obtain q h1 V1 where
    w: "find_free_walk fuel fuel (get_page_by_offset (pq_first (bin_queue sh i h))) h = Inr (q, h1)"
    "steady sh h V P h1 V1 P" "h_tls h1 = h_tls h" "\<And>x. sas_thread_id (h_sas h1 x) = sas_thread_id (h_sas h x)"
    "case q of None \<Rightarrow> True | Some p \<Rightarrow> p \<in> set (po_bin P i) \<and> bl_free V1 p \<noteq> []" by auto
  have r1: "room sh h1 P k \<longleftrightarrow> room sh h P k" for k
    using room_cong [of sh h1 P k h P] room_cong [of sh h P k h1 P] w(4) by metis
  show ?thesis
  proof (cases q)
    case None
    show ?thesis
    proof (cases "room sh h P 1")
      case True
      with pool_fresh [OF steady_inv [OF w(2)] i] r1 obtain p h' V' P' where
        h': "cxl_page_fresh sh i h1 = Inr (p, h')" "steady sh h1 V1 P h' V' P'"
        "po_bin P' = (po_bin P)(i := p # po_bin P i)" "bl_free V' p \<noteq> []" "room_kept sh h1 P h' P'" by blast
      have "cxl_page_queue_find_free_ex fuel sh i h = Inr (Some p, h')"
        using w(1) h'(1) None by (simp add: cxl_page_queue_find_free_ex_def)
      moreover have "p \<in> set (po_bin P' i)" "bins_grow P P'" using h'(3) by (auto simp: bins_grow_def)
      moreover have "room_kept sh h P h' P'" by (rule room_kept_cong [OF h'(5)]) (simp_all add: w(4))
      ultimately show ?thesis using h'(4) steady_trans [OF w(2) h'(2)] by blast
    next
      case False
      then have "cxl_page_fresh sh i h1 = Inl Null_Deref" using no_room_fresh [OF steady_inv [OF w(2)]] r1 by blast
      then show ?thesis using w(1) None False by (simp add: cxl_page_queue_find_free_ex_def)
    qed
  next
    case (Some p)
    then have "cxl_page_queue_find_free_ex fuel sh i h = Inr (Some p, h1)"
      using w(1) by (simp add: cxl_page_queue_find_free_ex_def)
    moreover have "room_kept sh h P h1 P" by (rule room_kept_same) (rule w(4))
    ultimately show ?thesis using w(2,5) Some by (auto simp: bins_grow_def)
  qed
qed

lemma pool_clear_redo:
  assumes "client_inv sh h V P"
  shows "steady sh h V P (clear_redo sh h) V P"
proof -
  let ?h = "clear_redo sh h"
  have eq: "h_page ?h = h_page h" "h_sas ?h = h_sas h" "h_cell ?h = h_cell h" "h_seg ?h = h_seg h" "h_era ?h = h_era h"
    by (simp_all add: clear_redo_def)
  have "pool_inv sh h P" "alloc_inv h V" using assms by (simp_all add: client_inv_def)
  moreover have "pool_inv sh ?h P" by (rule pool_inv_cong [OF calculation(1)]) (simp_all add: eq clear_redo_def)
  moreover have "others_ok sh h ?h" by (rule others_ok_shape) (simp_all add: eq, simp add: tls_frame_def clear_redo_def)
  ultimately show ?thesis
    using alloc_inv_cong [of h V ?h] by (simp add: steady_def client_inv_def eq)
qed

text \<open>The first free block of the bin, from wherever it comes.\<close>

lemma pool_block:
  assumes inv: "client_inv sh h V P" and fuel: "2 ^ 64 \<le> fuel" and i: "i < CXL_BIN_SIZE" "i \<noteq> 2"
  shows "(\<exists>b p h' V' P'. cxl_page_malloc fuel sh i (cxl_find_page sh i h) h = Inr (Some b, Some p, h')
      \<and> steady sh h V P h' V' P' \<and> p \<in> set (po_bin P' i) \<and> bl_free V' p = b # tl (bl_free V' p)
      \<and> room_kept sh h P h' P' \<and> bins_grow P P')
    \<or> cxl_page_malloc fuel sh i (cxl_find_page sh i h) h = Inl Null_Deref \<and> \<not> room sh h P 1"
proof -
  have block: "\<exists>b. page_block p h = Some b \<and> bl_free V p = b # tl (bl_free V p)"
    if I: "client_inv sh h V P" and N: "bl_free V p \<noteq> []" for h V P p
  proof -
    obtain b fs where "bl_free V p = b # fs" using N by (cases "bl_free V p") auto
    moreover have "chain (h_cell h) (pg_free (h_page h p)) (bl_free V p)"
      using I by (simp add: client_inv_def alloc_inv_def lists_of_def)
    ultimately show ?thesis by (simp add: page_block_def)
  qed
  show ?thesis
  proof (cases "cxl_find_page sh i h")
    case (Some p)
    have bl: "dlist (h_page h) (bin_queue sh i h) (po_bin P i)"
      using inv i(1) by (auto simp: client_inv_def pool_inv_def pool_lists_def bin_list_def)
    have p: "pq_first (bin_queue sh i h) = p" "p \<noteq> 0" "pg_free (h_page h p) \<noteq> 0"
      using Some by (auto simp: cxl_find_page_def split: option.splits)
    then have "p \<in> set (po_bin P i)"
      using dlist_first [OF bl] by (metis hd_in_set)
    moreover have "bl_free V p \<noteq> []" using p(3) free_head_nonempty [OF inv] by simp
    moreover have "room_kept sh h P h P" by (rule room_kept_same) simp
    ultimately show ?thesis
      using block [OF inv, of p] steady_refl [OF inv] Some by (auto simp: cxl_page_malloc_def bins_grow_def)
  next
    case None
    let ?h = "clear_redo sh h"
    note c = pool_clear_redo [OF inv]
    have sas: "h_sas ?h = h_sas h" by (simp add: clear_redo_def)
    have run: "cxl_page_malloc fuel sh i (cxl_find_page sh i h) h = bnd (cxl_page_queue_find_free_ex fuel sh i ?h)
        (\<lambda>(page, h). case page of None \<Rightarrow> Inr (None, None, h) | Some page \<Rightarrow> Inr (page_block page h, Some page, h))"
      by (simp add: None cxl_page_malloc_def cxl_malloc_generic_def Let_def)
    from pool_find [OF steady_inv [OF c] fuel i] show ?thesis
    proof (elim disjE exE conjE)
      fix p h' V' P'
      assume h': "cxl_page_queue_find_free_ex fuel sh i ?h = Inr (Some p, h')" "steady sh ?h V P h' V' P'"
        "p \<in> set (po_bin P' i)" "bl_free V' p \<noteq> []" "room_kept sh ?h P h' P'" "bins_grow P P'"
      from block [OF steady_inv [OF h'(2)] h'(4)] obtain b where
        b: "page_block p h' = Some b" "bl_free V' p = b # tl (bl_free V' p)" by blast
      moreover have "room_kept sh h P h' P'" by (rule room_kept_cong [OF h'(5)]) (simp_all add: sas)
      ultimately show ?thesis using run h'(1,3,6) steady_trans [OF c h'(2)] by (intro disjI1) auto
    next
      assume "cxl_page_queue_find_free_ex fuel sh i ?h = Inl Null_Deref" "\<not> room sh ?h P 1"
      then show ?thesis using run room_cong [of sh h P 1 ?h P] sas by auto
    qed
  qed
qed

end
