(* ===== verification/Malloc_Total.thy ===== *)
theory Malloc_Total
  imports Find_Page
begin

text \<open>
  Allocation as a whole: with room left, \<open>cxl_malloc\<close> returns two fresh blocks and leaves
  every live block alone.
\<close>

section \<open>Blocks handed out\<close>

lemma blocks_apart:
  assumes "block_in h p b" "block_in h q c" "b \<noteq> c" "d < bsize h p" "e < bsize h q"
  shows "b + of_nat d \<noteq> c + of_nat e"
proof
  assume eq: "b + of_nat d = c + of_nat e"
  show False
  proof (cases "e \<le> d")
    case True
    then have "c = b + of_nat (d - e)" using eq by (simp add: of_nat_diff algebra_simps)
    with block_in_inside [OF assms(1,2) this] assms(3,4) show False by simp
  next
    case False
    then have "b = c + of_nat (e - d)" using eq by (simp add: of_nat_diff algebra_simps)
    with block_in_inside [OF assms(2,1) this] assms(3,5) show False by simp
  qed
qed

lemma live_block: "b \<in> live h V \<Longrightarrow> block_in h (cxl_ptr_page b) b"
  by (simp add: live_def)

text \<open>Writes inside one block leave the other live blocks alone.\<close>

lemma keeps_write:
  assumes b: "block_in h p b" and L: "L \<subseteq> live h V" "b \<notin> L" and ss: "same_shape h h'"
    and cells: "\<And>c. (\<And>e. e < bsize h p \<Longrightarrow> c \<noteq> b + of_nat e) \<Longrightarrow> h_cell h' c = h_cell h c"
  shows "keeps L h h'"
  unfolding keeps_def same_shapeD [OF ss]
proof (intro conjI ballI allI impI refl)
  fix c assume "c < SEGMENTS_AREA_START"
  then show "h_cell h' c = h_cell h c" using block_high [OF b] by (intro cells) blast
next
  fix x d assume x: "x \<in> L" and d: "d < bsize h (cxl_ptr_page x)"
  have "block_in h (cxl_ptr_page x) x" "x \<noteq> b" using x L live_block by blast+
  then show "h_cell h' (x + of_nat d) = h_cell h (x + of_nat d)"
    using blocks_apart [OF _ b _ d] by (intro cells) blast
qed

lemma live_take:
  assumes "alloc_inv h V" and "bl_free V p = b # fs" and "block_in h' = block_in h"
  shows "live h' (drop_free p V) = insert b (live h V)" and "b \<notin> live h V"
proof -
  note b = block_in_ptr_page [OF alloc_inv_take(3) [OF assms(1,2)]] alloc_inv_take(3) [OF assms(1,2)]
  have "listed V b" using b assms(2) by (simp add: listed_def)
  then show "b \<notin> live h V" by (simp add: live_def)
  show "live h' (drop_free p V) = insert b (live h V)"
    using b by (auto simp: live_def listed_drop_free [OF assms(1,2)] assms(3))
qed

lemma pool_inv_pages:
  assumes "pool_inv sh h P" "same_shape h h'" "h_tls h' = h_tls h" "h_seg h' = h_seg h"
    and "\<And>x. sas_thread_id (h_sas h' x) = sas_thread_id (h_sas h x)"
  shows "pool_inv sh h' P"
  by (rule pool_inv_cong [OF assms(1,2)]) (simp_all add: assms(3-5))

lemma others_ok_pages:
  assumes "same_shape h h'" "h_tls h' = h_tls h" "h_seg h' = h_seg h"
    and "\<And>x. sas_thread_id (h_sas h' x) = sas_thread_id (h_sas h x)"
    and "\<And>x. sf_state (sas_info (h_sas h' x)) = sf_state (sas_info (h_sas h x))"
  shows "others_ok sh h h'"
  by (rule others_ok_shape [OF assms(1)]) (simp_all add: assms)

lemma take_block_page [simp]:
  "pg_next (h_page (take_block b p h) q) = pg_next (h_page h q)"
  "pg_prev (h_page (take_block b p h) q) = pg_prev (h_page h q)"
  "pg_block_size (h_page (take_block b p h) q) = pg_block_size (h_page h q)"
  "pg_is_msg_queue_page (h_page (take_block b p h) q) = pg_is_msg_queue_page (h_page h q)"
  by (simp_all add: take_block_def Let_def)

lemma pool_bin_size:
  assumes "pool_inv sh h P" and "p \<in> set (po_bin P i)" and "i < CXL_BIN_SIZE"
  shows "bsize h p = bin_bytes i"
  using assms unfolding pool_inv_def pool_sizes_def by blast

lemma tbr_client:
  assumes inv: "client_inv sh h V P" and p: "p \<in> set (po_bin P 0)" and f: "bl_free V p = b # fs"
  defines "h' \<equiv> block_to_tbr b p h"
  shows "client_inv sh h' (drop_free p V) P" "live h' (drop_free p V) = insert b (live h V)" "b \<notin> live h V"
    "keeps (live h V) h h'" "bsize h' (cxl_ptr_page b) = 16" "h_era h' = h_era h" "h_sas h' = h_sas h"
    "rr_pptr h' b = 0" "rr_in_use h' b = 1" "rr_ref_cnt h' b = 0" "others_ok sh h h'"
proof -
  have A: "alloc_inv h V" and pi: "pool_inv sh h P" using inv by (simp_all add: client_inv_def)
  have n: "bsize h p = 16" using pool_bin_size [OF pi p] by (simp add: bin_bytes_def layout)
  note B = block_to_tbr_step [OF A f, unfolded n, OF order.refl, folded h'_def]
  have bi: "block_in h p b" by (rule alloc_inv_take(3) [OF A f])
  have cells: "h_cell h' c = h_cell h c" if "c \<noteq> b" "c \<noteq> b + 8" for c
    using that by (simp add: h'_def block_to_tbr_def Let_def set_rr_in_use_def set_rr_ref_cnt_def)
  have ss: "same_shape h h'"
    by (simp add: same_shape_def h'_def block_to_tbr_def Let_def set_rr_in_use_def set_rr_ref_cnt_def)
  have eq: "h_tls h' = h_tls h" "h_seg h' = h_seg h" "h_sas h' = h_sas h"
    by (simp_all add: h'_def block_to_tbr_def Let_def set_rr_in_use_def set_rr_ref_cnt_def)
  have "pool_inv sh h' P" by (rule pool_inv_pages [OF pi ss]) (simp_all add: eq)
  then show "client_inv sh h' (drop_free p V) P" using B(1) by (simp add: client_inv_def)
  show "live h' (drop_free p V) = insert b (live h V)" "b \<notin> live h V" by (rule live_take [OF A f B(2)])+
  show "keeps (live h V) h h'"
  proof (rule keeps_write [OF bi order.refl _ ss])
    show "b \<notin> live h V" by (rule live_take [OF A f B(2)])
    fix c assume c: "\<And>e. e < bsize h p \<Longrightarrow> c \<noteq> b + of_nat e"
    from c [of 0] c [of 8] show "h_cell h' c = h_cell h c" by (intro cells) (simp_all add: n)
  qed
  show "bsize h' (cxl_ptr_page b) = 16" using B(9) n block_in_ptr_page [OF bi] by simp
  show "h_era h' = h_era h" "rr_pptr h' b = 0" "rr_in_use h' b = 1" "rr_ref_cnt h' b = 0"
    by (rule B)+
  show "h_sas h' = h_sas h" by (rule eq)
  show "others_ok sh h h'" by (rule others_ok_pages [OF ss]) (simp_all add: eq)
qed

lemma obj_client:
  fixes emb :: u64
  assumes inv: "client_inv sh h V P" and p: "p \<in> set (po_bin P i)" "3 \<le> i" "i < CXL_BIN_SIZE" and f: "bl_free V p = b # fs"
    and r: "r \<in> live h V" "bsize h (cxl_ptr_page r) = 16"
    and h'_def: "h' = block_to_cxlobj sh b p emb (link_block_to_tbr b r h)"
  shows "client_inv sh h' (drop_free p V) P" "live h' (drop_free p V) = insert b (live h V)" "b \<notin> live h V"
    "keeps (live h V - {r}) h h'" "bsize h' (cxl_ptr_page b) = bin_bytes i"
    "obj_ref_info h' b = pack_ref_info (ucast (shm_thread_id sh)) 1 (h_era h (own_era sh))"
    "obj_embedded h' b = emb" "rr_pptr h' r = b" "rr_ref_cnt h' r = rr_ref_cnt h r + 1"
    "rr_in_use h' r = rr_in_use h r" "h_era h' = (h_era h)(own_era sh := h_era h (own_era sh) + 1)" "others_ok sh h h'"
    "pg_is_msg_queue_page (h_page h' q) = pg_is_msg_queue_page (h_page h q)"
proof -
  have A: "alloc_inv h V" and pi: "pool_inv sh h P" using inv by (simp_all add: client_inv_def)
  have n: "bsize h p = bin_bytes i" "32 \<le> bsize h p"
    using pool_bin_size [OF pi p(1,3)] p(2) by (simp_all add: bin_bytes_def)
  have bi: "block_in h p b" by (rule alloc_inv_take(3) [OF A f])
  have R: "block_in h (cxl_ptr_page r) r" "\<not> listed V r" "16 \<le> bsize h (cxl_ptr_page r)" "cxl_ptr_page r \<noteq> p"
    using r n by (auto simp: live_def)
  note O = block_to_cxlobj_step [OF A f _ R, of sh emb, folded h'_def]
  have n': "24 \<le> bsize h p" using n by simp
  have ss: "same_shape h h'"
    by (simp add: same_shape_def h'_def block_to_cxlobj_def link_block_to_tbr_def Let_def bump_era_def set_rr_ref_cnt_def)
  note bs = same_shapeD(1) [OF ss] and bI = same_shapeD(2) [OF ss]
  have eq: "h_tls h' = h_tls h" "h_seg h' = h_seg h" "h_sas h' = h_sas h"
    by (simp_all add: h'_def block_to_cxlobj_def link_block_to_tbr_def Let_def bump_era_def set_rr_ref_cnt_def)
  have "pool_inv sh h' P" by (rule pool_inv_pages [OF pi ss]) (simp_all add: eq)
  then show "client_inv sh h' (drop_free p V) P" using O(1) n' by (simp add: client_inv_def)
  show L: "live h' (drop_free p V) = insert b (live h V)" "b \<notin> live h V" by (rule live_take [OF A f bI])+
  have cells: "h_cell h' c = h_cell h c" if "c \<noteq> r" "c \<noteq> r + 8" "c \<noteq> b + 8" "c \<noteq> b + 16" for c
    using that by (simp add: h'_def block_to_cxlobj_def link_block_to_tbr_def Let_def bump_era_def set_rr_ref_cnt_def)
  show "keeps (live h V - {r}) h h'"
    unfolding keeps_def same_shapeD [OF ss]
  proof (intro ballI conjI allI impI refl)
    fix c assume c: "c < SEGMENTS_AREA_START"
    show "h_cell h' c = h_cell h c"
      using block_high [OF R(1), of 0] block_high [OF R(1), of 8] block_high [OF bi, of 8] block_high [OF bi, of 16] R(3) n' c
      by (intro cells) auto
  next
    fix x d assume x: "x \<in> live h V - {r}" and d: "d < bsize h (cxl_ptr_page x)"
    have xb: "block_in h (cxl_ptr_page x) x" "x \<noteq> r" "x \<noteq> b" using x L(2) by (auto simp: live_def)
    note a = blocks_apart [OF xb(1) R(1) xb(2) d] and a' = blocks_apart [OF xb(1) bi xb(3) d]
    from a [of 0] a [of 8] a' [of 8] a' [of 16] R(3) n'
    show "h_cell h' (x + of_nat d) = h_cell h (x + of_nat d)" by (intro cells) simp_all
  qed
  show "others_ok sh h h'" by (rule others_ok_pages [OF ss]) (simp_all add: eq)
  show "pg_is_msg_queue_page (h_page h' q) = pg_is_msg_queue_page (h_page h q)" by (rule same_shapeD [OF ss])
  show "h_era h' = (h_era h)(own_era sh := h_era h (own_era sh) + 1)"
    by (simp add: h'_def block_to_cxlobj_def link_block_to_tbr_def Let_def bump_era_def set_rr_ref_cnt_def)
  show "bsize h' (cxl_ptr_page b) = bin_bytes i" using n(1) bs block_in_ptr_page [OF bi] by simp
  show "obj_ref_info h' b = pack_ref_info (ucast (shm_thread_id sh)) 1 (h_era h (own_era sh))"
    "obj_embedded h' b = emb" "rr_pptr h' r = b" "rr_ref_cnt h' r = rr_ref_cnt h r + 1"
    "rr_in_use h' r = rr_in_use h r"
    by (rule O; use n' in blast)+
qed

lemma object_bin:
  assumes "n \<le> 1000"
  obtains i where "cxl_page_queue False (of_nat n + sizeof_CXLObj) = Inr i" "3 \<le> i" "i < CXL_BIN_SIZE"
    "n + 24 \<le> bin_bytes i" "bin_bytes i < n + 40"
proof -
  let ?i = "(n + 24 - 1) div 16 + 2"
  have "of_nat n + sizeof_CXLObj = (of_nat (n + 24) :: u64)" by (simp add: layout)
  then have "cxl_page_queue False (of_nat n + sizeof_CXLObj) = Inr ?i" using bin_index [of "n + 24"] assms by simp
  moreover have "3 \<le> ?i" "?i < CXL_BIN_SIZE" using assms by (simp_all add: layout less_mult_imp_div_less)
  moreover have b: "bin_bytes ?i = 16 * ((n + 23) div 16 + 1)" by (simp add: bin_bytes_def)
  have "n + 24 \<le> bin_bytes ?i" "bin_bytes ?i < n + 40" unfolding b by presburger+
  ultimately show ?thesis using that by blast
qed

lemma keeps_cells:
  assumes "keeps L h h'" "b \<in> L" "16 \<le> bsize h (cxl_ptr_page b)"
  shows "rr_pptr h' b = rr_pptr h b" "rr_in_use h' b = rr_in_use h b" "rr_ref_cnt h' b = rr_ref_cnt h b"
    "bsize h' (cxl_ptr_page b) = bsize h (cxl_ptr_page b)"
proof -
  have c: "h_cell h' (b + of_nat d) = h_cell h (b + of_nat d)" if "d < 16" for d
    using assms that by (simp add: keeps_def)
  from c [of 0] c [of 8] show "rr_pptr h' b = rr_pptr h b" "rr_in_use h' b = rr_in_use h b" "rr_ref_cnt h' b = rr_ref_cnt h b"
    by (simp_all add: rr_pptr_def rr_in_use_def rr_ref_cnt_def)
  show "bsize h' (cxl_ptr_page b) = bsize h (cxl_ptr_page b)" using assms by (simp add: keeps_def)
qed

text \<open>
  What the caller of \<open>cxl_free\<close> has to get right: special blocks (root references and message
  queues) are those of the first two bins, and the memory cleared is inside the block.
\<close>

definition freeable :: "shm_heap \<Rightarrow> bool \<Rightarrow> u64 \<Rightarrow> bool" where
  "freeable h special p \<longleftrightarrow>
     (if special then bsize h p = 16 \<or> pg_is_msg_queue_page (h_page h p) \<and> 192 \<le> bsize h p
      else 24 \<le> bsize h p \<and> \<not> pg_is_msg_queue_page (h_page h p))"

lemma pool_bin_kind:
  assumes "pool_inv sh h P" and "p \<in> set (po_bin P i)" and "i < CXL_BIN_SIZE"
  shows "pg_is_msg_queue_page (h_page h p) \<longleftrightarrow> i = 1"
  using assms unfolding pool_inv_def pool_sizes_def by blast

lemma freeable_keeps:
  assumes "keeps L h h'" and "b \<in> L"
  shows "freeable h' special (cxl_ptr_page b) \<longleftrightarrow> freeable h special (cxl_ptr_page b)"
  using keepsD(2,3) [OF assms] by (simp add: freeable_def)

text \<open>A root reference is a block of the first bin, wherever the block comes from.\<close>

lemma tbr_step:
  assumes inv: "client_inv sh h V P" and fuel: "2 ^ 64 \<le> fuel"
  shows "(\<exists>t h' V' P'. thread_base_ref_alloc fuel sh h = Inr (Some t, h') \<and> client_inv sh h' V' P'
      \<and> t \<notin> live h V \<and> live h' V' = insert t (live h V) \<and> keeps (live h V) h h' \<and> h_era h' = h_era h
      \<and> others_ok sh h h' \<and> room_kept sh h P h' P' \<and> bsize h' (cxl_ptr_page t) = 16 \<and> cxl_ptr_page t \<in> set (po_bin P' 0)
      \<and> rr_pptr h' t = 0 \<and> rr_in_use h' t = 1 \<and> rr_ref_cnt h' t = 0)
    \<or> thread_base_ref_alloc fuel sh h = Inl Null_Deref \<and> \<not> room sh h P 1"
proof -
  have z: "0 < CXL_BIN_SIZE" "(0 :: nat) \<noteq> 2" by (simp_all add: layout)
  from pool_block [OF inv fuel z] show ?thesis
  proof (elim disjE exE conjE)
    fix t p1 h1 V1 P1
    assume 1: "cxl_page_malloc fuel sh 0 (cxl_find_page sh 0 h) h = Inr (Some t, Some p1, h1)" "steady sh h V P h1 V1 P1"
      "p1 \<in> set (po_bin P1 0)" "bl_free V1 p1 = t # tl (bl_free V1 p1)" "room_kept sh h P h1 P1"
    define h2 where "h2 = block_to_tbr t p1 h1"
    note T = tbr_client [OF steady_inv [OF 1(2)] 1(3,4), folded h2_def]
    have live1: "live h1 V1 = live h V" "keeps (live h V) h h1" "h_era h1 = h_era h" "others_ok sh h h1"
      using 1(2) by (simp_all add: steady_def)
    have "thread_base_ref_alloc fuel sh h = Inr (Some t, h2)" using 1(1) by (simp add: thread_base_ref_alloc_def h2_def)
    moreover have "room_kept sh h P h2 P1"
      using 1(5) room_cong [of sh h1 P1 _ h2 P1] T(7) by (auto simp: room_kept_def)
    moreover have "keeps (live h V) h h2" using keeps_trans [OF live1(2)] T(4) live1(1) by simp
    moreover have "alloc_inv h1 V1" using steady_inv [OF 1(2)] by (simp add: client_inv_def)
    then have "cxl_ptr_page t = p1" using block_in_ptr_page [OF alloc_inv_take(3) [OF _ 1(4)]] by blast
    then have "cxl_ptr_page t \<in> set (po_bin P1 0)" using 1(3) by simp
    ultimately show ?thesis
      using T(1-3,5,6,8-10) live1(1,3) others_ok_trans [OF live1(4) T(11)] by (intro disjI1 exI conjI) (assumption | simp)+
  qed (simp add: thread_base_ref_alloc_def)
qed

lemma obj_step:
  assumes inv: "client_inv sh h V P" and fuel: "2 ^ 64 \<le> fuel" and n: "n \<le> 1000"
    and t: "t \<in> live h V" "bsize h (cxl_ptr_page t) = 16"
  shows "(\<exists>ob h' V' P'. cxl_ref_alloc fuel sh (Some t) (of_nat n + sizeof_CXLObj) emb h
          = Inr (\<lparr>ref_tbr = t, ref_data = ob + sizeof_CXLObj\<rparr>, h')
      \<and> client_inv sh h' V' P' \<and> ob \<notin> live h V \<and> live h' V' = insert ob (live h V) \<and> keeps (live h V - {t}) h h'
      \<and> others_ok sh h h' \<and> bins_grow P P' \<and> cxl_ptr_page ob \<in> pool_pages P' \<and> bsize h' (cxl_ptr_page t) = 16
      \<and> freeable h' False (cxl_ptr_page ob) \<and> n + 24 \<le> bsize h' (cxl_ptr_page ob)
      \<and> rr_pptr h' t = ob \<and> rr_in_use h' t = rr_in_use h t \<and> rr_ref_cnt h' t = rr_ref_cnt h t + 1
      \<and> obj_ref_info h' ob = pack_ref_info (ucast (shm_thread_id sh)) 1 (h_era h (own_era sh))
      \<and> obj_embedded h' ob = emb \<and> h_era h' = (h_era h)(own_era sh := h_era h (own_era sh) + 1)
      \<and> room_kept sh h P h' P')
    \<or> cxl_ref_alloc fuel sh (Some t) (of_nat n + sizeof_CXLObj) emb h = Inl Null_Deref \<and> \<not> room sh h P 1"
proof -
  obtain i where i: "cxl_page_queue False (of_nat n + sizeof_CXLObj) = Inr i" "3 \<le> i" "i < CXL_BIN_SIZE" "n + 24 \<le> bin_bytes i"
    using object_bin [OF n] by metis
  have i2: "i \<noteq> 2" using i(2) by simp
  from pool_block [OF inv fuel i(3) i2] show ?thesis
  proof (elim disjE exE conjE)
    fix ob p h1 V1 P1
    assume 1: "cxl_page_malloc fuel sh i (cxl_find_page sh i h) h = Inr (Some ob, Some p, h1)" "steady sh h V P h1 V1 P1"
      "p \<in> set (po_bin P1 i)" "bl_free V1 p = ob # tl (bl_free V1 p)" "bins_grow P P1" "room_kept sh h P h1 P1"
    have live1: "live h1 V1 = live h V" "keeps (live h V) h h1" "h_era h1 = h_era h" "others_ok sh h h1"
      using 1(2) by (simp_all add: steady_def)
    have t1: "t \<in> live h1 V1" "bsize h1 (cxl_ptr_page t) = 16" "rr_in_use h1 t = rr_in_use h t" "rr_ref_cnt h1 t = rr_ref_cnt h t"
      using t live1(1) keeps_cells [OF live1(2), of t] by simp_all
    define h2 where "h2 = block_to_cxlobj sh ob p emb (link_block_to_tbr ob t h1)"
    note O = obj_client [OF steady_inv [OF 1(2)] 1(3) i(2,3) 1(4) t1(1,2) h2_def]
    have pi: "pool_inv sh h2 P1" and A: "alloc_inv h1 V1" using O(1) steady_inv [OF 1(2)] by (simp_all add: client_inv_def)
    have pg: "cxl_ptr_page ob = p" using block_in_ptr_page [OF alloc_inv_take(3) [OF A 1(4)]] .
    have "cxl_ref_alloc fuel sh (Some t) (of_nat n + sizeof_CXLObj) emb h = Inr (\<lparr>ref_tbr = t, ref_data = ob + sizeof_CXLObj\<rparr>, h2)"
      using i(1) 1(1) by (simp add: cxl_ref_alloc_def h2_def Let_def)
    moreover have "keeps (live h V - {t}) h h2"
      using keeps_trans [OF keeps_mono [OF live1(2)]] O(4) live1(1) by auto
    moreover have "bsize h2 (cxl_ptr_page t) = 16"
      using t1(2) by (simp add: h2_def bsize_def block_to_cxlobj_def link_block_to_tbr_def Let_def bump_era_def set_rr_ref_cnt_def)
    moreover have "cxl_ptr_page ob \<in> pool_pages P1" using 1(3) i(3) by (auto simp: pg pool_pages_def)
    moreover have "freeable h2 False (cxl_ptr_page ob)" "n + 24 \<le> bsize h2 (cxl_ptr_page ob)"
      using O(5) i(2,4) pool_bin_kind [OF pi 1(3) i(3)] by (simp_all add: freeable_def pg)
    moreover have "room_kept sh h P h2 P1"
      using 1(6) room_cong [of sh h1 P1 _ h2 P1]
      by (auto simp: room_kept_def h2_def block_to_cxlobj_def link_block_to_tbr_def Let_def bump_era_def set_rr_ref_cnt_def)
    ultimately show ?thesis
      using O(1-3,6-11) 1(5) t1(3,4) live1(1,3) others_ok_trans [OF live1(4) O(12)]
      by (intro disjI1 exI conjI) (assumption | simp)+
  qed (simp add: cxl_ref_alloc_def i(1) Let_def)
qed

lemma malloc_step:
  assumes inv: "client_inv sh h V P" and fuel: "2 ^ 64 \<le> fuel" and n: "n \<le> 1000"
  shows "(\<exists>r ob h' V' P'. cxl_malloc fuel sh (of_nat n) emb h = Inr (\<lparr>ref_tbr = r, ref_data = ob + sizeof_CXLObj\<rparr>, h')
      \<and> client_inv sh h' V' P' \<and> r \<notin> live h V \<and> ob \<notin> live h V \<and> r \<noteq> ob
      \<and> live h' V' = live h V \<union> {r, ob} \<and> keeps (live h V) h h' \<and> others_ok sh h h'
      \<and> {cxl_ptr_page r, cxl_ptr_page ob} \<subseteq> pool_pages P' \<and> bsize h' (cxl_ptr_page r) = 16 \<and> freeable h' False (cxl_ptr_page ob)
      \<and> n + 24 \<le> bsize h' (cxl_ptr_page ob) \<and> rr_pptr h' r = ob \<and> rr_in_use h' r = 1 \<and> rr_ref_cnt h' r = 1
      \<and> obj_ref_info h' ob = pack_ref_info (ucast (shm_thread_id sh)) 1 (h_era h (own_era sh))
      \<and> obj_embedded h' ob = ucast emb \<and> h_era h' = (h_era h)(own_era sh := h_era h (own_era sh) + 1)
      \<and> (\<forall>k \<le> 1021. room sh h P (Suc (Suc k)) \<longrightarrow> room sh h' P' k))
    \<or> cxl_malloc fuel sh (of_nat n) emb h = Inl Null_Deref \<and> \<not> room sh h P 2"
proof -
  from tbr_step [OF inv fuel] show ?thesis
  proof (elim disjE exE conjE)
    assume "thread_base_ref_alloc fuel sh h = Inl Null_Deref" "\<not> room sh h P 1"
    then show ?thesis using room_mono [of sh h P 1] by (auto simp: cxl_malloc_def numeral_2_eq_2)
  next
    fix t h2 V2 P2
    assume T: "thread_base_ref_alloc fuel sh h = Inr (Some t, h2)" "client_inv sh h2 V2 P2" "t \<notin> live h V"
      "live h2 V2 = insert t (live h V)" "keeps (live h V) h h2" "h_era h2 = h_era h" "others_ok sh h h2"
      "room_kept sh h P h2 P2" "bsize h2 (cxl_ptr_page t) = 16" "cxl_ptr_page t \<in> set (po_bin P2 0)"
      "rr_in_use h2 t = 1" "rr_ref_cnt h2 t = 0"
    have run: "cxl_malloc fuel sh (of_nat n) emb h = cxl_ref_alloc fuel sh (Some t) (of_nat n + sizeof_CXLObj) (ucast emb) h2"
      by (simp add: cxl_malloc_def T(1))
    have t: "t \<in> live h2 V2" using T(4) by simp
    from obj_step [OF T(2) fuel n t T(9), of "ucast emb"] show ?thesis
    proof (elim disjE exE conjE)
      assume "cxl_ref_alloc fuel sh (Some t) (of_nat n + sizeof_CXLObj) (ucast emb) h2 = Inl Null_Deref" "\<not> room sh h2 P2 1"
      then show ?thesis using T(8) run by (auto simp: room_kept_def numeral_2_eq_2)
    next
      fix ob h' V' P'
      assume O: "cxl_ref_alloc fuel sh (Some t) (of_nat n + sizeof_CXLObj) (ucast emb) h2 = Inr (\<lparr>ref_tbr = t, ref_data = ob + sizeof_CXLObj\<rparr>, h')"
        "client_inv sh h' V' P'" "ob \<notin> live h2 V2" "live h' V' = insert ob (live h2 V2)" "keeps (live h2 V2 - {t}) h2 h'"
        "others_ok sh h2 h'" "bins_grow P2 P'" "cxl_ptr_page ob \<in> pool_pages P'" "bsize h' (cxl_ptr_page t) = 16"
        "freeable h' False (cxl_ptr_page ob)" "n + 24 \<le> bsize h' (cxl_ptr_page ob)"
        "rr_pptr h' t = ob" "rr_in_use h' t = rr_in_use h2 t" "rr_ref_cnt h' t = rr_ref_cnt h2 t + 1"
        "obj_ref_info h' ob = pack_ref_info (ucast (shm_thread_id sh)) 1 (h_era h2 (own_era sh))"
        "obj_embedded h' ob = ucast emb" "h_era h' = (h_era h2)(own_era sh := h_era h2 (own_era sh) + 1)" "room_kept sh h2 P2 h' P'"
      have "keeps (live h V) h h'" using keeps_trans [OF T(5) keeps_mono [OF O(5)]] T(3,4) by auto
      moreover have "cxl_ptr_page t \<in> set (po_bin P' 0)" "0 < CXL_BIN_SIZE"
        using T(10) O(7) by (auto simp: bins_grow_def layout)
      then have "cxl_ptr_page t \<in> pool_pages P'" by (auto simp: pool_pages_def)
      moreover have "\<forall>k \<le> 1021. room sh h P (Suc (Suc k)) \<longrightarrow> room sh h' P' k"
        using T(8) O(18) by (simp add: room_kept_def)
      ultimately show ?thesis
        using O(1-4,8-17) run T(3,4,6,11,12) others_ok_trans [OF T(7) O(6)]
        by (intro disjI1 exI [of _ t] exI [of _ ob] exI [of _ h'] exI [of _ V'] exI [of _ P']) auto
    qed
  qed
qed

text \<open>
  C3. \<open>cxl_malloc\<close> returns, whatever the state of the lists (first page, walk over the bin with
  collections, fresh page, fresh segment), or dereferences a null page, which it does not while
  a segment or two pages are to be had. The root reference and the object are two blocks that
  were not live and are the only ones that become live; every live block keeps its size and
  contents; the object's block holds the request and its header; it has count 1 and carries the
  client's id and era, the root reference counts one handle and points to it; and the
  allocator's invariant holds again, for this client and for every other.
\<close>

theorem malloc_extends_live:
  assumes inv: "client_inv sh h V P" and fuel: "2 ^ 64 \<le> fuel" and n: "n \<le> 1000"
  shows "(\<exists>r ob h' V' P'. cxl_malloc fuel sh (of_nat n) emb h = Inr (\<lparr>ref_tbr = r, ref_data = ob + sizeof_CXLObj\<rparr>, h')
      \<and> client_inv sh h' V' P' \<and> r \<notin> live h V \<and> ob \<notin> live h V \<and> r \<noteq> ob
      \<and> live h' V' = live h V \<union> {r, ob} \<and> keeps (live h V) h h' \<and> others_ok sh h h'
      \<and> {cxl_ptr_page r, cxl_ptr_page ob} \<subseteq> pool_pages P' \<and> bsize h' (cxl_ptr_page r) = 16 \<and> freeable h' False (cxl_ptr_page ob)
      \<and> n + 24 \<le> bsize h' (cxl_ptr_page ob) \<and> rr_pptr h' r = ob \<and> rr_in_use h' r = 1 \<and> rr_ref_cnt h' r = 1
      \<and> obj_ref_info h' ob = pack_ref_info (ucast (shm_thread_id sh)) 1 (h_era h (own_era sh))
      \<and> obj_embedded h' ob = ucast emb \<and> h_era h' = (h_era h)(own_era sh := h_era h (own_era sh) + 1))
    \<or> cxl_malloc fuel sh (of_nat n) emb h = Inl Null_Deref \<and> \<not> room sh h P 2"
  using malloc_step [OF assms, of emb]
proof (elim disjE exE conjE)
  fix r ob h' V' P'
  assume "cxl_malloc fuel sh (of_nat n) emb h = Inr (\<lparr>ref_tbr = r, ref_data = ob + sizeof_CXLObj\<rparr>, h')" "client_inv sh h' V' P'"
    "r \<notin> live h V" "ob \<notin> live h V" "r \<noteq> ob" "live h' V' = live h V \<union> {r, ob}" "keeps (live h V) h h'" "others_ok sh h h'"
    "{cxl_ptr_page r, cxl_ptr_page ob} \<subseteq> pool_pages P'" "bsize h' (cxl_ptr_page r) = 16" "freeable h' False (cxl_ptr_page ob)"
    "n + 24 \<le> bsize h' (cxl_ptr_page ob)" "rr_pptr h' r = ob" "rr_in_use h' r = 1" "rr_ref_cnt h' r = 1"
    "obj_ref_info h' ob = pack_ref_info (ucast (shm_thread_id sh)) 1 (h_era h (own_era sh))"
    "obj_embedded h' ob = ucast emb" "h_era h' = (h_era h)(own_era sh := h_era h (own_era sh) + 1)"
  then show ?thesis by (intro disjI1 exI conjI)
qed (intro disjI2 conjI)

end
