(* ===== verification/Free_Total.thy ===== *)
theory Free_Total
  imports Malloc_Total
begin

text \<open>
  Freeing as a whole: a live block goes back to its lists, a page without live blocks to the
  free queue, and a segment without used pages to the region; no other live block is touched.
\<close>

section \<open>A page with no live block\<close>

lemma idle_page_listed:
  assumes A: "alloc_inv h V" and u: "pg_used (h_page h p) = 0" and b: "block_in h p b"
  shows "b \<in> set (bl_free V p) \<union> set (bl_local V p)"
  using unlisted_used [OF A b] u block_in_ptr_page [OF b] 
proof (cases "b \<in> set (bl_foreign V (sas_of_segment (cxl_ptr_segment b)))")
  case True
  let ?a = "sas_of_segment (cxl_ptr_segment b)"
  have "b \<in> set (blocks_of_page p (bl_foreign V ?a))" using True block_in_ptr_page [OF b] by (simp add: blocks_of_page_def)
  then have "0 < length (blocks_of_page p (bl_foreign V ?a))" by (auto simp: length_pos_if_in_set)
  then show ?thesis using foreign_counted [OF A, of p ?a] u by simp
next
  case False
  then show ?thesis using unlisted_used [OF A b] u block_in_ptr_page [OF b] by (auto simp: listed_def)
qed

lemma alloc_inv_drop_page:
  assumes A: "alloc_inv h V" and u: "pg_used (h_page h p) = 0"
    and p: "pg_free (h_page h' p) = 0" "pg_local_free (h_page h' p) = 0" "pg_block_size (h_page h' p) = 0"
    and others: "\<And>q. q \<noteq> p \<Longrightarrow> pg_free (h_page h' q) = pg_free (h_page h q)
         \<and> pg_local_free (h_page h' q) = pg_local_free (h_page h q)
         \<and> pg_used (h_page h' q) = pg_used (h_page h q) \<and> pg_block_size (h_page h' q) = pg_block_size (h_page h q)
         \<and> pg_is_msg_queue_page (h_page h' q) = pg_is_msg_queue_page (h_page h q)"
    and same: "h_cell h' = h_cell h" "h_sas h' = h_sas h"
  defines "V' \<equiv> V\<lparr>bl_free := (bl_free V)(p := []), bl_local := (bl_local V)(p := [])\<rparr>"
  shows "alloc_inv h' V'" and "live h' V' = live h V" and "keeps (live h V) h h'"
    and "\<And>q. bsize h' q = (if q = p then 0 else bsize h q)"
proof -
  have I: "lists_of h V" "placed h V" "disjoint V" "counted h V" using A by (simp_all add: alloc_inv_def)
  note own = idle_page_listed [OF A u]
  show bs: "bsize h' q = (if q = p then 0 else bsize h q)" for q
    using p(3) others [of q] by (simp add: bsize_def)
  have bi: "block_in h' q b \<longleftrightarrow> q \<noteq> p \<and> block_in h q b" for q b
    using bs [of q] by (auto simp: block_in_def page_cap_def)
  have np: "cxl_ptr_page b \<noteq> p" if "b \<in> set (bl_foreign V a)" for a b
    using own [of b] placedD(3) [OF I(2) that] disjointD(2,3) [OF I(3) that] by auto
  have "lists_of h' V'"
    using I(1) others p by (auto simp: lists_of_def V'_def same)
  moreover have pl: "placed h' V'"
    using placedD [OF I(2)] np by (auto simp: placed_def V'_def bi split: if_splits)
  moreover have "disjoint V'"
    using disjointD [OF I(3)] by (auto simp: disjoint_def V'_def)
  moreover have "counted h' V'"
    using I(4) others bs by (auto simp: counted_def V'_def page_cap_def)
  ultimately show "alloc_inv h' V'" by (simp add: alloc_inv_def)
  have li: "listed V' b \<longleftrightarrow> listed V b" if "cxl_ptr_page b \<noteq> p" for b
    using that by (simp add: listed_def V'_def)
  have nl: "b \<notin> live h V" if "cxl_ptr_page b = p" for b
    using that own [of b] by (auto simp: live_def listed_def)
  show "live h' V' = live h V"
  proof (rule set_eqI)
    fix b
    show "b \<in> live h' V' \<longleftrightarrow> b \<in> live h V"
      using nl [of b] li [of b] by (cases "cxl_ptr_page b = p") (auto simp: live_def bi)
  qed
  show "keeps (live h V) h h'" using nl others by (auto simp: keeps_def bs same)
qed

text \<open>Giving a segment back.\<close>

definition drop_segment :: "nat \<Rightarrow> page_pool \<Rightarrow> page_pool" where
  "drop_segment s P = P\<lparr>po_free := filter (\<lambda>a. a \<notin> set (segment_pages (seg_at s))) (po_free P)\<rparr>"

lemma alloc_inv_zero_pages:
  assumes A: "alloc_inv h V" and zero: "\<And>p. p \<in> X \<Longrightarrow> bsize h p = 0" "\<And>p. p \<in> X \<Longrightarrow> h_page h' p = zero_page"
    and others: "\<And>q. q \<notin> X \<Longrightarrow> pg_free (h_page h' q) = pg_free (h_page h q)
         \<and> pg_local_free (h_page h' q) = pg_local_free (h_page h q)
         \<and> pg_block_size (h_page h' q) = pg_block_size (h_page h q) \<and> pg_used (h_page h' q) = pg_used (h_page h q)
         \<and> pg_is_msg_queue_page (h_page h' q) = pg_is_msg_queue_page (h_page h q)"
    and same: "h_cell h' = h_cell h" "\<And>a. sf_thread_free (sas_info (h_sas h' a)) = sf_thread_free (sas_info (h_sas h a))"
  shows "alloc_inv h' V" "live h' V = live h V" "keeps (live h V) h h'" "bsize h' = bsize h"
proof -
  show bs: "bsize h' = bsize h"
  proof
    fix q show "bsize h' q = bsize h q"
      using zero [of q] others [of q] by (cases "q \<in> X") (auto simp: bsize_def zero_page_def)
  qed
  have bi: "block_in h' = block_in h" "page_cap h' = page_cap h" by (simp_all add: fun_eq_iff block_in_def page_cap_def bs)
  have data: "pg_free (h_page h' q) = pg_free (h_page h q) \<and> pg_local_free (h_page h' q) = pg_local_free (h_page h q)" for q
    using zero [of q] others [of q] page_without_blocks [OF A, of q] by (cases "q \<in> X") (auto simp: zero_page_def)
  have used: "pg_used (h_page h' q) = pg_used (h_page h q)"
    "pg_is_msg_queue_page (h_page h' q) = pg_is_msg_queue_page (h_page h q)" if "bsize h q \<noteq> 0" for q
    using others [of q] zero(1) [of q] that by blast+
  show "alloc_inv h' V"
    using A data used by (simp add: alloc_inv_def lists_of_def placed_def counted_def bi bs same)
  show "live h' V = live h V" by (simp add: live_def bi)
  have "bsize h (cxl_ptr_page b) \<noteq> 0" if "b \<in> live h V" for b using that by (auto simp: live_def elim: block_inE)
  then show "keeps (live h V) h h'" using used by (simp add: keeps_def bs same)
qed

lemma segment_metas: "meta_at (seg_at s) ` {0..<PAGES_PER_SEGMENT} = insert (meta_at (seg_at s) 0) (set (segment_pages (seg_at s)))"
  unfolding set_segment_pages image_insert [symmetric] by (rule arg_cong [where f = "(`) _"]) (auto simp: layout)

lemma pool_segment_free:
  assumes inv: "client_inv sh h V P" and s: "owned sh h s" "pages_used P s = {}"
  shows "\<exists>h'. cxl_segment_free sh (seg_at s) h = Inr h' \<and> steady sh h V P h' V (drop_segment s P)
    \<and> bsize h' = bsize h \<and> sas_thread_id (h_sas h' (sas_at s)) = 0"
proof -
  have A: "alloc_inv h V" and pi: "pool_lists sh h P" "pool_sizes h P" "pool_segments sh h P" "segments_ok h"
    "shm_thread_id sh \<noteq> 0" "unat (shm_thread_id sh) < 2 ^ 16" "region_fits sh"
    using inv by (simp_all add: client_inv_def pool_inv_def)
  have s': "s < MAX_SEGMENT_NUM" "sas_thread_id (h_sas h (sas_at s)) = shm_thread_id sh" using s(1) by (simp_all add: owned_def)
  let ?S = "set (segment_pages (seg_at s))" and ?all = "insert (meta_at (seg_at s) 0) (set (segment_pages (seg_at s)))"
  have sub: "?S \<subseteq> set (po_free P)" using s(2) by (auto simp: pages_used_def)
  have zero: "bsize h p = 0" if "p \<in> ?all" for p
    using that sub pi(2,4) s'(1) unfolding pool_sizes_def segments_ok_def by auto
  have m0: "meta_at (seg_at s) 0 \<notin> pool_pages P"
    using meta_0_outside [OF s'(1)] pi(3) by (auto simp: pool_segments_def owned_def)
  have fl: "free_list sh h (po_free P)" and bl: "\<And>k. k < CXL_BIN_SIZE \<Longrightarrow> bin_list sh k h (po_bin P k)"
    and bb: "\<And>k. k < CXL_BIN_SIZE \<Longrightarrow> pq_block_size (bin_queue sh k h) = of_nat (bin_bytes k)"
    using pi(1) by (simp_all add: pool_lists_def)
  have m0': "meta_at (seg_at s) 0 \<notin> set (po_free P)" using m0 by (simp add: pool_pages_def)
  from segment_free_spec [OF s' fl sub m0', unfolded segment_metas] obtain h' where
    h': "cxl_segment_free sh (seg_at s) h = Inr h'" "free_list sh h' (po_free (drop_segment s P))"
    "h_sas h' = (h_sas h)(sas_at s := (h_sas h (sas_at s))\<lparr>sas_thread_id := 0\<rparr>)" "h_seg h' = (h_seg h)(seg_at s := zero_seg)"
    "\<And>i. i < PAGES_PER_SEGMENT \<Longrightarrow> h_page h' (meta_at (seg_at s) i) = zero_page" "h_cell h' = h_cell h" "h_era h' = h_era h"
    "\<And>a. tls_pages (h_tls h' a) = tls_pages (h_tls h a)" "tls_frame sh h h'"
    "\<And>a. a \<notin> ?all \<Longrightarrow> pg_free (h_page h' a) = pg_free (h_page h a)
         \<and> pg_local_free (h_page h' a) = pg_local_free (h_page h a)
         \<and> pg_block_size (h_page h' a) = pg_block_size (h_page h a) \<and> pg_used (h_page h' a) = pg_used (h_page h a)
         \<and> pg_is_msg_queue_page (h_page h' a) = pg_is_msg_queue_page (h_page h a)"
    "\<And>q zs. dlist (h_page h) q zs \<Longrightarrow> set zs \<inter> (set (po_free P) \<union> ?all) = {} \<Longrightarrow> dlist (h_page h') q zs"
    unfolding drop_segment_def by auto
  have z: "h_page h' p = zero_page" if "p \<in> ?all" for p
    using that h'(5) unfolding segment_metas [symmetric] by auto
  have tf: "sf_thread_free (sas_info (h_sas h' a)) = sf_thread_free (sas_info (h_sas h a))" for a by (simp add: h'(3))
  have D: "alloc_inv h' V" "live h' V = live h V" "keeps (live h V) h h'" "bsize h' = bsize h"
    by (rule alloc_inv_zero_pages [OF A zero z h'(10,6) tf]; assumption)+
  have ow: "owned sh h' s2 \<longleftrightarrow> owned sh h s2 \<and> s2 \<noteq> s" for s2
    using sas_at_inj [OF _ s'(1), of s2] pi(5) by (auto simp: owned_def h'(3))
  have bins: "p \<notin> set (po_bin P k)" if "k < CXL_BIN_SIZE" "p \<in> set (po_free P) \<union> ?all" for k p
    using that pool_disjoint [OF pi(2) _ that(1)] m0 sub by (auto simp: pool_pages_def)
  have inS: "p \<in> ?S \<Longrightarrow> p \<notin> pool_pages (drop_segment s P)" "p \<notin> ?S \<Longrightarrow> p \<in> pool_pages (drop_segment s P) \<longleftrightarrow> p \<in> pool_pages P" for p
    using bins [of _ p] by (auto simp: pool_pages_def drop_segment_def)
  have "dlist (h_page h') (bin_queue sh k h) (po_bin P k)" if "k < CXL_BIN_SIZE" for k
    using bl [OF that] bins [OF that] by (intro h'(11)) (auto simp: bin_list_def)
  then have "pool_lists sh h' (drop_segment s P)"
    using h'(2,8) bb by (simp add: pool_lists_def bin_list_def drop_segment_def)
  moreover have "pool_sizes h' (drop_segment s P)"
  proof -
    have "pg_is_msg_queue_page (h_page h' p) = pg_is_msg_queue_page (h_page h p)" if "k < CXL_BIN_SIZE" "p \<in> set (po_bin P k)" for p k
      using h'(10) [of p] bins [OF that(1), of p] that(2) by blast
    then show ?thesis using pi(2) by (simp add: pool_sizes_def drop_segment_def D(4))
  qed
  moreover have "pool_segments sh h' (drop_segment s P)"
    by (rule pool_segments_step [OF pi(3) s'(1)]) (use ow inS in \<open>auto simp: drop_segment_def h'(4)\<close>)
  moreover have ok: "segments_ok h'"
    by (rule segments_ok_step [OF pi(4) s'(1)]) (use zero in \<open>auto simp: h'(3,4) D(4) zero_seg_def\<close>)
  moreover have "others_ok sh h h'"
  proof (rule others_ok_step [OF pi(3) s'(1) h'(9) _ _ _ _ _ _ ok])
    show "dlist (h_page h') q zs" if "dlist (h_page h) q zs" "set zs \<inter> (pool_pages P \<union> ?all) = {}" for q zs
      using that(2) by (intro h'(11) [OF that(1)]) (auto simp: pool_pages_def)
  qed (use s'(2) h'(10) in \<open>auto simp: h'(3,4) D(4)\<close>)
  ultimately show ?thesis
    using h'(1,7) D pi(5-7) by (simp add: steady_def client_inv_def pool_inv_def h'(3))
qed

definition return_pool :: "nat \<Rightarrow> u64 \<Rightarrow> page_pool \<Rightarrow> page_pool" where
  "return_pool i p P = P\<lparr>po_bin := (po_bin P)(i := remove1 p (po_bin P i)), po_free := p # po_free P\<rparr>"

definition drop_page :: "u64 \<Rightarrow> block_lists \<Rightarrow> block_lists" where
  "drop_page p V = V\<lparr>bl_free := (bl_free V)(p := []), bl_local := (bl_local V)(p := [])\<rparr>"

lemma return_pool_set:
  assumes P: "pool_sizes h P" and p: "p \<in> set (po_bin P i)" "i < CXL_BIN_SIZE" and d: "distinct (po_bin P i)" and k: "k < CXL_BIN_SIZE"
  shows "set (po_bin (return_pool i p P) k) = set (po_bin P k) - {p}"
  using pool_bins_disjoint [OF P p(2) k _ p(1)] d by (auto simp: return_pool_def)

lemma return_pool_pages:
  assumes P: "pool_sizes h P" and p: "p \<in> set (po_bin P i)" "i < CXL_BIN_SIZE" and d: "distinct (po_bin P i)"
  shows "pool_pages (return_pool i p P) = pool_pages P"
proof -
  have f: "po_free (return_pool i p P) = p # po_free P" by (simp add: return_pool_def)
  have "pool_pages (return_pool i p P) = insert p (set (po_free P)) \<union> (\<Union>k<CXL_BIN_SIZE. set (po_bin P k) - {p})"
    unfolding pool_pages_def f using return_pool_set [OF assms] by simp
  also have "\<dots> = pool_pages P" using p by (auto simp: pool_pages_def)
  finally show ?thesis .
qed

lemma return_pool_sizes:
  assumes P: "pool_sizes h P" and p: "p \<in> set (po_bin P i)" "i < CXL_BIN_SIZE" and d: "distinct (po_bin P i)"
    and sz: "bsize h' p = 0" "\<And>q. q \<noteq> p \<Longrightarrow> bsize h' q = bsize h q \<and> pg_is_msg_queue_page (h_page h' q) = pg_is_msg_queue_page (h_page h q)"
  shows "pool_sizes h' (return_pool i p P)"
  unfolding pool_sizes_def
proof (intro conjI allI impI ballI)
  note R = return_pool_set [OF P p d]
  fix k m q assume k: "k < CXL_BIN_SIZE"
  show "bsize h' q = bin_bytes k" "pg_is_msg_queue_page (h_page h' q) = (k = 1)" if "q \<in> set (po_bin (return_pool i p P) k)"
    using that P sz(2) [of q] k unfolding R [OF k] by (auto simp: pool_sizes_def)
  assume m: "m < CXL_BIN_SIZE" "k \<noteq> m"
  show "set (po_bin (return_pool i p P) k) \<inter> set (po_bin (return_pool i p P) m) = {}"
    using pool_bins_disjoint [OF P k m] unfolding R [OF k] R [OF m(1)] by blast
next
  fix q assume "q \<in> set (po_free (return_pool i p P))"
  then show "bsize h' q = 0" using sz P by (cases "q = p") (auto simp: return_pool_def pool_sizes_def)
qed (use P in \<open>simp add: return_pool_def pool_sizes_def\<close>)

lemma pool_page_return:
  assumes inv: "client_inv sh h V P" and p: "p \<in> set (po_bin P i)" "i < CXL_BIN_SIZE" and u: "pg_used (h_page h p) = 0"
    and s: "s < MAX_SEGMENT_NUM" "owned sh h s" "p \<in> set (segment_pages (seg_at s))"
  defines "h3 \<equiv> upd_seg (seg_at s) (\<lambda>g. g\<lparr>seg_used := seg_used g - 1\<rparr>)
    (with_free_queue sh (push_state p) (upd_page p (\<lambda>_. zero_page) (with_bin sh i (remove_state p) h)))"
  shows "steady sh h V P h3 (drop_page p V) (return_pool i p P)" "bsize h3 p = 0" "h_sas h3 = h_sas h"
    "seg_used (h_seg h3 (seg_at s)) = seg_used (h_seg h (seg_at s)) - 1"
proof -
  have A: "alloc_inv h V" and pi: "pool_lists sh h P" "pool_sizes h P" "pool_segments sh h P" "segments_ok h"
    "shm_thread_id sh \<noteq> 0" "unat (shm_thread_id sh) < 2 ^ 16" "region_fits sh"
    using inv by (simp_all add: client_inv_def pool_inv_def)
  obtain as bs where ps: "po_bin P i = as @ p # bs" using p(1) by (auto simp: in_set_conv_decomp)
  have fl: "free_list sh h (po_free P)" and bl: "\<And>k. k < CXL_BIN_SIZE \<Longrightarrow> bin_list sh k h (po_bin P k)"
    and bb: "\<And>k. k < CXL_BIN_SIZE \<Longrightarrow> pq_block_size (bin_queue sh k h) = of_nat (bin_bytes k)"
    using pi(1) by (simp_all add: pool_lists_def)
  have d: "distinct (po_bin P i)" using dlist_distinct bl [OF p(2)] unfolding bin_list_def by metis
  then have rm: "remove1 p (po_bin P i) = as @ bs" unfolding ps by (simp add: remove1_append)
  have di: "set (as @ p # bs) \<inter> set (po_free P) = {}" using pool_disjoint [OF pi(2) _ p(2)] ps by auto
  note W = with_bin_page_free_step [OF bl [OF p(2), unfolded ps] fl di]
  let ?h2 = "with_free_queue sh (push_state p) (upd_page p (\<lambda>_. zero_page) (with_bin sh i (remove_state p) h))"
  have h3: "h_page h3 = h_page ?h2" "h_tls h3 = h_tls ?h2" "h_cell h3 = h_cell h" "h_sas h3 = h_sas h" "h_era h3 = h_era h"
    "h_seg h3 = (h_seg h)(seg_at s := (h_seg h (seg_at s))\<lparr>seg_used := seg_used (h_seg h (seg_at s)) - 1\<rparr>)"
    using W by (simp_all add: h3_def upd_seg_def)
  have pages: "q \<noteq> p \<Longrightarrow> pg_free (h_page h3 q) = pg_free (h_page h q) \<and> pg_local_free (h_page h3 q) = pg_local_free (h_page h q)
         \<and> pg_used (h_page h3 q) = pg_used (h_page h q) \<and> pg_block_size (h_page h3 q) = pg_block_size (h_page h q)
         \<and> pg_is_msg_queue_page (h_page h3 q) = pg_is_msg_queue_page (h_page h q)" for q
    using W(4) h3(1) by simp
  have D: "alloc_inv h3 (drop_page p V)" "live h3 (drop_page p V) = live h V" "keeps (live h V) h h3"
    "\<And>q. bsize h3 q = (if q = p then 0 else bsize h q)"
    unfolding drop_page_def by (rule alloc_inv_drop_page [OF A u]; use W(3,9) h3 pages in simp)+
  have ow: "owned sh h3 = owned sh h" by (simp add: fun_eq_iff owned_def h3(4))
  have pp: "pool_pages (return_pool i p P) = pool_pages P" by (rule return_pool_pages [OF pi(2) p d])
  have inS: "q \<in> pool_pages P" if "q \<in> set (segment_pages (seg_at s))" for q
    using that pi(3) s(2) by (auto simp: pool_segments_def)
  have dl: "dlist (h_page h3) q zs" if "dlist (h_page h) q zs" "set zs \<inter> (set (po_bin P i) \<union> set (po_free P)) = {}" for q zs
    using W(12) [OF that(1)] that(2) h3(1) by (simp add: ps)
  have "pool_lists sh h3 (return_pool i p P)"
    unfolding pool_lists_def
  proof (intro conjI allI impI)
    show "free_list sh h3 (po_free (return_pool i p P))" using W(2) by (simp add: free_list_def h3 return_pool_def)
    fix k assume k: "k < CXL_BIN_SIZE"
    show "pq_block_size (bin_queue sh k h3) = of_nat (bin_bytes k)" using W(10) bb [OF k] by (simp add: h3)
    show "bin_list sh k h3 (po_bin (return_pool i p P) k)"
    proof (cases "k = i")
      case False
      have "set (po_bin P k) \<inter> (set (po_bin P i) \<union> set (po_free P)) = {}"
        using pool_bins_disjoint [OF pi(2) k p(2) False] pool_disjoint [OF pi(2) _ k] by auto
      then show ?thesis using W(11) dl bl [OF k] False by (simp add: bin_list_def h3(2) return_pool_def)
    qed (use W(1) rm in \<open>simp add: bin_list_def h3 return_pool_def\<close>)
  qed
  moreover have "pool_sizes h3 (return_pool i p P)"
    by (rule return_pool_sizes [OF pi(2) p d]) (use D(4) pages in auto)
  moreover have "pool_segments sh h3 (return_pool i p P)"
  proof (rule pool_segments_step [OF pi(3) s(1)])
    have np: "p \<notin> set (po_free P)" using di by auto
    then have u: "pages_used P s = insert p (pages_used (return_pool i p P) s)" "p \<notin> pages_used (return_pool i p P) s"
      using s(3) by (auto simp: pages_used_def return_pool_def)
    moreover have "unat (seg_used (h_seg h (seg_at s))) = card (pages_used P s)" using pi(3) s(2) by (simp add: pool_segments_def)
    ultimately show "unat (seg_used (h_seg h3 (seg_at s))) = card (pages_used (return_pool i p P) s)"
      using pages_used_few(1) [of "return_pool i p P" s] by (simp add: h3(6) unat_sub_if_size)
  qed (use ow pp inS s h3(6) in \<open>auto simp: return_pool_def\<close>)
  moreover have ok: "segments_ok h3"
    by (rule segments_ok_step [OF pi(4) s(1)]) (use pi(4,5) s D(4) h3(4,6) in \<open>auto simp: segments_ok_def owned_def\<close>)
  moreover have "others_ok sh h h3"
  proof (rule others_ok_step [OF pi(3) s(1) _ _ _ _ _ _ _ ok])
    show "dlist (h_page h3) q zs" if "dlist (h_page h) q zs"
      "set zs \<inter> (pool_pages P \<union> insert (meta_at (seg_at s) 0) (set (segment_pages (seg_at s)))) = {}" for q zs
      using that(2) p(2) by (intro dl [OF that(1)]) (auto simp: pool_pages_def)
    show "tls_frame sh h h3" using W(13) by (simp add: tls_frame_def h3(2))
  qed (use s D(4) h3(4,6) pages in \<open>auto simp: owned_def\<close>)
  ultimately show "steady sh h V P h3 (drop_page p V) (return_pool i p P)"
    using D(1-3) h3(5) pi(5-7) by (simp add: steady_def client_inv_def pool_inv_def)
  show "bsize h3 p = 0" "h_sas h3 = h_sas h" "seg_used (h_seg h3 (seg_at s)) = seg_used (h_seg h (seg_at s)) - 1"
    using D(4) h3(4,6) by simp_all
qed

text \<open>
  The page \<open>p\<close> leaves its bin for the free queue; with the last used page of its segment, the
  segment has no owner any more and its pages leave the free queue.
\<close>

definition page_given_back :: "shm_heap \<Rightarrow> page_pool \<Rightarrow> u64 \<Rightarrow> shm_heap \<Rightarrow> page_pool \<Rightarrow> bool" where
  "page_given_back h P p h' P' \<longleftrightarrow>
     (let segment = cxl_ptr_segment p; sas = sas_of_segment segment
      in bsize h' p = 0 \<and> (\<forall>k < CXL_BIN_SIZE. po_bin P' k = remove1 p (po_bin P k))
       \<and> (if seg_used (h_seg h segment) = 1
          then po_free P' = filter (\<lambda>a. a \<notin> set (segment_pages segment)) (po_free P) \<and> sas_thread_id (h_sas h' sas) = 0
          else po_free P' = p # po_free P \<and> sas_thread_id (h_sas h' sas) = sas_thread_id (h_sas h sas)))"

lemma page_given_back_cong:
  "h_seg h1 = h_seg h \<Longrightarrow> h_sas h1 = h_sas h \<Longrightarrow> page_given_back h1 P p h' P' \<longleftrightarrow> page_given_back h P p h' P'"
  by (simp add: page_given_back_def)

lemma page_free_client:
  assumes inv: "client_inv sh h V P" and p: "p \<in> set (po_bin P i)" "i < CXL_BIN_SIZE" and u: "pg_used (h_page h p) = 0"
  shows "\<exists>h' V' P'. cxl_page_free sh p i h = Inr h' \<and> steady sh h V P h' V' P' \<and> page_given_back h P p h' P'"
proof -
  have pi: "pool_sizes h P" "pool_segments sh h P" using inv by (simp_all add: client_inv_def pool_inv_def)
  have "p \<in> pool_pages P" using p by (auto simp: pool_pages_def)
  then obtain s j where s: "owned sh h s" "s < MAX_SEGMENT_NUM" "j < PAGES_PER_SEGMENT" "p = meta_at (seg_at s) j"
    "p \<in> set (segment_pages (seg_at s))" using pool_page [OF pi(2)] by metis
  have seg: "cxl_ptr_segment p = seg_at s" unfolding s(4) using s(2,3) by (rule cxl_ptr_segment_meta)
  define h3 where "h3 = upd_seg (seg_at s) (\<lambda>g. g\<lparr>seg_used := seg_used g - 1\<rparr>)
    (with_free_queue sh (push_state p) (upd_page p (\<lambda>_. zero_page) (with_bin sh i (remove_state p) h)))"
  have run: "cxl_page_free sh p i h = (if seg_used (h_seg h3 (seg_at s)) = 0 then cxl_segment_free sh (seg_at s) h3 else Inr h3)"
    by (simp add: cxl_page_free_def Let_def seg h3_def)
  note R = pool_page_return [OF inv p u s(2,1,5), folded h3_def]
  note st = R(1)
  have bins: "po_bin (return_pool i p P) k = remove1 p (po_bin P k)" if "k < CXL_BIN_SIZE" for k
    using pool_bins_disjoint [OF pi(1) p(2) that _ p(1)] by (cases "k = i") (auto simp: return_pool_def remove1_idem)
  have z: "seg_used (h_seg h3 (seg_at s)) = 0 \<longleftrightarrow> seg_used (h_seg h (seg_at s)) = 1" by (simp add: R(4))
  show ?thesis
  proof (cases "seg_used (h_seg h3 (seg_at s)) = 0")
    case True
    have own: "owned sh h3 s" using s(1) by (simp add: owned_def h3_def)
    have "unat (seg_used (h_seg h3 (seg_at s))) = card (pages_used (return_pool i p P) s)"
      using steady_inv [OF st] own by (simp add: client_inv_def pool_inv_def pool_segments_def)
    then have "pages_used (return_pool i p P) s = {}" using True pages_used_few(1) [of "return_pool i p P" s] by simp
    from pool_segment_free [OF steady_inv [OF st] own this] obtain h' where
      h': "cxl_segment_free sh (seg_at s) h3 = Inr h'" "steady sh h3 (drop_page p V) (return_pool i p P) h' (drop_page p V) (drop_segment s (return_pool i p P))"
      "bsize h' = bsize h3" "sas_thread_id (h_sas h' (sas_at s)) = 0" by blast
    have "page_given_back h P p h' (drop_segment s (return_pool i p P))"
      using True z h'(3,4) R(2) bins s(5) sas_of_segment_seg_at [OF s(2)]
      by (simp add: page_given_back_def seg drop_segment_def) (simp add: return_pool_def)
    then show ?thesis using run True h'(1) steady_trans [OF st h'(2)] by auto
  next
    case False
    have "page_given_back h P p h3 (return_pool i p P)"
      using False z R(2,3) bins by (simp add: page_given_back_def seg) (simp add: return_pool_def)
    then show ?thesis using run False st by auto
  qed
qed

section \<open>Freeing a block\<close>

lemma live_drop:
  assumes "placed h V" and "block_in h p b" and "\<And>x. listed V' x \<longleftrightarrow> listed V x \<or> x = b" and "block_in h' = block_in h"
  shows "live h' V' = live h V - {b}"
  using assms(3) by (auto simp: live_def assms(4))

lemma clear_block_client:
  assumes inv: "client_inv sh h V P" and b: "b \<in> live h V" and k: "freeable h special (cxl_ptr_page b)"
  defines "h' \<equiv> clear_block special b h"
  shows "client_inv sh h' V P" "live h' V = live h V" "keeps (live h V - {b}) h h'"
    "h_era h' = h_era h" "h_page h' = h_page h" "h_sas h' = h_sas h" "h_seg h' = h_seg h" "h_tls h' = h_tls h"
    "others_ok sh h h'"
proof -
  have A: "alloc_inv h V" and pi: "pool_inv sh h P" using inv by (simp_all add: client_inv_def)
  have bi: "block_in h (cxl_ptr_page b) b" "\<not> listed V b" using b by (simp_all add: live_def)
  show eq: "h_era h' = h_era h" "h_page h' = h_page h" "h_sas h' = h_sas h" "h_seg h' = h_seg h" "h_tls h' = h_tls h"
    by (simp_all add: h'_def clear_block_def)
  have ss: "same_shape h h'" by (rule same_shape_page) (rule eq)
  have pgs: "pg_block_size (h_page h (cxl_ptr_page b)) = 16 \<longleftrightarrow> bsize h (cxl_ptr_page b) = 16"
    unfolding bsize_def word_unat_eq_iff by simp
  have cells: "h_cell h' c = h_cell h c" if c: "\<And>e. e < bsize h (cxl_ptr_page b) \<Longrightarrow> c \<noteq> b + of_nat e" for c
  proof -
    have mem: "h_cell (memset_cells m b h) c = h_cell h c" if "8 * m \<le> bsize h (cxl_ptr_page b)" for m
    proof -
      have "c \<noteq> b + 8 * of_nat i" if "i < m" for i
        using c [of "8 * i"] that \<open>8 * m \<le> _\<close> by simp
      then have "\<not> (\<exists>i<m. c = b + 8 * of_nat i)" by blast
      then show ?thesis unfolding memset_cells_simps zero_cells_apply by (rule if_not_P)
    qed
    show ?thesis
      using k mem [of 2] mem [of 3] mem [of 24] by (auto simp: h'_def clear_block_def pgs freeable_def split: if_splits)
  qed
  have "alloc_inv h' V"
  proof (rule alloc_inv_cells [OF A eq(2,3)])
    fix x assume x: "listed V x"
    have "x \<noteq> b + of_nat e" if "e < bsize h (cxl_ptr_page b)" for e
      using block_write_misses [OF A bi that x] by blast
    then show "h_cell h' x = h_cell h x" by (rule cells)
  qed
  moreover have "pool_inv sh h' P" by (rule pool_inv_pages [OF pi ss]) (simp_all add: eq)
  ultimately show "client_inv sh h' V P" by (simp add: client_inv_def)
  show "live h' V = live h V" by (simp add: live_def same_shapeD [OF ss])
  show "keeps (live h V - {b}) h h'"
    by (rule keeps_write [OF bi(1) _ _ ss cells]) auto
  show "others_ok sh h h'" by (rule others_ok_pages [OF ss]) (simp_all add: eq)
qed

lemma bin_of_page:
  assumes "i < CXL_BIN_SIZE"
  shows "cxl_page_queue (i = 0 \<or> i = 1) (of_nat (bin_bytes i)) = Inr i"
proof (cases "i = 0 \<or> i = 1")
  case True
  then show ?thesis using special_bins(1,2) by (auto simp: bin_bytes_def layout)
next
  case False
  then obtain m where m: "i = m + 2" by (metis add_2_eq_Suc' not0_implies_Suc One_nat_def)
  have "(16 * (m + 1) - 1) div 16 + 2 = i" unfolding m by presburger
  moreover have "16 * (m + 1) \<le> 1024" using assms by (simp add: m layout)
  ultimately have "cxl_page_queue False (of_nat (16 * (m + 1))) = Inr i" using bin_index [of "16 * (m + 1)"] by simp
  moreover have "bin_bytes i = 16 * (m + 1)" by (simp add: bin_bytes_def m)
  ultimately show ?thesis using False by simp
qed

lemma push_local_client:
  assumes inv: "client_inv sh h V P" and b: "b \<in> live h V"
  defines "h' \<equiv> push_local b (cxl_ptr_page b) h"
  defines "V' \<equiv> V\<lparr>bl_local := (bl_local V)(cxl_ptr_page b := b # bl_local V (cxl_ptr_page b))\<rparr>"
  shows "client_inv sh h' V' P" "live h' V' = live h V - {b}" "keeps (live h V - {b}) h h'"
    "h_era h' = h_era h" "bsize h' = bsize h" "others_ok sh h h'"
proof -
  have A: "alloc_inv h V" and pi: "pool_inv sh h P" using inv by (simp_all add: client_inv_def)
  have bi: "block_in h (cxl_ptr_page b) b" "\<not> listed V b" using b by (simp_all add: live_def)
  note L = alloc_inv_push_local [OF A bi, folded h'_def V'_def]
  have ss: "same_shape h h'" by (simp add: same_shape_def h'_def push_local_def Let_def)
  have eq: "h_tls h' = h_tls h" "h_seg h' = h_seg h" "h_sas h' = h_sas h" by (simp_all add: h'_def push_local_def Let_def)
  show "bsize h' = bsize h" by (rule same_shapeD [OF ss])
  show "others_ok sh h h'" by (rule others_ok_pages [OF ss]) (simp_all add: eq)
  have "pool_inv sh h' P" by (rule pool_inv_pages [OF pi ss]) (simp_all add: eq)
  then show "client_inv sh h' V' P" using L(1) by (simp add: client_inv_def)
  have "listed V' x \<longleftrightarrow> listed V x \<or> x = b" for x by (auto simp: listed_def V'_def)
  then show "live h' V' = live h V - {b}" by (auto simp: live_def L(2))
  show "keeps (live h V - {b}) h h'"
  proof (rule keeps_write [OF bi(1) _ _ ss])
    fix c assume c: "\<And>e. e < bsize h (cxl_ptr_page b) \<Longrightarrow> c \<noteq> b + of_nat e"
    have "0 < bsize h (cxl_ptr_page b)" using bi(1) by (auto elim: block_inE)
    then show "h_cell h' c = h_cell h c" using c [of 0] by (simp add: h'_def push_local_def Let_def)
  qed auto
  show "h_era h' = h_era h" by (simp add: h'_def push_local_def Let_def)
qed

lemma push_foreign_client:
  assumes inv: "client_inv sh h V P" and b: "b \<in> live h V"
    and st: "sf_state (sas_info (h_sas h (sas_of_segment (cxl_ptr_segment b)))) \<noteq> segment_state_code POTENTIAL_LEAKING"
  shows "\<exists>V'. client_inv sh (push_foreign b h) V' P \<and> live (push_foreign b h) V' = live h V - {b}
    \<and> keeps (live h V - {b}) h (push_foreign b h) \<and> h_era (push_foreign b h) = h_era h
    \<and> others_ok sh h (push_foreign b h)"
proof -
  let ?h = "push_foreign b h" and ?a = "sas_of_segment (cxl_ptr_segment b)"
  let ?V = "V\<lparr>bl_foreign := (bl_foreign V)(?a := b # bl_foreign V ?a)\<rparr>"
  have A: "alloc_inv h V" and pi: "pool_inv sh h P" using inv by (simp_all add: client_inv_def)
  have bi: "block_in h (cxl_ptr_page b) b" "\<not> listed V b" using b by (simp_all add: live_def)
  note F = alloc_inv_push_foreign [OF A bi st]
  have eq: "h_page ?h = h_page h" "h_seg ?h = h_seg h" "h_tls ?h = h_tls h" "h_era ?h = h_era h"
    "\<And>x. sas_thread_id (h_sas ?h x) = sas_thread_id (h_sas h x)" "\<And>x. sf_state (sas_info (h_sas ?h x)) = sf_state (sas_info (h_sas h x))"
    "\<And>c. c \<noteq> b \<Longrightarrow> h_cell ?h c = h_cell h c"
    by (simp_all add: push_foreign_def Let_def)
  have ss: "same_shape h ?h" by (rule same_shape_page) (rule eq)
  have "pool_inv sh ?h P" by (rule pool_inv_pages [OF pi ss]) (simp_all add: eq)
  then have "client_inv sh ?h ?V P" using F by (simp add: client_inv_def)
  moreover have "listed ?V x \<longleftrightarrow> listed V x \<or> x = b" for x by (auto simp: listed_def)
  then have "live ?h ?V = live h V - {b}" by (auto simp: live_def same_shapeD [OF ss])
  moreover have "others_ok sh h ?h" by (rule others_ok_pages [OF ss]) (simp_all add: eq)
  moreover have "keeps (live h V - {b}) h ?h"
  proof (rule keeps_write [OF bi(1) _ _ ss])
    fix c assume c: "\<And>e. e < bsize h (cxl_ptr_page b) \<Longrightarrow> c \<noteq> b + of_nat e"
    have "0 < bsize h (cxl_ptr_page b)" using bi(1) by (auto elim: block_inE)
    then show "h_cell ?h c = h_cell h c" using c [of 0] by (simp add: eq(7))
  qed auto
  ultimately show ?thesis using eq(4) by blast
qed

lemma live_segment:
  assumes "b \<in> live h V"
  obtains s j where "s < MAX_SEGMENT_NUM" "j < PAGES_PER_SEGMENT" "cxl_ptr_page b = meta_at (seg_at s) j"
    "cxl_ptr_segment b = seg_at s" "bsize h (cxl_ptr_page b) \<noteq> 0"
proof -
  have "block_in h (cxl_ptr_page b) b" using assms by (simp add: live_def)
  then obtain s j k where k: "s < MAX_SEGMENT_NUM" "j < PAGES_PER_SEGMENT" "cxl_ptr_page b = meta_at (seg_at s) j"
    "b = page_area (seg_at s) j + of_nat (k * bsize h (cxl_ptr_page b))"
    "k * bsize h (cxl_ptr_page b) + bsize h (cxl_ptr_page b) \<le> 65536" "8 \<le> bsize h (cxl_ptr_page b)" by (rule block_inE)
  moreover have "cxl_ptr_segment b = seg_at s"
    using cxl_ptr_segment_page [OF k(1,2), of "k * bsize h (cxl_ptr_page b)"] k(4-6) by simp
  ultimately show ?thesis using that by simp
qed

lemma own_segment:
  assumes inv: "client_inv sh h V P" and b: "b \<in> live h V"
  shows "ucast (seg_thread_id (h_seg h (cxl_ptr_segment b))) = shm_thread_id sh \<longleftrightarrow> cxl_ptr_page b \<in> pool_pages P"
proof -
  have pi: "pool_segments sh h P" "segments_ok h" using inv by (simp_all add: client_inv_def pool_inv_def)
  obtain s j where s: "s < MAX_SEGMENT_NUM" "j < PAGES_PER_SEGMENT" "cxl_ptr_page b = meta_at (seg_at s) j"
    "cxl_ptr_segment b = seg_at s" "bsize h (cxl_ptr_page b) \<noteq> 0" by (rule live_segment [OF b])
  have "j \<noteq> 0" using pi(2) s(1,3,5) unfolding segments_ok_def by (cases "j = 0") auto
  then have m: "cxl_ptr_page b \<in> set (segment_pages (seg_at s))" using s(2,3) by (simp add: set_segment_pages)
  have "ucast (seg_thread_id (h_seg h (seg_at s))) = shm_thread_id sh \<longleftrightarrow> owned sh h s"
    using pi(2) s(1) by (simp add: owned_def segments_ok_def)
  moreover have "owned sh h s \<longleftrightarrow> cxl_ptr_page b \<in> pool_pages P"
    using pi(1) m segment_pages_disjoint [OF s(1)] unfolding pool_segments_def owned_def by blast
  ultimately show ?thesis using s(4) by simp
qed

lemma own_page:
  assumes inv: "client_inv sh h V P" and b: "b \<in> live h V"
    and own: "ucast (seg_thread_id (h_seg h (cxl_ptr_segment b))) = shm_thread_id sh"
  obtains i where "i < CXL_BIN_SIZE" "cxl_ptr_page b \<in> set (po_bin P i)" "bsize h (cxl_ptr_page b) = bin_bytes i"
proof -
  have pi: "pool_sizes h P" and pI: "pool_inv sh h P" using inv by (simp_all add: client_inv_def pool_inv_def)
  have "cxl_ptr_page b \<notin> set (po_free P)" 
  proof -
    have "bsize h (cxl_ptr_page b) \<noteq> 0" using live_segment [OF b] by blast
    then show ?thesis using pi by (auto simp: pool_sizes_def)
  qed
  moreover have "cxl_ptr_page b \<in> pool_pages P" using own own_segment [OF inv b] by simp
  ultimately obtain i where "i < CXL_BIN_SIZE" "cxl_ptr_page b \<in> set (po_bin P i)" by (auto simp: pool_pages_def)
  then show ?thesis using that pool_bin_size [OF pI] by blast
qed

text \<open>The second half of \<open>cxl_free\<close> on one's own block.\<close>

lemma own_free_client:
  assumes inv: "client_inv sh h V P" and b: "b \<in> live h V" and own: "ucast (seg_thread_id (h_seg h (cxl_ptr_segment b))) = shm_thread_id sh"
    and k: "freeable h special (cxl_ptr_page b)"
  defines "h2 \<equiv> push_local b (cxl_ptr_page b) h"
  shows "\<exists>h' V' P'. (if pg_used (h_page h2 (cxl_ptr_page b)) = 0
        then bnd (cxl_page_queue special (ucast (pg_block_size (h_page h2 (cxl_ptr_page b))))) (\<lambda>pq.
          cxl_page_free sh (cxl_ptr_page b) pq h2)
        else Inr h2) = Inr h' \<and> client_inv sh h' V' P' \<and> live h' V' = live h V - {b} \<and> keeps (live h V - {b}) h h'
    \<and> h_era h' = h_era h \<and> others_ok sh h h'
    \<and> (if pg_used (h_page h (cxl_ptr_page b)) = 1 then page_given_back h P (cxl_ptr_page b) h' P' else P' = P \<and> bsize h' = bsize h)"
proof -
  obtain i where i: "i < CXL_BIN_SIZE" "cxl_ptr_page b \<in> set (po_bin P i)" "bsize h (cxl_ptr_page b) = bin_bytes i"
    using own_page [OF inv b own] by metis
  define V2 where "V2 = V\<lparr>bl_local := (bl_local V)(cxl_ptr_page b := b # bl_local V (cxl_ptr_page b))\<rparr>"
  note L = push_local_client [OF inv b, folded h2_def V2_def]
  have pi: "pool_inv sh h P" using inv by (simp add: client_inv_def)
  have "i \<noteq> 2" using i(2) pi by (auto simp: pool_inv_def pool_sizes_def)
  then have sp: "special \<longleftrightarrow> i = 0 \<or> i = 1"
    using k i(3) pool_bin_kind [OF pi i(2,1)] by (cases "i = 0 \<or> i = 1") (auto simp: freeable_def bin_bytes_def split: if_splits)
  have eq: "h_seg h2 = h_seg h" "h_sas h2 = h_sas h" "pg_used (h_page h2 (cxl_ptr_page b)) = 0 \<longleftrightarrow> pg_used (h_page h (cxl_ptr_page b)) = 1"
    by (simp_all add: h2_def push_local_def Let_def)
  show ?thesis
  proof (cases "pg_used (h_page h2 (cxl_ptr_page b)) = 0")
    case True
    have "unat (pg_block_size (h_page h2 (cxl_ptr_page b))) = bin_bytes i"
      using i(3) L(5) by (simp add: bsize_def fun_eq_iff)
    then have "ucast (pg_block_size (h_page h2 (cxl_ptr_page b))) = (of_nat (bin_bytes i) :: u64)" by (metis of_nat_unat)
    then have "cxl_page_queue special (ucast (pg_block_size (h_page h2 (cxl_ptr_page b)))) = Inr i"
      using bin_of_page [OF i(1)] sp by simp
    moreover obtain h' V' P' where
      h': "cxl_page_free sh (cxl_ptr_page b) i h2 = Inr h'" "steady sh h2 V2 P h' V' P'" "page_given_back h P (cxl_ptr_page b) h' P'"
      using page_free_client [OF L(1) i(2,1) True] page_given_back_cong [OF eq(1,2)] by blast
    moreover have "keeps (live h V - {b}) h h'" "others_ok sh h h'"
      using keeps_trans [OF L(3)] others_ok_trans [OF L(6)] h'(2) L(2) by (simp_all add: steady_def)
    ultimately show ?thesis
      using True eq(3) L(2,4) by (intro exI [of _ h'] exI [of _ V'] exI [of _ P']) (simp add: steady_def)
  next
    case False
    then show ?thesis using L eq(3) by (intro exI [of _ h2] exI [of _ V2] exI [of _ P]) simp
  qed
qed

lemma free_exact:
  assumes inv: "client_inv sh h V P" and b: "b \<in> live h V" and k: "freeable h special (cxl_ptr_page b)"
    and st: "cxl_ptr_page b \<in> pool_pages P
      \<or> sf_state (sas_info (h_sas h (sas_of_segment (cxl_ptr_segment b)))) \<noteq> segment_state_code POTENTIAL_LEAKING"
  shows "\<exists>h' V' P'. cxl_free sh special b h = Inr h' \<and> client_inv sh h' V' P'
    \<and> live h' V' = live h V - {b} \<and> keeps (live h V - {b}) h h' \<and> h_era h' = h_era h \<and> others_ok sh h h'
    \<and> (if cxl_ptr_page b \<in> pool_pages P \<and> pg_used (h_page h (cxl_ptr_page b)) = 1
       then page_given_back h P (cxl_ptr_page b) h' P' else P' = P \<and> bsize h' = bsize h)"
proof -
  define h1 where "h1 = clear_block special b h"
  note C = clear_block_client [OF inv b k, folded h1_def]
  have b1: "b \<in> live h1 V" using b C(2) by simp
  have k1: "freeable h1 special (cxl_ptr_page b)" using k unfolding freeable_def bsize_def C(5) .
  have "\<exists>h' V' P'. cxl_free sh special b h = Inr h' \<and> client_inv sh h' V' P' \<and> live h' V' = live h1 V - {b}
    \<and> keeps (live h1 V - {b}) h1 h' \<and> h_era h' = h_era h1 \<and> others_ok sh h1 h'
    \<and> (if cxl_ptr_page b \<in> pool_pages P \<and> pg_used (h_page h1 (cxl_ptr_page b)) = 1
       then page_given_back h1 P (cxl_ptr_page b) h' P' else P' = P \<and> bsize h' = bsize h1)"
  proof (cases "ucast (seg_thread_id (h_seg h1 (cxl_ptr_segment b))) = shm_thread_id sh")
    case True
    moreover have "cxl_ptr_page b \<in> pool_pages P" using own_segment [OF C(1) b1] True by simp
    ultimately show ?thesis
      using own_free_client [OF C(1) b1 True k1] unfolding cxl_free_def Let_def push_local_def h1_def [symmetric] by simp
  next
    case False
    have "cxl_free sh special b h = Inr (push_foreign b h1)"
      using False by (simp add: cxl_free_def Let_def h1_def)
    moreover have "sf_state (sas_info (h_sas h1 (sas_of_segment (cxl_ptr_segment b)))) \<noteq> segment_state_code POTENTIAL_LEAKING"
      using st C(6,7) own_segment [OF inv b] False by auto
    moreover have "cxl_ptr_page b \<notin> pool_pages P" using own_segment [OF C(1) b1] False by simp
    moreover have "bsize (push_foreign b h1) = bsize h1" by (simp add: push_foreign_def Let_def bsize_def fun_eq_iff)
    ultimately show ?thesis using push_foreign_client [OF C(1) b1] by auto
  qed
  then obtain h' V' P' where R: "cxl_free sh special b h = Inr h'" "client_inv sh h' V' P'" "live h' V' = live h V - {b}"
    "keeps (live h V - {b}) h1 h'" "h_era h' = h_era h" "others_ok sh h1 h'"
    "if cxl_ptr_page b \<in> pool_pages P \<and> pg_used (h_page h (cxl_ptr_page b)) = 1
       then page_given_back h P (cxl_ptr_page b) h' P' else P' = P \<and> bsize h' = bsize h1"
    unfolding C(2,4,5) page_given_back_cong [OF C(7,6)] by blast
  moreover have "keeps (live h V - {b}) h h'" by (rule keeps_trans [OF C(3)]) (use R(4) in simp)
  moreover have "bsize h1 = bsize h" by (simp add: bsize_def fun_eq_iff C(5))
  ultimately show ?thesis using others_ok_trans [OF C(9) R(6)] by (intro exI [of _ h'] exI [of _ V'] exI [of _ P']) simp
qed

lemma free_step:
  assumes "client_inv sh h V P" and "b \<in> live h V" and "freeable h special (cxl_ptr_page b)"
    and "cxl_ptr_page b \<in> pool_pages P
      \<or> sf_state (sas_info (h_sas h (sas_of_segment (cxl_ptr_segment b)))) \<noteq> segment_state_code POTENTIAL_LEAKING"
  shows "\<exists>h' V' P'. cxl_free sh special b h = Inr h' \<and> client_inv sh h' V' P'
    \<and> live h' V' = live h V - {b} \<and> keeps (live h V - {b}) h h' \<and> h_era h' = h_era h \<and> others_ok sh h h'"
  using free_exact [OF assms] by blast

text \<open>
  C4. Freeing a live block, one's own or another client's (the latter unless its segment is marked
  as possibly leaking, when the code gives the block up), succeeds: afterwards exactly that block
  is no longer live, all other live blocks keep their size and contents, and the allocator's
  invariant holds again, for this client and for every other. If it was the last block in use of
  a page of one's own, the page leaves its bin for the free queue, and if that was the last page in
  use of its segment, the segment loses its owner and its pages leave the free queue; otherwise
  no page moves.
\<close>

theorem free_shrinks_live:
  assumes inv: "client_inv sh h V P" and b: "b \<in> live h V" and k: "freeable h special (cxl_ptr_page b)"
    and st: "cxl_ptr_page b \<in> pool_pages P
      \<or> sf_state (sas_info (h_sas h (sas_of_segment (cxl_ptr_segment b)))) \<noteq> segment_state_code POTENTIAL_LEAKING"
  shows "\<exists>h' V' P'. cxl_free sh special b h = Inr h' \<and> client_inv sh h' V' P'
    \<and> live h' V' = live h V - {b} \<and> keeps (live h V - {b}) h h' \<and> h_era h' = h_era h \<and> others_ok sh h h'
    \<and> (if cxl_ptr_page b \<in> pool_pages P \<and> pg_used (h_page h (cxl_ptr_page b)) = 1
       then page_given_back h P (cxl_ptr_page b) h' P' else P' = P \<and> bsize h' = bsize h)"
  using free_exact [OF assms] .

end
