(* ===== verification/Client_Start.thy ===== *)
theory Client_Start
  imports Free_Total
begin

text \<open>
  Where the allocator's invariant comes from: a region with no page in use satisfies it, and
  \<open>thread_init\<close> establishes it for a new client. The examples of \<open>Malloc_Total\<close> and
  \<open>Free_Total\<close> start there.
\<close>

section \<open>A client starts\<close>

definition empty_pool :: page_pool where
  "empty_pool = \<lparr>po_bin = (\<lambda>_. []), po_free = []\<rparr>"

lemma client_start:
  assumes A: "alloc_inv h V" and ok: "segments_ok h" and t: "shm_thread_id sh \<noteq> 0" "unat (shm_thread_id sh) < 2 ^ 16" "region_fits sh"
    and tls: "tls_pages (h_tls h (shm_tls_offset sh)) = init_bins old" "free_queue sh h = zero_pq"
    and none: "\<And>s. \<not> owned sh h s"
  shows "client_inv sh h V empty_pool"
proof -
  have b: "pq_block_size (init_bins old i) = of_nat (bin_bytes i)" "pq_first (init_bins old i) = 0" "pq_last (init_bins old i) = 0"
    if "i < CXL_BIN_SIZE" for i
    using that by (auto simp: init_bins_def bin_bytes_def layout of_nat_diff)
  have "pool_lists sh h empty_pool"
    using b by (simp add: pool_lists_def empty_pool_def free_list_def bin_list_def tls zero_pq_def)
  moreover have "pool_pages empty_pool = {}" by (simp add: pool_pages_def empty_pool_def)
  then have "pool_segments sh h empty_pool" using none by (simp add: pool_segments_def)
  moreover have "pool_sizes h empty_pool" by (simp add: pool_sizes_def empty_pool_def)
  ultimately show ?thesis using A ok t by (simp add: client_inv_def pool_inv_def)
qed

definition empty_lists :: block_lists where
  "empty_lists = \<lparr>bl_free = (\<lambda>_. []), bl_local = (\<lambda>_. []), bl_foreign = (\<lambda>_. [])\<rparr>"

text \<open>A region with no page in use.\<close>

lemma empty_region:
  assumes "h_page h = (\<lambda>_. zero_page)" and "\<And>a. sf_thread_free (sas_info (h_sas h a)) = 0"
  shows "alloc_inv h empty_lists" and "live h V = {}" and "bsize h p = 0"
proof -
  show z: "bsize h p = 0" for p by (simp add: bsize_def assms zero_page_def)
  show "alloc_inv h empty_lists"
    by (simp add: alloc_inv_def lists_of_def placed_def disjoint_def counted_def empty_lists_def z assms)
      (simp add: zero_page_def)
  show "live h V = {}" using z by (auto simp: live_def elim: block_inE)
qed

lemma demo_client_inv: "client_inv demo_shm demo_client empty_lists empty_pool"
proof (rule client_start)
  have z: "h_page demo_client = (\<lambda>_. zero_page)" "\<And>a. sf_thread_free (sas_info (h_sas demo_client a)) = 0"
    by (simp_all add: demo_client_simps zero_sas_def zero_info_def)
  show "alloc_inv demo_client empty_lists" by (rule empty_region [OF z])
  show "segments_ok demo_client" by (simp add: segments_ok_def empty_region [OF z] demo_client_simps zero_seg_def zero_sas_def)
  show "\<not> owned demo_shm demo_client s" for s
    by (simp add: owned_def demo_client_simps zero_sas_def) (simp add: demo_shm_def)
qed (simp_all add: demo_client_simps, simp_all add: demo_shm_def region_fits_def layout)

lemma demo_live [simp]: "live demo_client V = {}"
  by (rule empty_region) (simp_all add: demo_client_simps zero_sas_def zero_info_def)

lemma demo_room: "room demo_shm demo_client empty_pool k"
proof -
  have "claim_segment demo_shm demo_client 0 = Some (0 + 1)"
    by (rule claim_segment_first) (simp_all add: demo_client_simps zero_sas_def, simp add: demo_shm_def)
  then show ?thesis by (auto simp: room_def layout)
qed

theorem malloc_extends_live_witness:
  "\<exists>r ob h' V' P'. cxl_malloc (2 ^ 64) demo_shm (of_nat 40) 1 demo_client = Inr (\<lparr>ref_tbr = r, ref_data = ob + sizeof_CXLObj\<rparr>, h')
    \<and> client_inv demo_shm h' V' P' \<and> live h' V' = {r, ob} \<and> rr_pptr h' r = ob"
  using malloc_extends_live [OF demo_client_inv order.refl, of 40 1, unfolded demo_live Un_empty_left] demo_room [of 2] by fastforce

theorem free_shrinks_live_witness:
  "\<exists>r ob h1 h2 V P. cxl_malloc (2 ^ 64) demo_shm (of_nat 40) 1 demo_client = Inr (\<lparr>ref_tbr = r, ref_data = ob + sizeof_CXLObj\<rparr>, h1)
    \<and> cxl_free demo_shm False ob h1 = Inr h2 \<and> client_inv demo_shm h2 V P \<and> live h2 V = {r}"
proof -
  obtain r ob h1 V1 P1 where m: "cxl_malloc (2 ^ 64) demo_shm (of_nat 40) 1 demo_client = Inr (\<lparr>ref_tbr = r, ref_data = ob + sizeof_CXLObj\<rparr>, h1)"
    "client_inv demo_shm h1 V1 P1" "live h1 V1 = {r, ob}" "r \<noteq> ob" "freeable h1 False (cxl_ptr_page ob)"
    "cxl_ptr_page ob \<in> pool_pages P1"
    using malloc_step [OF demo_client_inv order.refl, of 40 1, unfolded demo_live Un_empty_left] demo_room [of 2] by fastforce
  obtain h2 V2 P2 where "cxl_free demo_shm False ob h1 = Inr h2" "client_inv demo_shm h2 V2 P2" "live h2 V2 = {r, ob} - {ob}"
    using free_shrinks_live [OF m(2) _ m(5)] m(3,6) by auto
  moreover have "{r, ob} - {ob} = {r}" using m(4) by auto
  ultimately show ?thesis using m(1) by (intro exI conjI) auto
qed

section \<open>From \<open>thread_init\<close> on\<close>

lemma thread_init_client:
  assumes A: "alloc_inv h V" and ok: "segments_ok h" and fits: "region_fits sh"
    and k: "k < MAX_THREAD" "\<forall>j < k. tls_packed_id (h_tls h (tls_at j)) \<noteq> 0" "tls_packed_id (h_tls h (tls_at k)) = 0"
    and none: "\<forall>s < MAX_SEGMENT_NUM. unat (sas_thread_id (h_sas h (sas_at s))) \<noteq> k + 1"
  shows "\<exists>sh' h'. thread_init mac pid sh h = Some (sh', h') \<and> unat (shm_thread_id sh') = k + 1 \<and> shm_tls_offset sh' = tls_at k
    \<and> tls_packed_id (h_tls h' (tls_at k)) = pack_machine_process_id mac pid
    \<and> client_inv sh' h' V empty_pool \<and> live h' V = live h V \<and> keeps L h h' \<and> h_sas h' = h_sas h
    \<and> (\<forall>a. a \<noteq> tls_at k \<longrightarrow> h_tls h' a = h_tls h a)
    \<and> (\<forall>sh2 P2. shm_tls_offset sh2 \<noteq> tls_at k \<and> pool_inv sh2 h P2 \<longrightarrow> pool_inv sh2 h' P2)"
proof -
  from thread_init_spec [OF k] obtain sh' h' where
    1: "thread_init mac pid sh h = Some (sh', h')" "shm_tls_offset sh' = tls_at k" "unat (shm_thread_id sh') = k + 1" "shm_size sh' = shm_size sh"
    "h_tls h' = (h_tls h)(tls_at k := reset_tls ((h_tls h (tls_at k))\<lparr>tls_packed_id := pack_machine_process_id mac pid\<rparr>))"
    and F: "h_page h' = h_page h" "h_cell h' = h_cell h" "h_seg h' = h_seg h" "h_sas h' = h_sas h" by blast
  have ss: "same_shape h h'" by (rule same_shape_page) (rule F)
  have id: "shm_thread_id sh' \<noteq> 0" "unat (shm_thread_id sh') < 2 ^ 16" "region_fits sh'"
    using 1(3,4) k(1) fits by (auto simp: layout region_fits_def)
  have "alloc_inv h' V" by (rule alloc_inv_cells [OF A F(1,4)]) (simp add: F)
  moreover have "segments_ok h'" using ok by (simp add: segments_ok_def F same_shapeD [OF ss])
  moreover have "\<not> owned sh' h' s" for s using none 1(3) by (auto simp: owned_def F)
  ultimately have "client_inv sh' h' V empty_pool"
    using id by (intro client_start [where old = "tls_pages (h_tls h (tls_at k))"]) (simp_all add: 1(2,5) reset_tls_def)
  moreover have "live h' V = live h V" by (simp add: live_def same_shapeD [OF ss])
  moreover have "pool_inv sh2 h' P2" if "shm_tls_offset sh2 \<noteq> tls_at k" "pool_inv sh2 h P2" for sh2 P2
    by (rule pool_inv_cong [OF that(2) ss]) (use that(1) in \<open>simp_all add: 1(5) F\<close>)
  moreover have "\<forall>a. a \<noteq> tls_at k \<longrightarrow> h_tls h' a = h_tls h a" by (simp add: 1(5))
  moreover have "keeps L h h'" by (simp add: keeps_def same_shapeD [OF ss] F)
  moreover have "tls_packed_id (h_tls h' (tls_at k)) = pack_machine_process_id mac pid" by (simp add: 1(5) reset_tls_def)
  ultimately show ?thesis using 1(1-3) F(4) by blast
qed

text \<open>
  C26. \<open>thread_init\<close> on the first free slot establishes the allocator's invariant for the new
  client, with nothing in its queues, in any region whose lists and segments are sound and
  where no segment carries the client's id; no block becomes live or dies, and the invariants
  of the other clients stay.
\<close>

theorem thread_init_starts_client:
  assumes A: "alloc_inv h V" and ok: "segments_ok h" and fits: "region_fits sh"
    and k: "k < MAX_THREAD" "\<forall>j < k. tls_packed_id (h_tls h (tls_at j)) \<noteq> 0" "tls_packed_id (h_tls h (tls_at k)) = 0"
    and none: "\<forall>s < MAX_SEGMENT_NUM. unat (sas_thread_id (h_sas h (sas_at s))) \<noteq> k + 1"
  shows "\<exists>sh' h'. thread_init mac pid sh h = Some (sh', h') \<and> unat (shm_thread_id sh') = k + 1
    \<and> client_inv sh' h' V empty_pool \<and> live h' V = live h V
    \<and> (\<forall>sh2 P2. shm_tls_offset sh2 \<noteq> shm_tls_offset sh' \<and> pool_inv sh2 h P2 \<longrightarrow> pool_inv sh2 h' P2)"
  using thread_init_client [OF assms, of mac pid] by metis

text \<open>A region no client has used.\<close>

lemma zero_region: "alloc_inv zero_heap empty_lists" "segments_ok zero_heap" "live zero_heap V = {}" "region_fits demo_shm"
proof -
  have z: "h_page zero_heap = (\<lambda>_. zero_page)" "\<And>a. sf_thread_free (sas_info (h_sas zero_heap a)) = 0"
    by (simp_all add: zero_defs)
  show "alloc_inv zero_heap empty_lists" "live zero_heap V = {}" by (rule empty_region [OF z])+
  show "segments_ok zero_heap"
    unfolding segments_ok_def by (simp add: empty_region(3) [OF z]) (simp add: zero_defs)
  show "region_fits demo_shm" by (simp add: region_fits_def demo_shm_def layout)
qed

theorem thread_init_starts_client_witness:
  "\<exists>sh' h'. thread_init 1 7 demo_shm zero_heap = Some (sh', h') \<and> client_inv sh' h' empty_lists empty_pool"
proof -
  have "0 < MAX_THREAD" by (simp add: layout)
  then show ?thesis
    using thread_init_starts_client [OF zero_region(1,2,4), of 0 1 7] by (auto simp: zero_defs)
qed

end
