(* ===== verification/Clients.thy ===== *)
theory Clients
  imports Client_Start
begin

text \<open>
  Several clients on one region: each enters with \<open>thread_init\<close> and allocates and frees by
  turns with the others, in any order. Whatever the turns, no block is handed out twice, and
  nobody's blocks are touched by another's allocations and frees.
\<close>

section \<open>The system\<close>

text \<open>\<open>sy_out\<close> records the blocks handed out and not given back.\<close>

record system =
  sy_heap :: shm_heap
  sy_clients :: "cxl_shm list"
  sy_out :: "u64 set"

definition start :: system where
  "start = \<lparr>sy_heap = zero_heap, sy_clients = [], sy_out = {}\<rparr>"

definition newcomer :: "u64 \<Rightarrow> cxl_shm" where
  "newcomer N = \<lparr>shm_size = N, shm_tls_offset = 0, shm_thread_id = 0\<rparr>"

text \<open>
  A client enters while there is a state left for it; it gives a block back, its own or one it
  got from another client, that is out.
\<close>

inductive client_step :: "u64 \<Rightarrow> system \<Rightarrow> system \<Rightarrow> bool" for N :: u64 where
  enter: "thread_init mac pid (newcomer N) (sy_heap S) = Some (sh, h) \<Longrightarrow> pack_machine_process_id mac pid \<noteq> 0
    \<Longrightarrow> length (sy_clients S) < MAX_THREAD
    \<Longrightarrow> client_step N S (S\<lparr>sy_heap := h, sy_clients := sy_clients S @ [sh]\<rparr>)"
| malloc: "sh \<in> set (sy_clients S) \<Longrightarrow> n \<le> 1000
    \<Longrightarrow> cxl_malloc (2 ^ 64) sh (of_nat n) emb (sy_heap S) = Inr (r, h)
    \<Longrightarrow> client_step N S (S\<lparr>sy_heap := h, sy_out := sy_out S \<union> {ref_tbr r, ref_data r - sizeof_CXLObj}\<rparr>)"
| free: "sh \<in> set (sy_clients S) \<Longrightarrow> b \<in> sy_out S \<Longrightarrow> freeable (sy_heap S) special (cxl_ptr_page b)
    \<Longrightarrow> sf_state (sas_info (h_sas (sy_heap S) (sas_of_segment (cxl_ptr_segment b)))) \<noteq> segment_state_code POTENTIAL_LEAKING
    \<Longrightarrow> cxl_free sh special b (sy_heap S) = Inr h
    \<Longrightarrow> client_step N S (S\<lparr>sy_heap := h, sy_out := sy_out S - {b}\<rparr>)"

section \<open>The invariant\<close>

definition in_slot :: "nat \<Rightarrow> cxl_shm \<Rightarrow> bool" where
  "in_slot i sh \<longleftrightarrow> unat (shm_thread_id sh) = i + 1 \<and> shm_tls_offset sh = tls_at i"

definition slots_taken :: "nat \<Rightarrow> shm_heap \<Rightarrow> bool" where
  "slots_taken n h \<longleftrightarrow> n \<le> MAX_THREAD \<and> (\<forall>i < MAX_THREAD. tls_packed_id (h_tls h (tls_at i)) = 0 \<longleftrightarrow> n \<le> i)
     \<and> (\<forall>s < MAX_SEGMENT_NUM. unat (sas_thread_id (h_sas h (sas_at s))) \<le> n)"

definition pools_inv :: "shm_heap \<Rightarrow> block_lists \<Rightarrow> cxl_shm list \<Rightarrow> page_pool list \<Rightarrow> bool" where
  "pools_inv h V cs Ps \<longleftrightarrow> alloc_inv h V \<and> segments_ok h \<and> slots_taken (length cs) h
     \<and> list_all2 (\<lambda>sh P. pool_inv sh h P) cs Ps \<and> (\<forall>i < length cs. in_slot i (cs ! i))"

definition sys_inv :: "system \<Rightarrow> bool" where
  "sys_inv S \<longleftrightarrow> (\<exists>V Ps. pools_inv (sy_heap S) V (sy_clients S) Ps \<and> live (sy_heap S) V = sy_out S)"

lemma slots_apart:
  assumes "in_slot i sh" "in_slot j sh2" "i \<noteq> j" "i < MAX_THREAD" "j < MAX_THREAD"
  shows "shm_tls_offset sh \<noteq> shm_tls_offset sh2" "shm_thread_id sh \<noteq> shm_thread_id sh2"
  using assms tls_at_inj [of i j] by (auto simp: in_slot_def)

text \<open>A client whose turn it is has its invariant; after its turn everyone has.\<close>

lemma pools_client:
  assumes "pools_inv h V cs Ps" and "sh \<in> set cs"
  obtains i where "i < length cs" "cs ! i = sh" "client_inv sh h V (Ps ! i)" "in_slot i sh" "length cs \<le> MAX_THREAD" "length Ps = length cs"
proof -
  obtain i where i: "i < length cs" "cs ! i = sh" using assms(2) by (auto simp: in_set_conv_nth)
  moreover have "pool_inv sh h (Ps ! i)" "length Ps = length cs"
    using assms(1) i list_all2_nthD [of "\<lambda>sh P. pool_inv sh h P" cs Ps i] by (auto simp: pools_inv_def dest: list_all2_lengthD)
  ultimately show ?thesis using that assms(1) by (auto simp: pools_inv_def client_inv_def slots_taken_def)
qed

lemma pools_turn:
  assumes inv: "pools_inv h V cs Ps" and i: "i < length cs" and own: "client_inv (cs ! i) h' V' P'" and oth: "others_ok (cs ! i) h h'"
  shows "pools_inv h' V' cs (Ps[i := P'])"
proof -
  have I: "alloc_inv h V" "slots_taken (length cs) h" "list_all2 (\<lambda>sh P. pool_inv sh h P) cs Ps" "\<And>j. j < length cs \<Longrightarrow> in_slot j (cs ! j)"
    using inv by (simp_all add: pools_inv_def)
  have n: "length cs \<le> MAX_THREAD" using I(2) by (simp add: slots_taken_def)
  have "pool_inv (cs ! j) h' (Ps[i := P'] ! j)" if j: "j < length cs" for j
  proof (cases "j = i")
    case True
    then show ?thesis using own j list_all2_lengthD [OF I(3)] by (simp add: client_inv_def)
  next
    case False
    have "pool_inv (cs ! j) h (Ps ! j)" using list_all2_nthD [OF I(3) j] .
    then show ?thesis
      using others_okD(4) [OF oth slots_apart [OF I(4) [OF j] I(4) [OF i] False]] i j n False by simp
  qed
  then have "list_all2 (\<lambda>sh P. pool_inv sh h' P) cs (Ps[i := P'])"
    using list_all2_lengthD [OF I(3)] by (intro list_all2_all_nthI) simp_all
  moreover have "slots_taken (length cs) h'"
    unfolding slots_taken_def
  proof (intro conjI allI impI n)
    show "tls_packed_id (h_tls h' (tls_at j)) = 0 \<longleftrightarrow> length cs \<le> j" if "j < MAX_THREAD" for j
      using I(2) others_okD(1) [OF oth] that by (simp add: slots_taken_def tls_frame_def)
    show "unat (sas_thread_id (h_sas h' (sas_at s))) \<le> length cs" if "s < MAX_SEGMENT_NUM" for s
      using others_okD(2) [OF oth, of "sas_at s"] I(2) I(4) [OF i] i that by (auto simp: slots_taken_def in_slot_def)
  qed
  ultimately show ?thesis using own I(4) by (simp add: pools_inv_def client_inv_def pool_inv_def)
qed

section \<open>The steps\<close>

lemma sys_malloc:
  assumes inv: "sys_inv S" and sh: "sh \<in> set (sy_clients S)" and n: "n \<le> 1000"
  shows "(\<exists>r ob h'. cxl_malloc (2 ^ 64) sh (of_nat n) emb (sy_heap S) = Inr (\<lparr>ref_tbr = r, ref_data = ob + sizeof_CXLObj\<rparr>, h')
      \<and> sys_inv (S\<lparr>sy_heap := h', sy_out := sy_out S \<union> {r, ob}\<rparr>)
      \<and> r \<notin> sy_out S \<and> ob \<notin> sy_out S \<and> r \<noteq> ob \<and> keeps (sy_out S) (sy_heap S) h'
      \<and> bsize h' (cxl_ptr_page r) = 16 \<and> n + 24 \<le> bsize h' (cxl_ptr_page ob))
    \<or> cxl_malloc (2 ^ 64) sh (of_nat n) emb (sy_heap S) = Inl Null_Deref"
proof -
  from inv obtain V Ps where P: "pools_inv (sy_heap S) V (sy_clients S) Ps" "live (sy_heap S) V = sy_out S" by (auto simp: sys_inv_def)
  from pools_client [OF P(1) sh] obtain i where i: "i < length (sy_clients S)" "sy_clients S ! i = sh" "client_inv sh (sy_heap S) V (Ps ! i)" by blast
  from malloc_step [OF i(3) order.refl n, of emb] show ?thesis
  proof (elim disjE exE conjE)
    fix r ob h' V' P'
    assume m: "cxl_malloc (2 ^ 64) sh (of_nat n) emb (sy_heap S) = Inr (\<lparr>ref_tbr = r, ref_data = ob + sizeof_CXLObj\<rparr>, h')"
      "client_inv sh h' V' P'" "r \<notin> live (sy_heap S) V" "ob \<notin> live (sy_heap S) V" "r \<noteq> ob"
      "live h' V' = live (sy_heap S) V \<union> {r, ob}" "keeps (live (sy_heap S) V) (sy_heap S) h'" "others_ok sh (sy_heap S) h'"
      "bsize h' (cxl_ptr_page r) = 16" "n + 24 \<le> bsize h' (cxl_ptr_page ob)"
    have "pools_inv h' V' (sy_clients S) (Ps[i := P'])" using pools_turn [OF P(1) i(1)] m(2,8) i(2) by simp
    then have "sys_inv (S\<lparr>sy_heap := h', sy_out := sy_out S \<union> {r, ob}\<rparr>)" using m(6) P(2) by (auto simp: sys_inv_def)
    then show ?thesis using m P(2) by auto
  qed simp
qed

lemma sys_free:
  assumes inv: "sys_inv S" and sh: "sh \<in> set (sy_clients S)" and b: "b \<in> sy_out S"
    and k: "freeable (sy_heap S) special (cxl_ptr_page b)"
    and st: "sf_state (sas_info (h_sas (sy_heap S) (sas_of_segment (cxl_ptr_segment b)))) \<noteq> segment_state_code POTENTIAL_LEAKING"
  shows "\<exists>h'. cxl_free sh special b (sy_heap S) = Inr h' \<and> sys_inv (S\<lparr>sy_heap := h', sy_out := sy_out S - {b}\<rparr>)
    \<and> keeps (sy_out S - {b}) (sy_heap S) h'"
proof -
  from inv obtain V Ps where P: "pools_inv (sy_heap S) V (sy_clients S) Ps" "live (sy_heap S) V = sy_out S" by (auto simp: sys_inv_def)
  from pools_client [OF P(1) sh] obtain i where i: "i < length (sy_clients S)" "sy_clients S ! i = sh" "client_inv sh (sy_heap S) V (Ps ! i)" by blast
  from free_step [OF i(3) _ k] b P(2) st obtain h' V' P' where
    f: "cxl_free sh special b (sy_heap S) = Inr h'" "client_inv sh h' V' P'" "live h' V' = sy_out S - {b}"
    "keeps (sy_out S - {b}) (sy_heap S) h'" "others_ok sh (sy_heap S) h'" by metis
  have "pools_inv h' V' (sy_clients S) (Ps[i := P'])" using pools_turn [OF P(1) i(1)] f(2,5) i(2) by simp
  then have "sys_inv (S\<lparr>sy_heap := h', sy_out := sy_out S - {b}\<rparr>)" using f(3) by (auto simp: sys_inv_def)
  then show ?thesis using f(1,4) by blast
qed

lemma pools_enter:
  assumes P: "pools_inv h V cs Ps" and fits: "region_fits (newcomer N)" and room: "length cs < MAX_THREAD"
    and id: "pack_machine_process_id mac pid \<noteq> 0"
  shows "\<exists>sh h'. thread_init mac pid (newcomer N) h = Some (sh, h') \<and> pools_inv h' V (cs @ [sh]) (Ps @ [empty_pool])
    \<and> live h' V = live h V \<and> keeps L h h' \<and> h_sas h' = h_sas h"
proof -
  let ?k = "length cs"
  have I: "alloc_inv h V" "segments_ok h" "slots_taken ?k h" "list_all2 (\<lambda>sh P. pool_inv sh h P) cs Ps"
    "\<And>j. j < ?k \<Longrightarrow> in_slot j (cs ! j)"
    using P by (simp_all add: pools_inv_def)
  have k: "\<forall>j < ?k. tls_packed_id (h_tls h (tls_at j)) \<noteq> 0" "tls_packed_id (h_tls h (tls_at ?k)) = 0"
    "\<forall>s < MAX_SEGMENT_NUM. unat (sas_thread_id (h_sas h (sas_at s))) \<noteq> ?k + 1"
    using I(3) room by (auto simp: slots_taken_def)
  from thread_init_client [OF I(1,2) fits room k, of mac pid L] obtain sh h' where
    t: "thread_init mac pid (newcomer N) h = Some (sh, h')" "unat (shm_thread_id sh) = ?k + 1" "shm_tls_offset sh = tls_at ?k"
    "tls_packed_id (h_tls h' (tls_at ?k)) = pack_machine_process_id mac pid" "client_inv sh h' V empty_pool" "live h' V = live h V"
    "keeps L h h'" "h_sas h' = h_sas h" "\<And>a. a \<noteq> tls_at ?k \<Longrightarrow> h_tls h' a = h_tls h a"
    "\<And>sh2 P2. shm_tls_offset sh2 \<noteq> tls_at ?k \<Longrightarrow> pool_inv sh2 h P2 \<Longrightarrow> pool_inv sh2 h' P2" by metis
  have old: "pool_inv (cs ! j) h' (Ps ! j)" if "j < ?k" for j
    using t(10) [OF _ list_all2_nthD [OF I(4) that]] I(5) [OF that] tls_at_inj [of j ?k] that room by (auto simp: in_slot_def)
  have "list_all2 (\<lambda>sh P. pool_inv sh h' P) cs Ps"
    using old list_all2_lengthD [OF I(4)] by (intro list_all2_all_nthI) simp_all
  then have "list_all2 (\<lambda>sh P. pool_inv sh h' P) (cs @ [sh]) (Ps @ [empty_pool])"
    using t(5) by (intro list_all2_appendI) (simp_all add: client_inv_def)
  moreover have "slots_taken (?k + 1) h'"
    unfolding slots_taken_def
  proof (intro conjI allI impI)
    show "tls_packed_id (h_tls h' (tls_at i)) = 0 \<longleftrightarrow> ?k + 1 \<le> i" if "i < MAX_THREAD" for i
      using t(4) id t(9) [of "tls_at i"] tls_at_inj [OF that room] I(3) that by (cases "i = ?k") (auto simp: slots_taken_def)
  qed (use I(3) room t(8) in \<open>auto simp: slots_taken_def intro: le_SucI\<close>)
  moreover have "in_slot i ((cs @ [sh]) ! i)" if "i < ?k + 1" for i
    using that I(5) [of i] t(2,3) by (cases "i = ?k") (auto simp: in_slot_def nth_append)
  ultimately have "pools_inv h' V (cs @ [sh]) (Ps @ [empty_pool])"
    using t(5) by (simp add: pools_inv_def client_inv_def pool_inv_def)
  then show ?thesis using t(1,6-8) by blast
qed

lemma sys_enter:
  assumes inv: "sys_inv S" and fits: "region_fits (newcomer N)" and room: "length (sy_clients S) < MAX_THREAD"
    and id: "pack_machine_process_id mac pid \<noteq> 0"
  shows "\<exists>sh h. thread_init mac pid (newcomer N) (sy_heap S) = Some (sh, h)
    \<and> sys_inv (S\<lparr>sy_heap := h, sy_clients := sy_clients S @ [sh]\<rparr>) \<and> keeps (sy_out S) (sy_heap S) h"
proof -
  from inv obtain V Ps where P: "pools_inv (sy_heap S) V (sy_clients S) Ps" "live (sy_heap S) V = sy_out S" by (auto simp: sys_inv_def)
  from pools_enter [OF P(1) fits room id, of "sy_out S"] obtain sh h where
    t: "thread_init mac pid (newcomer N) (sy_heap S) = Some (sh, h)" "pools_inv h V (sy_clients S @ [sh]) (Ps @ [empty_pool])"
    "live h V = live (sy_heap S) V" "keeps (sy_out S) (sy_heap S) h" by blast
  then have "sys_inv (S\<lparr>sy_heap := h, sy_clients := sy_clients S @ [sh]\<rparr>)" using P(2) by (auto simp: sys_inv_def)
  then show ?thesis using t(1,4) by blast
qed

text \<open>Changes of the cells and of who the queues of a client belong to do not matter here.\<close>

lemma pools_same:
  assumes P: "pools_inv h V cs Ps" and eq: "h_page h' = h_page h" "h_sas h' = h_sas h" "h_seg h' = h_seg h"
    and tls: "\<And>a. tls_pages (h_tls h' a) = tls_pages (h_tls h a) \<and> tls_free_page (h_tls h' a) = tls_free_page (h_tls h a)
      \<and> tls_packed_id (h_tls h' a) = tls_packed_id (h_tls h a)"
    and cells: "\<And>x. listed V x \<Longrightarrow> h_cell h' x = h_cell h x"
  shows "pools_inv h' V cs Ps"
proof -
  have ss: "same_shape h h'" by (rule same_shape_page [OF eq(1)])
  have I: "alloc_inv h V" "segments_ok h" "slots_taken (length cs) h" "list_all2 (\<lambda>sh P. pool_inv sh h P) cs Ps"
    using P by (simp_all add: pools_inv_def)
  have "alloc_inv h' V" by (rule alloc_inv_cells [OF I(1) eq(1,2) cells])
  moreover have "segments_ok h'" using I(2) by (simp add: segments_ok_def eq same_shapeD [OF ss])
  moreover have "slots_taken (length cs) h'" using I(3) tls by (simp add: slots_taken_def eq)
  moreover have "pool_inv sh h' P" if "pool_inv sh h P" for sh P
    by (rule pool_inv_cong [OF that ss]) (simp_all add: eq tls)
  then have "list_all2 (\<lambda>sh P. pool_inv sh h' P) cs Ps" using I(4) by (auto elim: list_all2_mono)
  ultimately show ?thesis using P by (simp add: pools_inv_def)
qed

lemma sys_inv_start: "sys_inv start"
proof -
  have "slots_taken 0 zero_heap" by (simp add: slots_taken_def zero_defs)
  then have "pools_inv zero_heap empty_lists [] []" using zero_region by (simp add: pools_inv_def)
  then show ?thesis using zero_region(3) by (auto simp: sys_inv_def start_def)
qed

lemma sys_inv_step:
  assumes "client_step N S S'" and "sys_inv S" and "region_fits (newcomer N)"
  shows "sys_inv S'"
  using assms(1)
proof (cases rule: client_step.cases)
  case (enter mac pid sh h)
  then show ?thesis using sys_enter [OF assms(2,3) enter(4,3)] by auto
next
  case (malloc sh n emb r h)
  then show ?thesis using sys_malloc [OF assms(2) malloc(2,3), of emb] by auto
next
  case (free sh b special h)
  then show ?thesis using sys_free [OF assms(2) free(2-5)] by auto
qed

lemma reachable_sys_inv:
  assumes "rtranclp (client_step N) start S" and "region_fits (newcomer N)"
  shows "sys_inv S"
  using assms(1) by (induction rule: rtranclp_induct) (auto intro: sys_inv_start sys_inv_step assms(2))

text \<open>Blocks that are out do not overlap.\<close>

lemma out_apart:
  assumes "sys_inv S" and "b \<in> sy_out S" "c \<in> sy_out S" "b \<noteq> c"
    and "d < bsize (sy_heap S) (cxl_ptr_page b)" "e < bsize (sy_heap S) (cxl_ptr_page c)"
  shows "b + of_nat d \<noteq> c + of_nat e"
proof -
  obtain V where "live (sy_heap S) V = sy_out S" using assms(1) by (auto simp: sys_inv_def)
  then have "block_in (sy_heap S) (cxl_ptr_page b) b" "block_in (sy_heap S) (cxl_ptr_page c) c"
    using assms(2,3) live_block by blast+
  then show ?thesis using assms(4-6) by (rule blocks_apart)
qed

text \<open>
  C8. In every state that any number of clients reach by entering, allocating and freeing in
  any order, the blocks that are out do not overlap, and the next allocation of any client
  either dereferences a null page, for want of memory, or hands out two blocks that are not
  out and large enough.
\<close>

theorem clients_share_no_block:
  assumes "rtranclp (client_step N) start S" and "region_fits (newcomer N)" and "sh \<in> set (sy_clients S)" and "n \<le> 1000"
  shows "(\<forall>b c d e. b \<in> sy_out S \<and> c \<in> sy_out S \<and> b \<noteq> c
      \<and> d < bsize (sy_heap S) (cxl_ptr_page b) \<and> e < bsize (sy_heap S) (cxl_ptr_page c) \<longrightarrow> b + of_nat d \<noteq> c + of_nat e)
    \<and> (cxl_malloc (2 ^ 64) sh (of_nat n) emb (sy_heap S) = Inl Null_Deref
      \<or> (\<exists>r ob h'. cxl_malloc (2 ^ 64) sh (of_nat n) emb (sy_heap S) = Inr (\<lparr>ref_tbr = r, ref_data = ob + sizeof_CXLObj\<rparr>, h')
          \<and> r \<notin> sy_out S \<and> ob \<notin> sy_out S \<and> r \<noteq> ob \<and> n + 24 \<le> bsize h' (cxl_ptr_page ob)))"
proof -
  have "sys_inv S" by (rule reachable_sys_inv [OF assms(1,2)])
  then show ?thesis using out_apart sys_malloc [OF _ assms(3,4), of emb] by blast
qed

lemma step_keeps:
  assumes inv: "sys_inv S" and fits: "region_fits (newcomer N)" and step: "client_step N S S'"
  shows "keeps (sy_out S \<inter> sy_out S') (sy_heap S) (sy_heap S')"
  using step
proof (cases rule: client_step.cases)
  case (enter mac pid sh h)
  then show ?thesis using sys_enter [OF inv fits enter(4,3)] by (auto elim: keeps_mono)
next
  case (malloc sh n emb r h)
  then show ?thesis using sys_malloc [OF inv malloc(2,3), of emb] by (auto elim: keeps_mono)
next
  case (free sh b special h)
  then show ?thesis using sys_free [OF inv free(2-5)] by (auto elim: keeps_mono)
qed

text \<open>
  C9. No step of a client changes the contents, the size or the kind of a block that was out
  before and is out after it, whoever holds it.
\<close>

theorem steps_spare_blocks_out:
  assumes "rtranclp (client_step N) start S" and "region_fits (newcomer N)" and "client_step N S S'"
  shows "keeps (sy_out S \<inter> sy_out S') (sy_heap S) (sy_heap S')"
  using step_keeps [OF reachable_sys_inv [OF assms(1,2)] assms(2,3)] .

section \<open>An example\<close>

lemma demo_system:
  "\<exists>sh r ob h h'. client_step (2 ^ 28) start \<lparr>sy_heap = h, sy_clients = [sh], sy_out = {}\<rparr>
    \<and> client_step (2 ^ 28) \<lparr>sy_heap = h, sy_clients = [sh], sy_out = {}\<rparr> \<lparr>sy_heap = h', sy_clients = [sh], sy_out = {r, ob}\<rparr>
    \<and> r \<noteq> ob"
proof -
  have fits: "region_fits (newcomer (2 ^ 28))" by (simp add: region_fits_def newcomer_def layout)
  have z: "0 < MAX_THREAD" by (simp add: layout)
  have id: "pack_machine_process_id 1 7 \<noteq> 0" by (simp add: pack_machine_process_id_def)
  from thread_init_client [OF zero_region(1,2) fits z, of 1 7 "{}"] obtain sh h where
    t: "thread_init 1 7 (newcomer (2 ^ 28)) zero_heap = Some (sh, h)" "client_inv sh h empty_lists empty_pool"
    "live h empty_lists = {}" "h_sas h = h_sas zero_heap"
    using zero_region(3) by (auto simp: zero_defs)
  have size: "shm_size sh = 2 ^ 28"
    using t(1) by (auto simp: thread_init_def Let_def newcomer_def split: option.splits)
  have "claim_segment sh h 0 = Some (0 + 1)"
    by (rule claim_segment_first) (simp_all add: t(4) size zero_defs)
  then have "room sh h empty_pool 2" by (auto simp: room_def layout)
  with malloc_step [OF t(2) order.refl, of 40 0] t(3) obtain r ob h' where
    m: "cxl_malloc (2 ^ 64) sh (of_nat 40) 0 h = Inr (\<lparr>ref_tbr = r, ref_data = ob + sizeof_CXLObj\<rparr>, h')" "r \<noteq> ob" by auto
  have "client_step (2 ^ 28) start \<lparr>sy_heap = h, sy_clients = [sh], sy_out = {}\<rparr>"
    using client_step.enter [of 1 7 "2 ^ 28" start sh h] t(1) id z by (simp add: start_def)
  moreover have "client_step (2 ^ 28) \<lparr>sy_heap = h, sy_clients = [sh], sy_out = {}\<rparr> \<lparr>sy_heap = h', sy_clients = [sh], sy_out = {r, ob}\<rparr>"
    using client_step.malloc [of sh "\<lparr>sy_heap = h, sy_clients = [sh], sy_out = {}\<rparr>" 40 0 _ h' "2 ^ 28"] m(1) by simp
  ultimately show ?thesis using m(2) by blast
qed

theorem clients_share_no_block_witness:
  "\<exists>S sh. rtranclp (client_step (2 ^ 28)) start S \<and> sy_out S \<noteq> {}
    \<and> (cxl_malloc (2 ^ 64) sh (of_nat 40) 0 (sy_heap S) = Inl Null_Deref
      \<or> (\<exists>r ob h'. cxl_malloc (2 ^ 64) sh (of_nat 40) 0 (sy_heap S) = Inr (\<lparr>ref_tbr = r, ref_data = ob + sizeof_CXLObj\<rparr>, h')
          \<and> r \<notin> sy_out S))"
proof -
  from demo_system obtain sh r ob h h' where
    s: "client_step (2 ^ 28) start \<lparr>sy_heap = h, sy_clients = [sh], sy_out = {}\<rparr>"
      "client_step (2 ^ 28) \<lparr>sy_heap = h, sy_clients = [sh], sy_out = {}\<rparr> \<lparr>sy_heap = h', sy_clients = [sh], sy_out = {r, ob}\<rparr>" by blast
  let ?S = "\<lparr>sy_heap = h', sy_clients = [sh], sy_out = {r, ob}\<rparr>"
  have r: "rtranclp (client_step (2 ^ 28)) start ?S" using s by (meson rtranclp.intros)
  have "region_fits (newcomer (2 ^ 28))" by (simp add: region_fits_def newcomer_def layout)
  from clients_share_no_block [OF r this, of sh 40 0] show ?thesis
    by (intro exI [of _ ?S] exI [of _ sh]) (use r in auto)
qed

theorem steps_spare_blocks_out_witness:
  "\<exists>S S' r ob. rtranclp (client_step (2 ^ 28)) start S \<and> client_step (2 ^ 28) S S' \<and> sy_out S' = {r, ob}
    \<and> keeps (sy_out S \<inter> sy_out S') (sy_heap S) (sy_heap S')"
proof -
  from demo_system obtain sh r ob h h' where
    s: "client_step (2 ^ 28) start \<lparr>sy_heap = h, sy_clients = [sh], sy_out = {}\<rparr>"
      "client_step (2 ^ 28) \<lparr>sy_heap = h, sy_clients = [sh], sy_out = {}\<rparr> \<lparr>sy_heap = h', sy_clients = [sh], sy_out = {r, ob}\<rparr>" by blast
  have f: "region_fits (newcomer (2 ^ 28))" by (simp add: region_fits_def newcomer_def layout)
  have r: "rtranclp (client_step (2 ^ 28)) start \<lparr>sy_heap = h, sy_clients = [sh], sy_out = {}\<rparr>"
    using s(1) by (meson rtranclp.intros)
  from steps_spare_blocks_out [OF r f s(2)] show ?thesis
    using r s(2) by (intro exI [of _ "\<lparr>sy_heap = h, sy_clients = [sh], sy_out = {}\<rparr>"]
        exI [of _ "\<lparr>sy_heap = h', sy_clients = [sh], sy_out = {r, ob}\<rparr>"] exI [of _ r] exI [of _ ob]) simp
qed

end
