(* ===== verification/Object_Graph.thy ===== *)
theory Object_Graph
  imports Clients Cxl_Ref
begin

text \<open>
  What reference counting is for: the objects and the cells that refer to them as a graph.
  \<open>graph h V R O\<close> says that the count of every object of \<open>O\<close> is the number of cells that hold
  it, the cells being those of \<open>R\<close> (root references, message slots, hash buckets) and the
  references embedded in the objects themselves. \<open>link_reference\<close> and \<open>unlink_reference\<close> keep it.
\<close>

section \<open>The graph of a region\<close>

definition slot :: "u64 \<Rightarrow> nat \<Rightarrow> u64" where
  "slot ob i = ob + of_nat (24 + 8 * i)"

definition slots :: "shm_heap \<Rightarrow> u64 \<Rightarrow> u64 set" where
  "slots h ob = slot ob ` {..<unat (obj_embedded h ob)}"

definition obj_cnt :: "shm_heap \<Rightarrow> u64 \<Rightarrow> nat" where
  "obj_cnt h ob = unat (get_ref_cnt_from_info (obj_ref_info h ob))"

definition ref_cells :: "shm_heap \<Rightarrow> u64 set \<Rightarrow> u64 set \<Rightarrow> u64 set" where
  "ref_cells h R O' = R \<union> (\<Union>ob \<in> O'. slots h ob)"

definition holders :: "shm_heap \<Rightarrow> u64 set \<Rightarrow> u64 set \<Rightarrow> u64 \<Rightarrow> u64 set" where
  "holders h R O' ob = {c \<in> ref_cells h R O'. h_cell h c = ob}"

text \<open>Where a cell outside the objects may be: below the segments or in a block that is no object.\<close>

definition root_place :: "shm_heap \<Rightarrow> block_lists \<Rightarrow> u64 set \<Rightarrow> u64 \<Rightarrow> bool" where
  "root_place h V O' c \<longleftrightarrow> c < SEGMENTS_AREA_START \<or> (\<exists>b \<in> live h V - O'. \<exists>d < bsize h (cxl_ptr_page b). c = b + of_nat d)"

definition object_at :: "shm_heap \<Rightarrow> u64 \<Rightarrow> bool" where
  "object_at h ob \<longleftrightarrow> freeable h False (cxl_ptr_page ob) \<and> 24 + 8 * unat (obj_embedded h ob) \<le> bsize h (cxl_ptr_page ob)"

definition graph :: "shm_heap \<Rightarrow> block_lists \<Rightarrow> u64 set \<Rightarrow> u64 set \<Rightarrow> bool" where
  "graph h V R O' \<longleftrightarrow> O' \<subseteq> live h V \<and> (\<forall>ob \<in> O'. object_at h ob) \<and> (\<forall>c \<in> R. root_place h V O' c)
     \<and> (\<forall>c \<in> ref_cells h R O'. h_cell h c = 0 \<or> h_cell h c \<in> O')
     \<and> (\<forall>ob \<in> O'. obj_cnt h ob = card (holders h R O' ob) \<and> holders h R O' ob \<noteq> {})"

lemma graphD:
  assumes "graph h V R O'"
  shows "ob \<in> O' \<Longrightarrow> ob \<in> live h V" "ob \<in> O' \<Longrightarrow> object_at h ob" "c \<in> R \<Longrightarrow> root_place h V O' c"
    and "c \<in> ref_cells h R O' \<Longrightarrow> h_cell h c \<noteq> 0 \<Longrightarrow> h_cell h c \<in> O'"
    and "ob \<in> O' \<Longrightarrow> obj_cnt h ob = card (holders h R O' ob)" "ob \<in> O' \<Longrightarrow> holders h R O' ob \<noteq> {}"
  using assms unfolding graph_def by blast+

lemma finite_holders [simp]: "finite (holders h R O' ob)" by (rule finite)

lemma slot_inside:
  assumes "object_at h ob" and "s \<in> slots h ob"
  obtains d where "s = ob + of_nat d" "24 \<le> d" "d + 8 \<le> bsize h (cxl_ptr_page ob)"
proof -
  obtain i where "i < unat (obj_embedded h ob)" "s = slot ob i" using assms(2) by (auto simp: slots_def)
  then show ?thesis using assms(1) that [of "24 + 8 * i"] by (simp add: object_at_def slot_def)
qed

lemma bsize_page: "block_in h p b \<Longrightarrow> bsize h p \<le> 65536"
  by (auto elim!: block_inE)

text \<open>A reference cell is none of the header cells of an object.\<close>

lemma same_block_offsets:
  assumes "block_in h p b" "d < bsize h p" "e < bsize h p" "b + of_nat d = b + of_nat e"
  shows "d = e"
proof -
  have "(of_nat d :: u64) = of_nat e" using assms(4) by simp
  then show ?thesis using assms(2,3) bsize_page [OF assms(1)] by (subst (asm) of_nat_eq_64) simp_all
qed

lemma cell_outside:
  assumes g: "graph h V R O'" and c: "c \<in> ref_cells h R O'" and ob: "ob \<in> O'" and e: "e < 24"
  shows "c \<noteq> ob + of_nat e"
proof -
  have L: "block_in h (cxl_ptr_page ob) ob" "24 \<le> bsize h (cxl_ptr_page ob)"
    using graphD(1,2) [OF g ob] by (simp_all add: live_def object_at_def freeable_def)
  from c consider "c \<in> R" | ob2 where "ob2 \<in> O'" "c \<in> slots h ob2" by (auto simp: ref_cells_def)
  then show ?thesis
  proof cases
    case 1
    have "root_place h V O' c" by (rule graphD(3) [OF g 1])
    then consider "c < SEGMENTS_AREA_START"
      | b d where "b \<in> live h V" "b \<noteq> ob" "d < bsize h (cxl_ptr_page b)" "c = b + of_nat d"
      using ob by (auto simp: root_place_def)
    then show ?thesis
    proof cases
      case 1
      then show ?thesis using block_high [OF L(1)] L(2) e by (metis less_le_trans)
    next
      case 2
      then show ?thesis using blocks_apart [OF live_block [OF 2(1)] L(1) 2(2,3)] L(2) e by (metis less_le_trans)
    qed
  next
    case 2
    from graphD(2) [OF g 2(1)] 2(2) obtain d where d: "c = ob2 + of_nat d" "24 \<le> d" "d + 8 \<le> bsize h (cxl_ptr_page ob2)"
      by (rule slot_inside)
    have "block_in h (cxl_ptr_page ob2) ob2" using graphD(1) [OF g 2(1)] by (rule live_block)
    then show ?thesis
      using blocks_apart [OF _ L(1), of "cxl_ptr_page ob2" ob2 d e] same_block_offsets [OF L(1), of d e] d e L(2)
      by (cases "ob2 = ob") auto
  qed
qed

text \<open>Neither reference cells nor headers are cells of a free block.\<close>

lemma live_cell_place:
  assumes "b \<in> live h V" and "alloc_inv h V" and "d < bsize h (cxl_ptr_page b)"
  shows "\<not> listed V (b + of_nat d)"
  using live_cell_unlisted [OF assms(2,1,3)] .

lemma low_unlisted:
  assumes "alloc_inv h V" and "c < SEGMENTS_AREA_START"
  shows "\<not> listed V c"
proof
  assume "listed V c"
  then obtain p where "block_in h p c" using assms(1) unfolding alloc_inv_def listed_def placed_def by blast
  moreover from this have "0 < bsize h p" by (auto elim: block_inE)
  ultimately show False using block_high [of h p c 0] assms(2) by simp
qed

lemma root_place_unlisted: "alloc_inv h V \<Longrightarrow> root_place h V O' c \<Longrightarrow> \<not> listed V c"
  by (auto simp: root_place_def low_unlisted live_cell_place)

lemma ref_cell_unlisted:
  assumes g: "graph h V R O'" and A: "alloc_inv h V" and c: "c \<in> ref_cells h R O'"
  shows "\<not> listed V c"
proof -
  from c consider "c \<in> R" | ob where "ob \<in> O'" "c \<in> slots h ob" by (auto simp: ref_cells_def)
  then show ?thesis
  proof cases
    case 1
    then show ?thesis using root_place_unlisted [OF A] graphD(3) [OF g] by blast
  next
    case 2
    from graphD(2) [OF g 2(1)] 2(2) obtain d where d: "c = ob + of_nat d" "d + 8 \<le> bsize h (cxl_ptr_page ob)" by (rule slot_inside)
    then show ?thesis using live_cell_place [OF graphD(1) [OF g 2(1)] A, of d] by simp
  qed
qed

lemma header_unlisted:
  assumes "graph h V R O'" "alloc_inv h V" "ob \<in> O'" "e < 24"
  shows "\<not> listed V (ob + of_nat e)"
  using live_cell_place [OF graphD(1) [OF assms(1,3)] assms(2), of e] graphD(2) [OF assms(1,3)] assms(4)
  by (simp add: object_at_def freeable_def)

section \<open>Linking and unlinking\<close>

text \<open>Steps that write cells of live blocks and the client's redo log.\<close>

definition log_only :: "cxl_shm \<Rightarrow> shm_heap \<Rightarrow> shm_heap \<Rightarrow> bool" where
  "log_only sh h h' \<longleftrightarrow> h_page h' = h_page h \<and> h_sas h' = h_sas h \<and> h_seg h' = h_seg h \<and> tls_frame sh h h'
     \<and> (\<forall>a. tls_pages (h_tls h' a) = tls_pages (h_tls h a) \<and> tls_free_page (h_tls h' a) = tls_free_page (h_tls h a))"

lemma log_only_client:
  assumes inv: "client_inv sh h V P" and l: "log_only sh h h'" and cells: "\<And>x. listed V x \<Longrightarrow> h_cell h' x = h_cell h x"
  shows "client_inv sh h' V P" "live h' V = live h V" "others_ok sh h h'" "same_shape h h'"
proof -
  have eq: "h_page h' = h_page h" "h_sas h' = h_sas h" "h_seg h' = h_seg h" "tls_frame sh h h'"
    "\<And>a. tls_pages (h_tls h' a) = tls_pages (h_tls h a)" "\<And>a. tls_free_page (h_tls h' a) = tls_free_page (h_tls h a)"
    using l by (simp_all add: log_only_def)
  show ss: "same_shape h h'" by (rule same_shape_page) (rule eq)
  have A: "alloc_inv h V" and pi: "pool_inv sh h P" using inv by (simp_all add: client_inv_def)
  have "alloc_inv h' V" by (rule alloc_inv_cells [OF A eq(1,2) cells])
  moreover have "pool_inv sh h' P" by (rule pool_inv_cong [OF pi ss]) (simp_all add: eq)
  ultimately show "client_inv sh h' V P" by (simp add: client_inv_def)
  show "live h' V = live h V" by (simp add: live_def same_shapeD [OF ss])
  show "others_ok sh h h'" by (rule others_ok_shape [OF ss eq(4)]) (simp_all add: eq)
qed

lemma log_only_set [simp]:
  "log_only sh h (set_cell a v h') \<longleftrightarrow> log_only sh h h'" "log_only sh h (bump_era sh h') \<longleftrightarrow> log_only sh h h'"
  "log_only sh h (see_era sh w h') \<longleftrightarrow> log_only sh h h'" "log_only sh h (write_redo sh r h') \<longleftrightarrow> log_only sh h h'" "log_only sh h h"
  by (auto simp: log_only_def tls_frame_def write_redo_def)

lemma cnt16: "(ucast (ucast (get_ref_cnt_from_info w) :: u16) :: u64) = get_ref_cnt_from_info w"
  by (simp add: word_unat_eq_iff unsigned_ucast_eq unsigned_take_bit_eq take_bit_nat_eq_self unat_fields)

lemma unat_cnt: "unat (get_ref_cnt_from_info w) < 65536"
  by (simp add: unat_fields)

lemma link_heap:
  "log_only sh h (link_reference sh c ob h)"
  "h_cell (link_reference sh c ob h) = (h_cell h)(ob + 8 := pack_ref_info (ucast (shm_thread_id sh))
     (get_ref_cnt_from_info (obj_ref_info h ob) + 1) (h_era h (own_era sh)), c := ob)"
  by (simp_all add: link_reference_def link_prepare_def link_finish_def Let_def cnt16)

lemma unlink_heap:
  "\<exists>h1 e. unlink_reference sh c ob h = (if get_ref_cnt_from_info (obj_ref_info h ob) - 1 > 0 then Inr h1 else cxl_free sh False ob h1)
     \<and> log_only sh h h1 \<and> h_cell h1 = (h_cell h)(ob + 8 := pack_ref_info (ucast (shm_thread_id sh))
       (get_ref_cnt_from_info (obj_ref_info h ob) - 1) e, c := 0)"
proof -
  let ?w = "obj_ref_info h ob"
  let ?h1 = "see_era sh ?w h"
  let ?r = "\<lparr>func_id = redo_func_code UNLINK_REF, saved_ref_cnt = ucast (get_ref_cnt_from_info ?w),
    cur_era = h_era ?h1 (own_era sh), redo_ref = c, redo_refed = ob, old_refed = 0\<rparr>"
  let ?new = "pack_ref_info (ucast (shm_thread_id sh)) (get_ref_cnt_from_info ?w - 1) (h_era ?h1 (own_era sh))"
  let ?h2 = "bump_era sh (set_cell c 0 (set_cell (ob + 8) ?new (write_redo sh ?r ?h1)))"
  have "unlink_reference sh c ob h = (if get_ref_cnt_from_info ?w - 1 > 0 then Inr ?h2 else cxl_free sh False ob ?h2)"
    by (simp add: unlink_reference_def unlink_prepare_def unlink_finish_def Let_def cnt16)
  moreover have "log_only sh h ?h2" by simp
  moreover have "h_cell ?h2 = (h_cell h)(ob + 8 := ?new, c := 0)" by simp
  ultimately show ?thesis by blast
qed

text \<open>The count a packed word carries.\<close>

lemma tid_fits: "client_inv sh h V P \<Longrightarrow> unat (ucast (shm_thread_id sh) :: u64) < 2 ^ 16"
  by (simp add: client_inv_def pool_inv_def)

section \<open>Stores\<close>

text \<open>A region with its lists, one client's pool and the objects, as one value.\<close>

record store =
  st_heap :: shm_heap
  st_lists :: block_lists
  st_pool :: page_pool
  st_objs :: "u64 set"

definition no_leak :: "shm_heap \<Rightarrow> bool" where
  "no_leak h \<longleftrightarrow> (\<forall>a. sf_state (sas_info (h_sas h a)) \<noteq> segment_state_code POTENTIAL_LEAKING)"

abbreviation st_live :: "store \<Rightarrow> u64 set" where "st_live S \<equiv> live (st_heap S) (st_lists S)"

abbreviation st_cells :: "u64 set \<Rightarrow> store \<Rightarrow> u64 set" where "st_cells R S \<equiv> ref_cells (st_heap S) R (st_objs S)"

abbreviation st_holders :: "u64 set \<Rightarrow> store \<Rightarrow> u64 \<Rightarrow> u64 set" where
  "st_holders R S ob \<equiv> holders (st_heap S) R (st_objs S) ob"

definition store_inv :: "cxl_shm \<Rightarrow> u64 set \<Rightarrow> store \<Rightarrow> bool" where
  "store_inv sh R S \<longleftrightarrow> client_inv sh (st_heap S) (st_lists S) (st_pool S)
     \<and> graph (st_heap S) (st_lists S) R (st_objs S) \<and> no_leak (st_heap S)"

lemma no_leak_others:
  assumes "no_leak h" and "others_ok sh h h'"
  shows "no_leak h'"
  unfolding no_leak_def
proof
  fix a
  show "sf_state (sas_info (h_sas h' a)) \<noteq> segment_state_code POTENTIAL_LEAKING"
    using others_okD(3) [OF assms(2), of a] assms(1) by (auto simp: no_leak_def)
qed

text \<open>
  What giving up the references in the cells \<open>X\<close> may do: these cells are cleared, some objects
  die, and, with \<open>ex\<close>, their blocks are free; the other objects keep their contents from byte 16 on, every other cell outside the
  objects its value.
\<close>

definition outside :: "shm_heap \<Rightarrow> u64 set \<Rightarrow> u64 \<Rightarrow> bool" where
  "outside h O' x \<longleftrightarrow> (\<forall>ob \<in> O'. \<forall>d < bsize h (cxl_ptr_page ob). x \<noteq> ob + of_nat d)"

lemma outside_header:
  assumes "outside h O' x" and "ob \<in> O'" and "object_at h ob"
  shows "x \<noteq> ob" "x \<noteq> ob + 8" "x \<noteq> ob + 16"
proof -
  have "x \<noteq> ob + of_nat d" if "d < 24" for d
    using assms(1,2) assms(3) that by (simp add: outside_def object_at_def freeable_def)
  from this [of 0] this [of 8] this [of 16] show "x \<noteq> ob" "x \<noteq> ob + 8" "x \<noteq> ob + 16" by simp_all
qed

definition dropped :: "bool \<Rightarrow> cxl_shm \<Rightarrow> u64 set \<Rightarrow> u64 set \<Rightarrow> store \<Rightarrow> store \<Rightarrow> bool" where
  "dropped ex sh R X S S' \<longleftrightarrow> st_objs S' \<subseteq> st_objs S
     \<and> st_live S - (st_objs S - st_objs S') \<subseteq> st_live S' \<and> st_live S' \<subseteq> st_live S \<and> (ex \<longrightarrow> st_live S' \<inter> (st_objs S - st_objs S') = {})
     \<and> (\<forall>x \<in> X. x \<in> st_cells R S' \<longrightarrow> h_cell (st_heap S') x = 0)
     \<and> (\<forall>x. root_place (st_heap S) (st_lists S) (st_objs S) x \<and> x \<notin> X \<longrightarrow> h_cell (st_heap S') x = h_cell (st_heap S) x)
     \<and> (\<forall>ob \<in> st_objs S'. obj_embedded (st_heap S') ob = obj_embedded (st_heap S) ob
          \<and> (\<forall>d. 24 \<le> d \<and> d < bsize (st_heap S) (cxl_ptr_page ob) \<and> ob + of_nat d \<notin> X
               \<longrightarrow> h_cell (st_heap S') (ob + of_nat d) = h_cell (st_heap S) (ob + of_nat d)))
     \<and> (\<forall>b \<in> st_live S'. bsize (st_heap S') (cxl_ptr_page b) = bsize (st_heap S) (cxl_ptr_page b)
          \<and> pg_is_msg_queue_page (h_page (st_heap S') (cxl_ptr_page b)) = pg_is_msg_queue_page (h_page (st_heap S) (cxl_ptr_page b)))
     \<and> others_ok sh (st_heap S) (st_heap S')
     \<and> (\<forall>x. outside (st_heap S) (st_objs S) x \<and> x \<notin> X \<longrightarrow> h_cell (st_heap S') x = h_cell (st_heap S) x)"

lemma droppedD:
  assumes "dropped ex sh R X S S'"
  shows "st_objs S' \<subseteq> st_objs S" "st_live S - (st_objs S - st_objs S') \<subseteq> st_live S' \<and> st_live S' \<subseteq> st_live S \<and> (ex \<longrightarrow> st_live S' \<inter> (st_objs S - st_objs S') = {})"
    and "x \<in> X \<Longrightarrow> x \<in> st_cells R S' \<Longrightarrow> h_cell (st_heap S') x = 0"
    and "root_place (st_heap S) (st_lists S) (st_objs S) x \<Longrightarrow> x \<notin> X \<Longrightarrow> h_cell (st_heap S') x = h_cell (st_heap S) x"
    and "ob \<in> st_objs S' \<Longrightarrow> obj_embedded (st_heap S') ob = obj_embedded (st_heap S) ob"
    and "ob \<in> st_objs S' \<Longrightarrow> 24 \<le> d \<Longrightarrow> d < bsize (st_heap S) (cxl_ptr_page ob) \<Longrightarrow> ob + of_nat d \<notin> X
      \<Longrightarrow> h_cell (st_heap S') (ob + of_nat d) = h_cell (st_heap S) (ob + of_nat d)"
    and "b \<in> st_live S' \<Longrightarrow> bsize (st_heap S') (cxl_ptr_page b) = bsize (st_heap S) (cxl_ptr_page b)"
    and "b \<in> st_live S' \<Longrightarrow> pg_is_msg_queue_page (h_page (st_heap S') (cxl_ptr_page b)) = pg_is_msg_queue_page (h_page (st_heap S) (cxl_ptr_page b))"
    and "others_ok sh (st_heap S) (st_heap S')"
    and "outside (st_heap S) (st_objs S) x \<Longrightarrow> x \<notin> X \<Longrightarrow> h_cell (st_heap S') x = h_cell (st_heap S) x"
  using assms unfolding dropped_def by blast+

lemma dropped_live: "dropped True sh R X S S' \<Longrightarrow> st_live S' = st_live S - (st_objs S - st_objs S')"
  using droppedD(2) [of True sh R X S S'] by blast

lemma dropped_slots: "dropped ex sh R X S S' \<Longrightarrow> ob \<in> st_objs S' \<Longrightarrow> slots (st_heap S') ob = slots (st_heap S) ob"
  by (simp add: slots_def droppedD(5))

lemma dropped_cells: "dropped ex sh R X S S' \<Longrightarrow> st_cells R S' \<subseteq> st_cells R S"
  using droppedD(1) dropped_slots unfolding ref_cells_def by fastforce

lemma dropped_place:
  assumes "dropped ex sh R X S S'" and "root_place (st_heap S) (st_lists S) (st_objs S) x"
  shows "root_place (st_heap S') (st_lists S') (st_objs S') x"
proof -
  have "b \<in> st_live S' - st_objs S'" if "b \<in> st_live S - st_objs S" for b
    using that droppedD(1,2) [OF assms(1)] by blast
  then show ?thesis using assms(2) droppedD(7) [OF assms(1)] unfolding root_place_def by (metis DiffD1)
qed

text \<open>A reference cell outside \<open>X\<close> keeps its value.\<close>

lemma dropped_cell:
  assumes "dropped ex sh R X S S'" and "graph (st_heap S) (st_lists S) R (st_objs S)" and "x \<in> st_cells R S'" and "x \<notin> X"
  shows "h_cell (st_heap S') x = h_cell (st_heap S) x"
proof -
  from assms(3) consider "x \<in> R" | ob where "ob \<in> st_objs S'" "x \<in> slots (st_heap S') ob" by (auto simp: ref_cells_def)
  then show ?thesis
  proof cases
    case 1
    then show ?thesis using droppedD(4) [OF assms(1) graphD(3) [OF assms(2) 1] assms(4)] by blast
  next
    case 2
    have "ob \<in> st_objs S" using droppedD(1) [OF assms(1)] 2(1) by blast
    from slot_inside [OF graphD(2) [OF assms(2) this], of x] 2 dropped_slots [OF assms(1) 2(1)]
    obtain d where "x = ob + of_nat d" "24 \<le> d" "d + 8 \<le> bsize (st_heap S) (cxl_ptr_page ob)" by auto
    then show ?thesis using droppedD(6) [OF assms(1) 2(1), of d] assms(4) by simp
  qed
qed

lemma dropped_refl [simp]: "dropped ex sh R {} S S"
  by (simp add: dropped_def)

lemma dropped_trans:
  assumes 1: "dropped ex sh R X S S1" and 2: "dropped ex sh R Y S1 S2" and g1: "graph (st_heap S1) (st_lists S1) R (st_objs S1)"
  shows "dropped ex sh R (X \<union> Y) S S2"
  unfolding dropped_def
proof (intro conjI allI impI ballI)
  show "st_objs S2 \<subseteq> st_objs S" using droppedD(1) [OF 1] droppedD(1) [OF 2] by blast
  show "st_live S - (st_objs S - st_objs S2) \<subseteq> st_live S2" "st_live S2 \<subseteq> st_live S"
    using droppedD(1,2) [OF 1] droppedD(1,2) [OF 2] by blast+
  show "st_live S2 \<inter> (st_objs S - st_objs S2) = {}" if ex
    using droppedD(1,2) [OF 1] droppedD(1,2) [OF 2] that by blast
  show "h_cell (st_heap S2) x = 0" if "x \<in> X \<union> Y" "x \<in> st_cells R S2" for x
  proof (cases "x \<in> Y")
    case False
    have "x \<in> st_cells R S1" using dropped_cells [OF 2] that(2) by blast
    then show ?thesis using droppedD(3) [OF 1, of x] dropped_cell [OF 2 g1 that(2) False] that(1) False by simp
  qed (use droppedD(3) [OF 2] that(2) in blast)
  show "h_cell (st_heap S2) x = h_cell (st_heap S) x"
    if "root_place (st_heap S) (st_lists S) (st_objs S) x \<and> x \<notin> X \<union> Y" for x
    using droppedD(4) [OF 1, of x] droppedD(4) [OF 2 dropped_place [OF 1], of x] that by simp
  fix ob assume ob: "ob \<in> st_objs S2"
  then have ob1: "ob \<in> st_objs S1" using droppedD(1) [OF 2] by blast
  show "obj_embedded (st_heap S2) ob = obj_embedded (st_heap S) ob" using droppedD(5) [OF 1 ob1] droppedD(5) [OF 2 ob] by simp
  have "ob \<in> st_live S1" using graphD(1) [OF g1 ob1] .
  then have b: "bsize (st_heap S1) (cxl_ptr_page ob) = bsize (st_heap S) (cxl_ptr_page ob)" by (rule droppedD(7) [OF 1])
  show "h_cell (st_heap S2) (ob + of_nat d) = h_cell (st_heap S) (ob + of_nat d)"
    if "24 \<le> d \<and> d < bsize (st_heap S) (cxl_ptr_page ob) \<and> ob + of_nat d \<notin> X \<union> Y" for d
    using droppedD(6) [OF 1 ob1, of d] droppedD(6) [OF 2 ob, of d] that b by simp
next
  fix b assume b: "b \<in> st_live S2"
  then have "b \<in> st_live S1" using droppedD(2) [OF 2] by blast
  then show "bsize (st_heap S2) (cxl_ptr_page b) = bsize (st_heap S) (cxl_ptr_page b)"
    "pg_is_msg_queue_page (h_page (st_heap S2) (cxl_ptr_page b)) = pg_is_msg_queue_page (h_page (st_heap S) (cxl_ptr_page b))"
    using droppedD(7,8) [OF 1] droppedD(7,8) [OF 2 b] by simp_all
next
  show "others_ok sh (st_heap S) (st_heap S2)" by (rule others_ok_trans [OF droppedD(9) [OF 1] droppedD(9) [OF 2]])
  fix x assume x: "outside (st_heap S) (st_objs S) x \<and> x \<notin> X \<union> Y"
  have "bsize (st_heap S1) (cxl_ptr_page y) = bsize (st_heap S) (cxl_ptr_page y)" if "y \<in> st_objs S1" for y
    by (rule droppedD(7) [OF 1 graphD(1) [OF g1 that]])
  then have "outside (st_heap S1) (st_objs S1) x" using x droppedD(1) [OF 1] by (auto simp: outside_def)
  then show "h_cell (st_heap S2) x = h_cell (st_heap S) x" using droppedD(10) [OF 1, of x] droppedD(10) [OF 2, of x] x by simp
qed

section \<open>One reference changes\<close>

text \<open>A write of a count and of a cell, as linking and unlinking do.\<close>

lemma header_apart:
  assumes g: "graph h V R O'" and "x \<in> O'" "y \<in> O'" "d < 24" "e < 24" "x \<noteq> y \<or> d \<noteq> e"
  shows "x + of_nat d \<noteq> y + of_nat e"
proof -
  have b: "block_in h (cxl_ptr_page z) z \<and> 24 \<le> bsize h (cxl_ptr_page z)" if "z \<in> O'" for z
    using graphD(1,2) [OF g that] by (simp add: live_def object_at_def freeable_def)
  show ?thesis
  proof (cases "x = y")
    case True
    then show ?thesis using same_block_offsets [OF b [THEN conjunct1], of y d e] b [of y] assms by auto
  qed (use blocks_apart [OF b [THEN conjunct1] b [THEN conjunct1], of x y d e] b [of x] b [of y] assms in auto)
qed

lemma ref_write:
  assumes S: "store_inv sh R S" and c: "c \<in> st_cells R S" and ob: "ob \<in> st_objs S"
    and l: "log_only sh (st_heap S) h'" and w: "h_cell h' = (h_cell (st_heap S))(ob + 8 := w, c := v)"
  shows "client_inv sh h' (st_lists S) (st_pool S)" "live h' (st_lists S) = st_live S" "no_leak h'" "others_ok sh (st_heap S) h'"
    and "same_shape (st_heap S) h'"
    and "x \<in> st_cells R S \<Longrightarrow> h_cell h' x = (if x = c then v else h_cell (st_heap S) x)"
    and "y \<in> st_objs S \<Longrightarrow> obj_cnt h' y = (if y = ob then unat (get_ref_cnt_from_info w) else obj_cnt (st_heap S) y)"
    and "y \<in> st_objs S \<Longrightarrow> obj_embedded h' y = obj_embedded (st_heap S) y"
    and "root_place (st_heap S) (st_lists S) (st_objs S) z \<Longrightarrow> z \<noteq> c \<Longrightarrow> h_cell h' z = h_cell (st_heap S) z"
    and "y \<in> st_objs S \<Longrightarrow> 24 \<le> d \<Longrightarrow> d < bsize (st_heap S) (cxl_ptr_page y) \<Longrightarrow> y + of_nat d \<noteq> c
      \<Longrightarrow> h_cell h' (y + of_nat d) = h_cell (st_heap S) (y + of_nat d)"
proof -
  let ?h = "st_heap S" and ?V = "st_lists S" and ?O = "st_objs S"
  have inv: "client_inv sh ?h ?V (st_pool S)" and g: "graph ?h ?V R ?O" and nl: "no_leak ?h"
    using S by (simp_all add: store_inv_def)
  have A: "alloc_inv ?h ?V" using inv by (simp add: client_inv_def)
  have e8: "(ob :: u64) + 8 = ob + of_nat 8" by simp
  have out: "x \<noteq> ob + 8" if "x \<in> st_cells R S" for x using cell_outside [OF g that ob, of 8] by simp
  have keep: "h_cell h' x = h_cell ?h x" if "listed ?V x" for x
    using that ref_cell_unlisted [OF g A c] header_unlisted [OF g A ob, of 8] by (auto simp: w)
  have L: "client_inv sh h' ?V (st_pool S)" "live h' ?V = st_live S" "others_ok sh ?h h'" "same_shape ?h h'"
    by (rule log_only_client [OF inv l keep]; assumption)+
  show "client_inv sh h' ?V (st_pool S)" "live h' ?V = st_live S" "others_ok sh ?h h'" "same_shape ?h h'" by (rule L)+
  show "no_leak h'" by (rule no_leak_others [OF nl L(3)])
  show "x \<in> st_cells R S \<Longrightarrow> h_cell h' x = (if x = c then v else h_cell ?h x)" using out by (simp add: w)
  show "y \<in> ?O \<Longrightarrow> obj_cnt h' y = (if y = ob then unat (get_ref_cnt_from_info w) else obj_cnt ?h y)"
    using cell_outside [OF g c, of y 8] header_apart [OF g ob, of y 8 8] by (auto simp: obj_cnt_def obj_ref_info_def w)
  show "y \<in> ?O \<Longrightarrow> obj_embedded h' y = obj_embedded ?h y"
    using cell_outside [OF g c, of y 16] header_apart [OF g ob, of y 8 16] by (auto simp: obj_embedded_def w)
  have b: "block_in ?h (cxl_ptr_page ob) ob" "24 \<le> bsize ?h (cxl_ptr_page ob)"
    using graphD(1,2) [OF g ob] by (simp_all add: live_def object_at_def freeable_def)
  show "h_cell h' z = h_cell ?h z" if "root_place ?h ?V ?O z" "z \<noteq> c"
  proof -
    have "z \<noteq> ob + of_nat 8"
      using that(1) block_high [OF b(1), of 8] b(2) blocks_apart [OF live_block b(1), of _ _ _ 8] ob
      unfolding root_place_def by fastforce
    then show ?thesis using that(2) by (simp add: w)
  qed
  show "h_cell h' (y + of_nat d) = h_cell ?h (y + of_nat d)"
    if "y \<in> ?O" "24 \<le> d" "d < bsize ?h (cxl_ptr_page y)" "y + of_nat d \<noteq> c"
  proof -
    have "y + of_nat d \<noteq> ob + of_nat 8"
      using blocks_apart [OF live_block [OF graphD(1) [OF g that(1)]] b(1), of d 8] same_block_offsets [OF b(1), of d 8] that(2,3) b(2)
      by (cases "y = ob") auto
    then show ?thesis using that(4) by (simp add: w)
  qed
qed

text \<open>The graph after such a write, if the new count is that of the new holders.\<close>

lemma ref_write_graph:
  assumes S: "store_inv sh R S" and c: "c \<in> st_cells R S" and ob: "ob \<in> st_objs S"
    and l: "log_only sh (st_heap S) h'" and w: "h_cell h' = (h_cell (st_heap S))(ob + 8 := w, c := v)"
    and v: "v = 0 \<or> v \<in> st_objs S"
    and cnt: "\<And>y. y \<in> st_objs S \<Longrightarrow> (if y = ob then unat (get_ref_cnt_from_info w) else obj_cnt (st_heap S) y)
        = card {x \<in> st_cells R S. (if x = c then v else h_cell (st_heap S) x) = y}"
      "\<And>y. y \<in> st_objs S \<Longrightarrow> {x \<in> st_cells R S. (if x = c then v else h_cell (st_heap S) x) = y} \<noteq> {}"
  shows "store_inv sh R (S\<lparr>st_heap := h'\<rparr>)"
proof -
  let ?h = "st_heap S" and ?V = "st_lists S" and ?O = "st_objs S"
  have g: "graph ?h ?V R ?O" using S by (simp add: store_inv_def)
  note W = ref_write [OF S c ob l w]
  have cells: "ref_cells h' R ?O = st_cells R S" using W(8) by (simp add: ref_cells_def slots_def)
  have hold: "holders h' R ?O y = {x \<in> st_cells R S. (if x = c then v else h_cell ?h x) = y}" for y
    unfolding holders_def cells using W(6) by auto
  have place: "root_place h' ?V ?O = root_place ?h ?V ?O" by (simp add: fun_eq_iff root_place_def W(2) same_shapeD [OF W(5)])
  have at: "object_at h' y = object_at ?h y" if "y \<in> ?O" for y
    using W(8) [OF that] by (simp add: object_at_def freeable_def same_shapeD [OF W(5)])
  have "graph h' ?V R ?O"
    using g v cnt W(2,6,7) at unfolding graph_def hold place cells by auto
  then show ?thesis using W(1,3) by (simp add: store_inv_def)
qed

text \<open>The cells that hold an object when one cell is overwritten.\<close>

lemma holders_write:
  assumes g: "graph h V R O'" and y: "y \<in> O'" and c: "c \<in> ref_cells h R O'"
  shows "{x \<in> ref_cells h R O'. (if x = c then v else h_cell h x) = y} = holders h R O' y - {c} \<union> (if v = y then {c} else {})"
  using c by (auto simp: holders_def)

lemma object_nonzero: "graph h V R O' \<Longrightarrow> ob \<in> O' \<Longrightarrow> ob \<noteq> 0"
proof
  assume g: "graph h V R O'" and ob: "ob \<in> O'" and "ob = 0"
  have "24 \<le> bsize h (cxl_ptr_page ob)" using graphD(2) [OF g ob] by (simp add: object_at_def freeable_def)
  then show False using block_high [OF live_block [OF graphD(1) [OF g ob]], of 0] \<open>ob = 0\<close> by (simp add: layout)
qed

lemma graph_link:
  assumes S: "store_inv sh R S" and c: "c \<in> st_cells R S" "h_cell (st_heap S) c = 0" and ob: "ob \<in> st_objs S"
    and few: "card (st_holders R S ob) < 65535"
  shows "store_inv sh R (S\<lparr>st_heap := link_reference sh c ob (st_heap S)\<rparr>)"
proof (rule ref_write_graph [OF S c(1) ob link_heap])
  have g: "graph (st_heap S) (st_lists S) R (st_objs S)" and inv: "client_inv sh (st_heap S) (st_lists S) (st_pool S)"
    using S by (simp_all add: store_inv_def)
  have cnt: "unat (get_ref_cnt_from_info (obj_ref_info (st_heap S) ob) + 1) = card (st_holders R S ob) + 1"
    using graphD(5) [OF g ob] few by (simp add: obj_cnt_def unat_word_ariths)
  show "ob = 0 \<or> ob \<in> st_objs S" using ob by blast
  fix y assume y: "y \<in> st_objs S"
  have ny: "c \<notin> st_holders R S y" using c(2) object_nonzero [OF g y] by (auto simp: holders_def)
  show "(if y = ob then unat (get_ref_cnt_from_info (pack_ref_info (ucast (shm_thread_id sh))
        (get_ref_cnt_from_info (obj_ref_info (st_heap S) ob) + 1) (h_era (st_heap S) (own_era sh)))) else obj_cnt (st_heap S) y)
      = card {x \<in> st_cells R S. (if x = c then ob else h_cell (st_heap S) x) = y}"
    unfolding holders_write [OF g y c(1)] using cnt few ny pack_fields(2) [OF tid_fits [OF inv]] graphD(5) [OF g y] by auto
  show "{x \<in> st_cells R S. (if x = c then ob else h_cell (st_heap S) x) = y} \<noteq> {}"
    unfolding holders_write [OF g y c(1)] using ny graphD(6) [OF g y] by auto
qed

text \<open>One reference of several goes.\<close>

lemma holder_of:
  assumes "graph h V R O'" and "c \<in> ref_cells h R O'" and "h_cell h c \<noteq> 0"
  shows "h_cell h c \<in> O'" "c \<in> holders h R O' (h_cell h c)"
    "unat (get_ref_cnt_from_info (obj_ref_info h (h_cell h c)) - 1) = card (holders h R O' (h_cell h c)) - 1"
    "get_ref_cnt_from_info (obj_ref_info h (h_cell h c)) - 1 > 0 \<longleftrightarrow> 1 < card (holders h R O' (h_cell h c))"
proof -
  let ?ob = "h_cell h c" and ?w = "get_ref_cnt_from_info (obj_ref_info h (h_cell h c))"
  show ob: "?ob \<in> O'" by (rule graphD(4) [OF assms])
  show c: "c \<in> holders h R O' ?ob" using assms(2) by (simp add: holders_def)
  have u: "unat ?w = card (holders h R O' ?ob)" using graphD(5) [OF assms(1) ob] by (simp add: obj_cnt_def)
  have "0 < card (holders h R O' ?ob)" using c by (simp add: card_gt_0_iff) blast
  then have "unat (?w - 1) = unat ?w - 1" using u by (subst unat_minus_one) auto
  then show d: "unat (?w - 1) = card (holders h R O' ?ob) - 1" by (simp add: u)
  show "?w - 1 > 0 \<longleftrightarrow> 1 < card (holders h R O' ?ob)" using d by (simp add: word_less_nat_alt)
qed

text \<open>The last reference goes, and with it the object.\<close>

lemma kept_place:
  assumes K: "keeps (live h V - {ob}) h h'" and ob: "ob \<in> O'" and x: "root_place h V O' x"
  shows "h_cell h' x = h_cell h x"
proof -
  from x consider "x < SEGMENTS_AREA_START"
    | b d where "b \<in> live h V - {ob}" "d < bsize h (cxl_ptr_page b)" "x = b + of_nat d"
    using ob by (auto simp: root_place_def)
  then show ?thesis using keepsD(1,4) [OF K] by cases auto
qed

lemma drop_object_graph:
  assumes at: "O' \<subseteq> live h V" "\<And>y. y \<in> O' \<Longrightarrow> object_at h y" "\<And>x. x \<in> R \<Longrightarrow> root_place h V O' x" and ob: "ob \<in> O'"
    and val: "\<And>x. x \<in> ref_cells h R O' \<Longrightarrow> h_cell h x = 0 \<or> h_cell h x \<in> O'" and none: "holders h R O' ob = {}"
    and cnt: "\<And>y. y \<in> O' - {ob} \<Longrightarrow> obj_cnt h y = card (holders h R O' y) \<and> holders h R O' y \<noteq> {}"
    and s: "\<And>x. x \<in> slots h ob \<Longrightarrow> h_cell h x = 0" and nz: "\<And>y. y \<in> O' \<Longrightarrow> y \<noteq> 0"
    and L: "live h V - {ob} \<subseteq> live h' V'" and K: "keeps (live h V - {ob}) h h'"
  shows "graph h' V' R (O' - {ob}) \<and> (\<forall>x \<in> ref_cells h' R (O' - {ob}). x \<in> ref_cells h R O' \<and> h_cell h' x = h_cell h x)"
proof -
  have yl: "y \<in> live h V - {ob}" if "y \<in> O' - {ob}" for y using that at(1) by blast
  have bs: "24 + 8 * unat (obj_embedded h y) \<le> bsize h (cxl_ptr_page y) \<and> 24 \<le> bsize h (cxl_ptr_page y)" if "y \<in> O'" for y
    using at(2) [OF that] by (simp add: object_at_def freeable_def)
  have header: "h_cell h' (y + of_nat d) = h_cell h (y + of_nat d)" if "y \<in> O' - {ob}" "d < 24" for y d
    using keepsD(4) [OF K yl [OF that(1)], of d] bs [of y] that by simp
  have emb: "obj_embedded h' y = obj_embedded h y" "obj_cnt h' y = obj_cnt h y" if "y \<in> O' - {ob}" for y
    using header [OF that, of 16] header [OF that, of 8] by (simp_all add: obj_embedded_def obj_cnt_def obj_ref_info_def)
  have sl: "slots h' y = slots h y" if "y \<in> O' - {ob}" for y using emb(1) [OF that] by (simp add: slots_def)
  have cells: "ref_cells h' R (O' - {ob}) = R \<union> (\<Union>y \<in> O' - {ob}. slots h y)" using sl by (auto simp: ref_cells_def)
  have same: "h_cell h' x = h_cell h x" if x: "x \<in> ref_cells h' R (O' - {ob})" for x
  proof -
    from x consider "x \<in> R" | y where "y \<in> O' - {ob}" "x \<in> slots h y" unfolding cells by blast
    then show ?thesis
    proof cases
      case 1
      then show ?thesis using kept_place [OF K ob at(3)] by blast
    next
      case 2
      from slot_inside [OF at(2) 2(2)] 2(1) obtain d where "x = y + of_nat d" "d + 8 \<le> bsize h (cxl_ptr_page y)" by blast
      then show ?thesis using keepsD(4) [OF K yl [OF 2(1)], of d] by simp
    qed
  qed
  have step: "x \<in> ref_cells h R O' \<and> h_cell h' x = h_cell h x" if "x \<in> ref_cells h' R (O' - {ob})" for x
    using that same [OF that] unfolding cells by (auto simp: ref_cells_def)
  have hold: "holders h' R (O' - {ob}) y = holders h R O' y" if y: "y \<in> O' - {ob}" for y
  proof
    show "holders h' R (O' - {ob}) y \<subseteq> holders h R O' y" using step by (auto simp: holders_def)
    show "holders h R O' y \<subseteq> holders h' R (O' - {ob}) y"
    proof
      fix x assume x: "x \<in> holders h R O' y"
      then have "x \<notin> slots h ob" using s nz y by (auto simp: holders_def)
      then have "x \<in> ref_cells h' R (O' - {ob})" using x unfolding cells by (auto simp: holders_def ref_cells_def)
      then show "x \<in> holders h' R (O' - {ob}) y" using x same by (simp add: holders_def)
    qed
  qed
  have "graph h' V' R (O' - {ob})"
    unfolding graph_def
  proof (intro conjI ballI)
    show "O' - {ob} \<subseteq> live h' V'" using at(1) L by blast
    show "object_at h' y" if "y \<in> O' - {ob}" for y
      using at(2) [of y] that freeable_keeps [OF K yl [OF that]] keepsD(2) [OF K yl [OF that]] emb(1) [OF that] by (simp add: object_at_def)
    show "root_place h' V' (O' - {ob}) x" if "x \<in> R" for x
    proof -
      have "b \<in> live h' V' - (O' - {ob}) \<and> bsize h' (cxl_ptr_page b) = bsize h (cxl_ptr_page b)" if "b \<in> live h V - O'" for b
        using that ob keepsD(2) [OF K, of b] L by auto
      then show ?thesis using at(3) [OF that] unfolding root_place_def by metis
    qed
    show "h_cell h' x = 0 \<or> h_cell h' x \<in> O' - {ob}" if "x \<in> ref_cells h' R (O' - {ob})" for x
      using step [OF that] val [of x] none by (auto simp: holders_def)
    fix y assume y: "y \<in> O' - {ob}"
    show "obj_cnt h' y = card (holders h' R (O' - {ob}) y)" "holders h' R (O' - {ob}) y \<noteq> {}"
      using cnt [OF y] by (simp_all add: hold [OF y] emb(2) [OF y])
  qed
  with step show ?thesis by blast
qed

section \<open>Unlinking, by a client or by the monitor\<close>

text \<open>
  What both have in common: the count goes down by one and the cell is cleared; the last
  reference takes the object with it. \<open>ex\<close> says whether its block is free at once.
\<close>

locale unlinker =
  fixes ex :: bool and sh :: cxl_shm
    and unlink :: "u64 \<Rightarrow> u64 \<Rightarrow> shm_heap \<Rightarrow> fault + shm_heap" and release :: "u64 \<Rightarrow> shm_heap \<Rightarrow> fault + shm_heap"
  assumes unlink_writes: "\<exists>h1 e. unlink c ob h = (if get_ref_cnt_from_info (obj_ref_info h ob) - 1 > 0 then Inr h1 else release ob h1)
      \<and> log_only sh h h1 \<and> h_cell h1 = (h_cell h)(ob + 8 := pack_ref_info (ucast (shm_thread_id sh))
        (get_ref_cnt_from_info (obj_ref_info h ob) - 1) e, c := 0)"
    and release_frees: "client_inv sh h V P \<Longrightarrow> no_leak h \<Longrightarrow> ob \<in> live h V \<Longrightarrow> freeable h False (cxl_ptr_page ob)
      \<Longrightarrow> \<exists>h' V' P'. release ob h = Inr h' \<and> client_inv sh h' V' P' \<and> live h V - {ob} \<subseteq> live h' V' \<and> live h' V' \<subseteq> live h V
        \<and> (ex \<longrightarrow> ob \<notin> live h' V') \<and> (ob \<in> live h' V' \<longrightarrow> h_page h' (cxl_ptr_page ob) = h_page h (cxl_ptr_page ob)) \<and> keeps (live h V - {ob}) h h' \<and> others_ok sh h h'
        \<and> (\<forall>x. x \<noteq> ob \<and> x \<noteq> ob + 8 \<and> x \<noteq> ob + 16 \<longrightarrow> h_cell h' x = h_cell h x)"
begin

lemma one_of_several:
  assumes S: "store_inv sh R S" and c: "c \<in> st_cells R S" "h_cell (st_heap S) c = ob" "ob \<noteq> 0"
    and many: "1 < card (st_holders R S ob)"
  shows "\<exists>h'. unlink c ob (st_heap S) = Inr h' \<and> store_inv sh R (S\<lparr>st_heap := h'\<rparr>)
    \<and> dropped ex sh R {c} S (S\<lparr>st_heap := h'\<rparr>)"
proof -
  let ?h = "st_heap S" and ?n = "get_ref_cnt_from_info (obj_ref_info (st_heap S) ob) - 1"
  have g: "graph ?h (st_lists S) R (st_objs S)" and inv: "client_inv sh ?h (st_lists S) (st_pool S)"
    using S by (simp_all add: store_inv_def)
  note H = holder_of [OF g c(1), unfolded c(2), OF c(3)]
  obtain h1 e where h1: "unlink c ob ?h = (if ?n > 0 then Inr h1 else release ob h1)" "log_only sh ?h h1"
    and w: "h_cell h1 = (h_cell ?h)(ob + 8 := pack_ref_info (ucast (shm_thread_id sh)) ?n e, c := 0)"
    using unlink_writes [of c ob ?h] by blast
  have n: "unat ?n < 2 ^ 16" using H(3) graphD(5) [OF g H(1)] unat_cnt [of "obj_ref_info ?h ob"] by (simp add: obj_cnt_def)
  have "store_inv sh R (S\<lparr>st_heap := h1\<rparr>)"
  proof (rule ref_write_graph [OF S c(1) H(1) h1(2) w])
    fix y assume y: "y \<in> st_objs S"
    have ny: "y \<noteq> ob \<Longrightarrow> c \<notin> st_holders R S y" using c(2) by (auto simp: holders_def)
    have y0: "y \<noteq> 0" by (rule object_nonzero [OF g y])
    show "(if y = ob then unat (get_ref_cnt_from_info (pack_ref_info (ucast (shm_thread_id sh)) ?n e)) else obj_cnt ?h y)
        = card {x \<in> st_cells R S. (if x = c then 0 else h_cell ?h x) = y}"
      unfolding holders_write [OF g y c(1)]
      using y0 ny H(2,3) pack_fields(2) [OF tid_fits [OF inv] n] graphD(5) [OF g y] by (auto simp: card_Diff_singleton)
    show "{x \<in> st_cells R S. (if x = c then 0 else h_cell ?h x) = y} \<noteq> {}"
    proof (cases "y = ob")
      case True
      have "st_holders R S ob \<noteq> {c}" using many by auto
      then show ?thesis unfolding holders_write [OF g y c(1)] using graphD(6) [OF g y] True by blast
    qed (use graphD(6) [OF g y] ny in \<open>unfold holders_write [OF g y c(1)], auto\<close>)
  qed simp
  moreover have "dropped ex sh R {c} S (S\<lparr>st_heap := h1\<rparr>)"
    unfolding dropped_def using ref_write [OF S c(1) H(1) h1(2) w] c(1) outside_header(2) [OF _ H(1) graphD(2) [OF g H(1)]]
    by (simp add: same_shapeD) (simp add: w)
  moreover have "unlink c ob ?h = Inr h1" using h1(1) H(4) many by simp
  ultimately show ?thesis by blast
qed

lemma last_one:
  assumes S: "store_inv sh R S" and c: "c \<in> st_cells R S" "h_cell (st_heap S) c = ob" "ob \<noteq> 0"
    and last: "st_holders R S ob = {c}" and empty: "\<And>x. x \<in> slots (st_heap S) ob \<Longrightarrow> h_cell (st_heap S) x = 0"
  shows "\<exists>S'. unlink c ob (st_heap S) = Inr (st_heap S') \<and> store_inv sh R S'
    \<and> dropped ex sh R {c} S S' \<and> st_objs S' = st_objs S - {ob}"
proof -
  let ?h = "st_heap S" and ?O = "st_objs S"
  have g: "graph ?h (st_lists S) R ?O" and nl: "no_leak ?h"
    using S by (simp_all add: store_inv_def)
  note H = holder_of [OF g c(1), unfolded c(2), OF c(3)]
  let ?n = "get_ref_cnt_from_info (obj_ref_info ?h ob) - 1"
  obtain h1 e where h1: "unlink c ob ?h = (if ?n > 0 then Inr h1 else release ob h1)" "log_only sh ?h h1"
    and w: "h_cell h1 = (h_cell ?h)(ob + 8 := pack_ref_info (ucast (shm_thread_id sh)) ?n e, c := 0)"
    using unlink_writes [of c ob ?h] by blast
  note W = ref_write [OF S c(1) H(1) h1(2) w]
  have live1: "ob \<in> live h1 (st_lists S)" using graphD(1) [OF g H(1)] W(2) by simp
  have at: "object_at h1 y" if "y \<in> ?O" for y
    using graphD(2) [OF g that] W(8) [OF that] by (simp add: object_at_def freeable_def same_shapeD [OF W(5)])
  have slots1: "slots h1 y = slots ?h y" if "y \<in> ?O" for y using W(8) [OF that] by (simp add: slots_def)
  have cells1: "ref_cells h1 R ?O = st_cells R S" using slots1 by (simp add: ref_cells_def)
  have hold1: "holders h1 R ?O y = st_holders R S y - {c}" if "y \<in> ?O" for y
    using object_nonzero [OF g that] c(1) unfolding holders_def cells1 by (auto simp: W(6))
  obtain h' V' P' where F: "release ob h1 = Inr h'" "client_inv sh h' V' P'"
    "live h1 (st_lists S) - {ob} \<subseteq> live h' V'" "keeps (live h1 (st_lists S) - {ob}) h1 h'" "others_ok sh h1 h'"
    "live h' V' \<subseteq> live h1 (st_lists S)" "ex \<longrightarrow> ob \<notin> live h' V'"
    "ob \<in> live h' V' \<longrightarrow> h_page h' (cxl_ptr_page ob) = h_page h1 (cxl_ptr_page ob)"
    "\<And>x. x \<noteq> ob \<and> x \<noteq> ob + 8 \<and> x \<noteq> ob + 16 \<Longrightarrow> h_cell h' x = h_cell h1 x"
    using release_frees [OF W(1,3) live1] at [OF H(1)] by (auto simp: object_at_def)
  have place1: "root_place h1 (st_lists S) ?O x \<longleftrightarrow> root_place ?h (st_lists S) ?O x" for x
    by (simp add: root_place_def W(2) same_shapeD [OF W(5)])
  have G: "graph h' V' R (?O - {ob})
    \<and> (\<forall>x \<in> ref_cells h' R (?O - {ob}). x \<in> ref_cells h1 R ?O \<and> h_cell h' x = h_cell h1 x)"
  proof (rule drop_object_graph [of ?O h1 "st_lists S" R ob h' V'])
    show "?O \<subseteq> live h1 (st_lists S)" using graphD(1) [OF g] W(2) by blast
    show "\<And>y. y \<in> ?O \<Longrightarrow> object_at h1 y" by (rule at)
    show "\<And>x. x \<in> R \<Longrightarrow> root_place h1 (st_lists S) ?O x" using graphD(3) [OF g] place1 by blast
    show "\<And>x. x \<in> ref_cells h1 R ?O \<Longrightarrow> h_cell h1 x = 0 \<or> h_cell h1 x \<in> ?O"
      using graphD(4) [OF g] unfolding cells1 by (auto simp: W(6))
    show "holders h1 R ?O ob = {}" using hold1 [OF H(1)] last by simp
    show "obj_cnt h1 y = card (holders h1 R ?O y) \<and> holders h1 R ?O y \<noteq> {}" if "y \<in> ?O - {ob}" for y
    proof -
      have "c \<notin> st_holders R S y" using that c(2) by (auto simp: holders_def)
      then show ?thesis using that hold1 [of y] graphD(5,6) [OF g, of y] W(7) [of y] by simp
    qed
    show "h_cell h1 x = 0" if "x \<in> slots h1 ob" for x
    proof -
      have "x \<in> slots ?h ob" using that slots1 [OF H(1)] by simp
      then have "x \<in> st_cells R S" "h_cell ?h x = 0" using H(1) empty by (auto simp: ref_cells_def)
      then show ?thesis using W(6) [of x] by simp
    qed
    show "\<And>y. y \<in> ?O \<Longrightarrow> y \<noteq> 0" by (rule object_nonzero [OF g])
  qed (fact H(1) F(3,4))+
  let ?S = "\<lparr>st_heap = h', st_lists = V', st_pool = P', st_objs = ?O - {ob}\<rparr>"
  have "store_inv sh R ?S" using F(2) G no_leak_others [OF W(3) F(5)] by (simp add: store_inv_def)
  moreover have "unlink c ob ?h = Inr h'" using h1(1) H(4) last F(1) by simp
  moreover have "dropped ex sh R {c} S ?S"
    unfolding dropped_def store.simps
  proof (intro conjI allI ballI impI)
    show "h_cell h' x = 0" if "x \<in> {c}" "x \<in> ref_cells h' R (?O - {ob})" for x
      using G W(6) [of x] that c(1) by auto
    show "h_cell h' x = h_cell ?h x" if "root_place ?h (st_lists S) ?O x \<and> x \<notin> {c}" for x
      using kept_place [OF F(4) H(1)] that place1 W(9) [of x] by simp
    show "others_ok sh ?h h'" by (rule others_ok_trans [OF W(4) F(5)])
    show "h_cell h' x = h_cell ?h x" if "outside ?h (st_objs S) x \<and> x \<notin> {c}" for x
      using F(9) [of x] outside_header [OF conjunct1 [OF that] H(1) graphD(2) [OF g H(1)]] that by (simp add: w)
    fix y assume y: "y \<in> ?O - {ob}"
    then have yl: "y \<in> live h1 (st_lists S) - {ob}" using graphD(1) [OF g, of y] W(2) by simp
    have cell: "h_cell h' (y + of_nat d) = h_cell h1 (y + of_nat d)" if "d < bsize ?h (cxl_ptr_page y)" for d
      using keepsD(4) [OF F(4) yl] that by (simp add: same_shapeD [OF W(5)])
    have "24 \<le> bsize ?h (cxl_ptr_page y)" using graphD(2) [OF g, of y] y by (simp add: object_at_def freeable_def)
    then show "obj_embedded h' y = obj_embedded ?h y" using cell [of 16] W(8) [of y] y by (simp add: obj_embedded_def)
    show "h_cell h' (y + of_nat d) = h_cell ?h (y + of_nat d)"
      if "24 \<le> d \<and> d < bsize ?h (cxl_ptr_page y) \<and> y + of_nat d \<notin> {c}" for d
      using cell [of d] W(10) [of y d] that y by simp
  next
    fix b assume "b \<in> live h' V'"
    then have "b \<in> live h1 (st_lists S) - {ob} \<or> h_page h' (cxl_ptr_page b) = h_page h1 (cxl_ptr_page b)" using F(6,8) by blast
    then have "bsize h' (cxl_ptr_page b) = bsize h1 (cxl_ptr_page b)"
      "pg_is_msg_queue_page (h_page h' (cxl_ptr_page b)) = pg_is_msg_queue_page (h_page h1 (cxl_ptr_page b))"
      using keepsD(2,3) [OF F(4), of b] by (auto simp: bsize_def)
    then show "bsize h' (cxl_ptr_page b) = bsize ?h (cxl_ptr_page b)"
      "pg_is_msg_queue_page (h_page h' (cxl_ptr_page b)) = pg_is_msg_queue_page (h_page ?h (cxl_ptr_page b))"
      by (simp_all add: same_shapeD [OF W(5)])
  next
    show "?O - {ob} \<subseteq> ?O" by blast
    show "st_live S - (?O - (?O - {ob})) \<subseteq> live h' V'" "live h' V' \<subseteq> st_live S" using F(3,6) W(2) H(1) by blast+
    show "live h' V' \<inter> (?O - (?O - {ob})) = {}" if ex using F(7) that by blast
  qed
  ultimately show ?thesis by (intro exI [of _ ?S]) simp
qed

end

interpretation cl: unlinker True sh "unlink_reference sh" "cxl_free sh False" for sh
proof
  show "\<exists>h1 e. unlink_reference sh c ob h = (if get_ref_cnt_from_info (obj_ref_info h ob) - 1 > 0 then Inr h1 else cxl_free sh False ob h1)
      \<and> log_only sh h h1 \<and> h_cell h1 = (h_cell h)(ob + 8 := pack_ref_info (ucast (shm_thread_id sh))
        (get_ref_cnt_from_info (obj_ref_info h ob) - 1) e, c := 0)" for c ob h
    by (rule unlink_heap)
  fix h V P ob
  assume p: "client_inv sh h V P" "no_leak h" "ob \<in> live h V" "freeable h False (cxl_ptr_page ob)"
  have nl: "cxl_ptr_page ob \<in> pool_pages P \<or> sf_state (sas_info (h_sas h (sas_of_segment (cxl_ptr_segment ob)))) \<noteq> segment_state_code POTENTIAL_LEAKING"
    using p(2) unfolding no_leak_def by blast
  obtain h' V' P' where F: "cxl_free sh False ob h = Inr h'" "client_inv sh h' V' P'" "live h' V' = live h V - {ob}"
    "keeps (live h V - {ob}) h h'" "others_ok sh h h'" using free_step [OF p(1,3,4) nl] by blast
  show "\<exists>h' V' P'. cxl_free sh False ob h = Inr h' \<and> client_inv sh h' V' P' \<and> live h V - {ob} \<subseteq> live h' V' \<and> live h' V' \<subseteq> live h V
        \<and> (True \<longrightarrow> ob \<notin> live h' V') \<and> (ob \<in> live h' V' \<longrightarrow> h_page h' (cxl_ptr_page ob) = h_page h (cxl_ptr_page ob)) \<and> keeps (live h V - {ob}) h h' \<and> others_ok sh h h'
        \<and> (\<forall>x. x \<noteq> ob \<and> x \<noteq> ob + 8 \<and> x \<noteq> ob + 16 \<longrightarrow> h_cell h' x = h_cell h x)"
    using F free_object_frame(2) [OF F(1)] by (intro exI [of _ h'] exI [of _ V'] exI [of _ P']) auto
qed

lemmas unlink_kept = cl.one_of_several
lemmas unlink_last = cl.last_one

end
