(* ===== verification/Crash_Cases.thy ===== *)
theory Crash_Cases
  imports Count_Refinement Hash_Index Object_Graph
begin

text \<open>
  Interrupted operations outside the discipline of \<open>Era_Protocol\<close>, what recycled memory
  looks like to the collections, the monitor's way of dropping a reference against the
  client's, and what a count that overflows does.
\<close>

section \<open>Interrupted puts\<close>

lemma put_node_word:
  "obj_ref_info (put_node sh block page key val h) block =
     pack_ref_info (ucast (shm_thread_id sh)) 0 (h_era h (own_era sh))"
  "h_era (put_node sh block page key val h) = h_era h" "h_tls (put_node sh block page key val h) = h_tls h"
  by (simp_all add: put_node_def Let_def obj_ref_info_def take_block_def node_data_def layout)

text \<open>
  C38. A put that is interrupted after its link has been logged and before the swap is
  completed by the monitor all the same: the node's word already names the client and its
  current era, because \<open>put\<close> does not advance the era after packing it. The bucket then
  refers to a node whose count is 0.
\<close>

theorem interrupted_put_is_completed:
  fixes key val entry block page :: u64
  assumes c: "c \<in> clients" and redo: "redo_ok (tls_redo (h_tls h (tls_at (c - 1)))) (own h c) Idle"
    and e: "own h c \<noteq> 0"
  defines "h1 \<equiv> snd (snd (link_prepare (client c) entry block (put_node (client c) block page key val h)))"
  shows "info_cnt (obj_ref_info h1 block) = 0
    \<and> redo_ref_cnt (tls_at (c - 1)) h1 = set_cell entry block h1"
proof -
  let ?h0 = "put_node (client c) block page key val h"
  obtain old new h' where p: "prepare Link_op (client c) entry block ?h0 = (old, new, h')" by (metis prod_cases3)
  have h1: "h1 = h'" using p by (simp add: h1_def prepare_def)
  define w where "w = obj_ref_info ?h0 block"
  have own: "own ?h0 c = own h c" by (simp add: seen_def put_node_word)
  have w: "w = pack_ref_info (ucast (shm_thread_id (client c))) 0 (own h c)"
    using c by (simp add: w_def put_node_word seen_def)
  have W: "info_cid w = c" "info_cnt w = 0" "info_era w = own h c"
    using info_pack [OF c, of 0 "own h c"] by (simp_all add: w)
  have cid: "info_cid w \<in> clients" "info_cid w = c \<longrightarrow> info_era w \<le> own ?h0 c" using c W own by auto
  note P = prepare_spec [OF c w_def cid p, unfolded own]
  have word: "obj_ref_info h1 block = w" using P(3) by (simp add: h1 obj_ref_info_def w_def)
  have "own h1 c = own h c" using P(4) [OF c, of c] own W by (simp add: h1)
  then have ev: "evidence h1 c block" using W by (simp add: evidence_def word)
  have "redo_ok (tls_redo (h_tls h1 (tls_at (c - 1)))) (own h c) (Logged Link_op entry block 0 0)"
    using redo_ok_write [OF redo] P(5) [of "tls_at (c - 1)"] by (simp add: h1 log_of_def put_node_word)
  note L = latest_redo_ok [OF this _ e, of Link_op entry block, simplified log_of_def phase.case, OF refl]
  have "need_redo h1 (of_nat c) (latest_redo (tls_redo (h_tls h1 (tls_at (c - 1)))))"
    unfolding need_redo_def Let_def L(3,5) word
    using lcid_eq_iff [OF c, of w] W by (simp add: info_era_def)
  then have "redo_ref_cnt (tls_at (c - 1)) h1 = set_cell entry block h1"
    unfolding redo_ref_cnt_def Let_def tls_id_client [OF c] L(2,4,5) by (simp add: op_code_def)
  then show ?thesis using W(2) word by simp
qed

theorem interrupted_put_is_completed_witness:
  "redo_ref_cnt (tls_at (1 - 1)) (snd (snd (link_prepare (client 1) 512 4096 (put_node (client 1) 4096 0 7 9 demo_heap))))
    = set_cell 512 4096 (snd (snd (link_prepare (client 1) 512 4096 (put_node (client 1) 4096 0 7 9 demo_heap))))"
  using interrupted_put_is_completed [of 1 demo_heap 512 4096 0 7 9] client1 demo_seen [OF client1(1), of 1]
  by (simp add: redo_ok_def log_of_def) (simp add: demo_heap_def zero_defs)


section \<open>Stale root references\<close>

lemma init_blocks_special_frame:
  assumes "init_blocks fuel True bs block last_block h = Inr h'" and "\<And>m. a \<noteq> block + of_nat m * bs"
  shows "h_cell h' a = h_cell h a"
  using assms
proof (induction fuel arbitrary: block h)
  case 0
  then show ?case by (subst (asm) init_blocks.simps) (auto split: if_splits)
next
  case (Suc fuel)
  show ?case
  proof (cases "block < last_block")
    case True
    let ?h1 = "set_cell block (block + bs) (memset_cells 1 block h)"
    have r: "init_blocks fuel True bs (block + bs) last_block ?h1 = Inr h'"
      using Suc.prems(1) True by (subst (asm) init_blocks.simps) (simp add: Let_def)
    have "a \<noteq> block + bs + of_nat m * bs" for m
      using Suc.prems(2) [of "Suc m"] by (simp add: algebra_simps)
    then have "h_cell h' a = h_cell ?h1 a" by (rule Suc.IH [OF r])
    also have "\<dots> = h_cell h a" using Suc.prems(2) [of 0] by simp
    finally show ?thesis .
  next
    case False
    then show ?thesis using Suc.prems(1) by (subst (asm) init_blocks.simps) auto
  qed
qed

lemma page_init_special_frame:
  assumes i: "cxl_page_init True (Some page) bs h = Inr h'"
    and a: "\<And>m. a \<noteq> cxl_page_start (cxl_ptr_segment page) page + of_nat m * bs"
  shows "h_cell h' a = h_cell h a"
proof -
  let ?area = "cxl_page_start (cxl_ptr_segment page) page"
  let ?n = "PAGE_SIZE div bs"
  define h0 where "h0 = upd_page page (\<lambda>p. p\<lparr>pg_local_free := 0, pg_block_size := ucast bs, pg_used := 0,
    pg_next := 0, pg_prev := 0, pg_is_msg_queue_page := False\<rparr>) h"
  obtain h1 where h1: "init_blocks (unat ?n) True bs (cxl_page_block_at ?area bs 0) (cxl_page_block_at ?area bs (?n - 1)) h0 = Inr h1"
    "h' = upd_page page (\<lambda>p. p\<lparr>pg_free := cxl_page_block_at ?area bs 0\<rparr>)
      (set_cell (cxl_page_block_at ?area bs (?n - 1)) (pg_free (h_page h1 page)) h1)"
    using i by (auto simp: cxl_page_init_def Let_def bnd_Inr_iff h0_def split: if_splits)
  have "a \<noteq> cxl_page_block_at ?area bs (?n - 1)"
    using a [of "unat (?n - 1)"] by (simp add: cxl_page_block_at_def)
  moreover have "h_cell h1 a = h_cell h0 a"
    using a by (intro init_blocks_special_frame [OF h1(1)]) (simp add: cxl_page_block_at_def)
  ultimately show ?thesis by (simp add: h1(2) h0_def)
qed

text \<open>
  C40. Initialising a page of root references clears only the first 8 bytes of each block
  (\<open>sizeof(block_size)\<close> where the block's size is meant): every block on its free list keeps
  the \<open>in_use\<close> flag that the page's previous contents left in byte 8, and the collections
  take a free block with a stale flag for a live root reference.
\<close>

theorem page_init_keeps_stale_in_use:
  assumes "j < PAGES_PER_SEGMENT" and "s < MAX_SEGMENT_NUM"
    and "cxl_page_init True (Some (meta_at (seg_at s) j)) 16 h = Inr h'"
  shows "rr_in_use h' (page_area (seg_at s) j + of_nat (k * 16)) = rr_in_use h (page_area (seg_at s) j + of_nat (k * 16))"
proof -
  have st: "cxl_page_start (cxl_ptr_segment (meta_at (seg_at s) j)) (meta_at (seg_at s) j) = page_area (seg_at s) j"
    using assms(1,2) by (simp add: cxl_ptr_segment_meta cxl_page_start_meta)
  have "page_area (seg_at s) j + of_nat (k * 16) + 8 \<noteq> page_area (seg_at s) j + of_nat m * 16" for m
  proof
    assume "page_area (seg_at s) j + of_nat (k * 16) + 8 = page_area (seg_at s) j + of_nat m * 16"
    then have "(8 :: u64) = of_nat m * 16 - of_nat (k * 16)" by (simp add: algebra_simps)
    also have "\<dots> = push_bit 4 (of_nat m - of_nat k)" by (simp add: push_bit_eq_mult algebra_simps)
    finally have "bit (8 :: u64) 3 = bit (push_bit 4 (of_nat m - of_nat k) :: u64) 3" by simp
    then show False by (simp add: bit_simps)
  qed
  then have "h_cell h' (page_area (seg_at s) j + of_nat (k * 16) + 8) = h_cell h (page_area (seg_at s) j + of_nat (k * 16) + 8)"
    by (intro page_init_special_frame [OF assms(3)]) (simp add: st)
  then show ?thesis by (simp add: rr_in_use_def)
qed

text \<open>A page whose memory still holds a byte 1 where the flag of its second block will be.\<close>

definition demo_stale :: shm_heap where
  "demo_stale = set_cell (page_area (seg_at 0) 1 + 24) 1 zero_heap"

theorem page_init_keeps_stale_in_use_witness:
  "\<exists>h'. cxl_page_init True (Some (meta_at (seg_at 0) 1)) 16 demo_stale = Inr h'
    \<and> rr_in_use h' (page_area (seg_at 0) 1 + of_nat (1 * 16)) = 1"
proof -
  have 0: "1 < PAGES_PER_SEGMENT" "0 < MAX_SEGMENT_NUM" by (simp_all add: layout)
  obtain h' where h': "cxl_page_init True (Some (meta_at (seg_at 0) 1)) (of_nat 16) demo_stale = Inr h'"
    using page_init_threads_blocks [OF 0(2,1), of True 16 demo_stale] by (auto simp: demo_stale_def zero_defs)
  have "rr_in_use demo_stale (page_area (seg_at 0) 1 + of_nat (1 * 16)) = 1"
    by (simp add: demo_stale_def rr_in_use_def get_field_def add.assoc)
  then show ?thesis
    using page_init_keeps_stale_in_use [OF 0, of demo_stale h' 1] h' by simp
qed

section \<open>Dropping a reference for another\<close>

lemma acting_client: "c \<in> clients \<Longrightarrow> acting_for (tls_at (c - 1)) = client c"
  unfolding acting_for_def client_def by (simp only: tls_id_client)

lemma write_redo_set [simp]:
  "write_redo sh r (set_cell a v h) = set_cell a v (write_redo sh r h)" "write_redo sh r (bump_era sh h) = bump_era sh (write_redo sh r h)"
  by (simp_all add: write_redo_def upd_tls_def set_cell_def bump_era_def set_era_def)

text \<open>
  C35. While other references to the object are left, the monitor drops a reference of a client
  that has crashed exactly as the client itself would have: the word with its new count, owner
  and era, the cell, and the era matrix come out the same; only the client's log does not.
\<close>

theorem monitor_unlinks_like_the_client:
  assumes "c \<in> clients" and "w = obj_ref_info h refed" and "1 < info_cnt w"
    and "info_cid w \<in> clients" and "info_cid w = c \<longrightarrow> info_era w \<le> own h c"
  shows "unlink_reference (client c) ref refed h
    = Inr (write_redo (client c) (Era_Protocol.entry_of Unlink_op ref refed w (own h c)) (recovery_unlink_reference ref refed (tls_at (c - 1)) h))"
proof -
  have e: "h_era (see_era (client c) w h) (own_era (client c)) = h_era h (own_era (client c))"
    using seen_see_era [OF assms(1,4), of c h c] clients_le [OF assms(1)] assms(1,5) by (auto simp: seen_def not_less [symmetric])
  have n: "get_ref_cnt_from_info w - 1 > 0"
  proof -
    have "get_ref_cnt_from_info w \<noteq> 0" using assms(3) by (auto simp: info_cnt_def)
    then show ?thesis using assms(3) unat_minus_one [of "get_ref_cnt_from_info w"] by (simp add: info_cnt_def word_less_nat_alt)
  qed
  show ?thesis
    unfolding recovery_unlink_reference_def Let_def acting_client [OF assms(1)]
    using n e assms(1)
    by (simp add: unlink_reference_def unlink_prepare_def unlink_finish_def Let_def
        Era_Protocol.entry_of_def op_code_def info_cnt_def seen_def flip: assms(2))
qed

theorem monitor_unlinks_like_the_client_witness:
  "\<exists>h r. info_cnt (obj_ref_info h 4096) = 2 \<and> unlink_reference (client 1) 512 4096 h
    = Inr (write_redo (client 1) r (recovery_unlink_reference 512 4096 (tls_at (1 - 1)) h))"
proof -
  let ?w = "pack_ref_info (ucast (shm_thread_id (client 2))) 2 1"
  let ?h = "set_cell 4104 ?w demo_object"
  have w: "obj_ref_info ?h 4096 = ?w" by (simp add: obj_ref_info_def)
  have n: "unat (2 :: u64) < 2 ^ 16" by simp
  note I = info_pack [OF client1(2) n, of 1]
  have "unlink_reference (client 1) 512 4096 ?h = Inr (write_redo (client 1)
      (Era_Protocol.entry_of Unlink_op 512 4096 ?w (own ?h 1)) (recovery_unlink_reference 512 4096 (tls_at (1 - 1)) ?h))"
    by (rule monitor_unlinks_like_the_client [OF client1(1) w [symmetric]]) (use I client1 in simp_all)
  then show ?thesis using I(2) w by (intro exI [of _ ?h] exI conjI) simp
qed

section \<open>A count without bound\<close>

lemma pack_overflow:
  assumes "unat l < 2 ^ 16 - 1"
  shows "pack_ref_info l 65536 e = pack_ref_info (l + 1) 0 e"
proof -
  have l: "unat (l + 1) = unat l + 1" using assms by (simp add: unat_word_ariths)
  have n: "unat (65536 :: u64) = 2 ^ 16" "unat (0 :: u64) = 0" by simp_all
  have "unat l * 2 ^ 48 + 2 ^ 16 * 2 ^ 32 + unat e = (unat l + 1) * 2 ^ 48 + 0 * 2 ^ 32 + unat e" by simp
  then show ?thesis unfolding word_unat_eq_iff unat_pack l n by (simp only:)
qed

text \<open>
  C36. Nothing bounds the number of references: linking an object that 65535 references lead to
  carries out of the count, which becomes 0, into the field of the client's id, so that the word
  names another client.
\<close>

theorem count_carries_into_client_id:
  assumes "get_ref_cnt_from_info (obj_ref_info h refed) = 65535" and "ref \<noteq> refed + 8"
    and "unat (shm_thread_id sh) < 2 ^ 16 - 1"
  shows "get_ref_cnt_from_info (obj_ref_info (link_reference sh ref refed h) refed) = 0
    \<and> get_lcid_from_info (obj_ref_info (link_reference sh ref refed h) refed) = ucast (shm_thread_id sh) + 1"
proof -
  let ?l = "ucast (shm_thread_id sh) :: u64"
  have l: "unat ?l = unat (shm_thread_id sh)" by (simp add: unsigned_ucast_eq take_bit_nat_eq_self_iff)
  then have l1: "unat (?l + 1) < 2 ^ 16" using assms(3) by (simp add: unat_word_ariths)
  have "obj_ref_info (link_reference sh ref refed h) refed = pack_ref_info ?l (65535 + 1) (h_era h (own_era sh))"
    using assms(1,2) by (simp add: link_heap obj_ref_info_def)
  also have "\<dots> = pack_ref_info (?l + 1) 0 (h_era h (own_era sh))" using pack_overflow [of ?l] assms(3) l by simp
  finally show ?thesis using pack_fields [OF l1, of 0] by simp
qed

theorem count_carries_into_client_id_witness:
  "\<exists>h. get_lcid_from_info (obj_ref_info (link_reference (client 3) 512 4096 h) 4096) = 4"
proof -
  let ?h = "set_cell 4104 (push_bit 32 65535) zero_heap"
  have "get_ref_cnt_from_info (obj_ref_info ?h 4096) = 65535"
    by (simp add: obj_ref_info_def get_ref_cnt_alt)
  from count_carries_into_client_id [OF this, of 512 "client 3"] show ?thesis
    by (intro exI [of _ ?h]) (simp add: client_def)
qed

end
