(* ===== verification/Protocol_Progress.thy ===== *)
theory Protocol_Progress
  imports Era_Protocol
begin

text \<open>
  The protocol of steps against the operations as one client runs them: alone, the three steps
  are \<open>link_reference\<close> or \<open>unlink_reference\<close>; and a client that is let alone, whatever the
  others did before, completes its change within a fixed number of steps.
\<close>

section \<open>The steps of one client\<close>

definition sequential :: "ref_op \<Rightarrow> cxl_shm \<Rightarrow> u64 \<Rightarrow> u64 \<Rightarrow> shm_heap \<Rightarrow> fault + shm_heap" where
  "sequential k sh ref o' h = (case k of Link_op \<Rightarrow> Inr (link_reference sh ref o' h) | Unlink_op \<Rightarrow> unlink_reference sh ref o' h)"

lemma prepare_parts:
  assumes "prepare k sh ref o' h = (old, new, h1)"
  shows "old = obj_ref_info h o'" "h_cell h1 = h_cell h"
    "sequential k sh ref o' h = finish k sh ref o' old (set_cell (o' + 8) new h1)"
    "cas_ref_info o' old new h1 = Some (set_cell (o' + 8) new h1)"
proof -
  show w: "old = obj_ref_info h o'" "h_cell h1 = h_cell h"
    using assms prepare_word [of sh ref o' h] by (cases k; simp add: prepare_def)+
  show "sequential k sh ref o' h = finish k sh ref o' old (set_cell (o' + 8) new h1)"
    using assms by (cases k) (simp_all add: sequential_def finish_def prepare_def link_reference_def unlink_reference_def)
  show "cas_ref_info o' old new h1 = Some (set_cell (o' + 8) new h1)"
    by (simp add: cas_ref_info_def obj_ref_info_def w)
qed

text \<open>Only a step of its own changes the phase of a client.\<close>

definition own_step :: "u64 set \<Rightarrow> u64 set \<Rightarrow> nat \<Rightarrow> proto \<Rightarrow> proto \<Rightarrow> bool" where
  "own_step Objs Refs i s s' \<longleftrightarrow> step Objs Refs s s' \<and> p_phase s' i \<noteq> p_phase s i"

lemma own_stepI: "step Objs Refs s (enter i ph h s) \<Longrightarrow> ph \<noteq> p_phase s i \<Longrightarrow> own_step Objs Refs i s (enter i ph h s)"
  by (simp add: own_step_def)

text \<open>A client that is about to begin, or to begin again, gets to its swap in two steps.\<close>

lemma two_steps:
  assumes I: "inv Objs Refs s" and i: "i \<in> clients" and ph: "p_phase s i = Idle \<or> p_phase s i = Retry k ref o'"
    and o: "o' \<in> Objs" "ref \<in> Refs" "countable_op k (obj_ref_info (p_heap s) o')"
  shows "\<exists>old h1. (own_step Objs Refs i ^^ 2) s (enter i (Swapped k ref o' old) h1 s) \<and> own h1 i = own (p_heap s) i
    \<and> finish k (client i) ref o' old h1 = sequential k (client i) ref o' (p_heap s)"
proof -
  let ?w = "obj_ref_info (p_heap s) o'"
  obtain old new h where p: "prepare k (client i) ref o' (p_heap s) = (old, new, h)" by (metis prod_cases3)
  note P = prepare_parts [OF p]
  let ?s1 = "enter i (Logged k ref o' old new) h s" and ?h = "set_cell (o' + 8) new h"
  have "objs_ok Objs s" using I by (simp add: inv_def)
  note W = objs_okD [OF this o(1) refl countable_nonzero [OF o(3)]]
  have le: "info_cid ?w = i \<longrightarrow> info_era ?w \<le> own (p_heap s) i" using W(2) by auto
  have "own h i = own (p_heap s) i"
    using prepare_spec(4) [OF i refl W(1) le p i, of i] le by (auto simp: not_less [symmetric])
  moreover have "seen ?h = seen h" by (rule seen_cong) simp
  moreover have 1: "own_step Objs Refs i s ?s1" by (rule own_stepI [OF prepare_step [OF i ph o p]]) (use ph in auto)
  have "own_step Objs Refs i ?s1 (enter i (Swapped k ref o' old) ?h ?s1)"
    by (rule own_stepI [OF swap_step [OF i, where new = new]]) (simp_all add: P(4))
  then have "(own_step Objs Refs i ^^ 2) s (enter i (Swapped k ref o' old) ?h s)" using 1 by (auto simp: numeral_2_eq_2)
  ultimately show ?thesis using P(3) by (intro exI [of _ old] exI [of _ ?h]) simp
qed

lemma three_steps:
  assumes I: "inv Objs Refs s" and i: "i \<in> clients" and ph: "p_phase s i = Idle \<or> p_phase s i = Retry k ref o'"
    and o: "o' \<in> Objs" "ref \<in> Refs" "countable_op k (obj_ref_info (p_heap s) o')" and e: "own (p_heap s) i \<noteq> - 1"
    and seq: "sequential k (client i) ref o' (p_heap s) = Inr h"
  shows "(own_step Objs Refs i ^^ 3) s (enter i Idle h s)"
proof -
  obtain old h1 where 2: "(own_step Objs Refs i ^^ 2) s (enter i (Swapped k ref o' old) h1 s)" "own h1 i = own (p_heap s) i"
    "finish k (client i) ref o' old h1 = sequential k (client i) ref o' (p_heap s)"
    using two_steps [OF I i ph o] by blast
  have "own_step Objs Refs i (enter i (Swapped k ref o' old) h1 s) (enter i Idle h (enter i (Swapped k ref o' old) h1 s))"
    by (rule own_stepI [OF finish_step [OF i]]) (use 2(2,3) e seq in simp_all)
  then show ?thesis using 2(1) by (auto simp: numeral_3_eq_3 numeral_2_eq_2)
qed

text \<open>Wherever it stands, it needs four at most.\<close>

lemma pending_completes:
  assumes I: "inv Objs Refs s" and i: "i \<in> clients" and l: "log_of (p_phase s i) = Some (Link_op, ref, o')"
    and c: "countable_op Link_op (obj_ref_info (p_heap s) o')" and e: "own (p_heap s) i \<noteq> - 1"
  shows "\<exists>n \<le> 4. \<exists>h. (own_step Objs Refs i ^^ n) s (enter i Idle h s) \<and> h_cell h ref = o'"
proof -
  have lf: "h_cell (link_finish sh ref o' h) ref = o'" for sh h by (simp add: link_finish_def)
  have ls: "h_cell (link_reference sh ref o' h) ref = o'" for sh h
    by (simp add: link_reference_def lf split: prod.splits)
  have ok: "phase_ok Objs Refs (p_heap s) i (p_phase s i)" using I i by (simp add: inv_def)
  show ?thesis
  proof (cases "p_phase s i")
    case Idle
    then show ?thesis using l by (simp add: log_of_def)
  next
    case (Retry k r x)
    then have ph: "p_phase s i = Retry Link_op ref o'" "o' \<in> Objs" "ref \<in> Refs" using l ok by (simp_all add: log_of_def phase_ok_def)
    have "(own_step Objs Refs i ^^ 3) s (enter i Idle (link_reference (client i) ref o' (p_heap s)) s)"
      by (rule three_steps [OF I i disjI2 [OF ph(1)] ph(2,3) c e]) (simp add: sequential_def)
    then show ?thesis using ls by (intro exI [of _ 3]) auto
  next
    case (Logged k r x old new)
    then have ph: "p_phase s i = Logged Link_op ref o' old new" "o' \<in> Objs" "ref \<in> Refs" using l ok by (simp_all add: log_of_def phase_ok_def)
    let ?s = "enter i (Retry Link_op ref o') (p_heap s) s"
    have st: "step Objs Refs s ?s" by (rule fail_step [OF i ph(1)])
    have 1: "own_step Objs Refs i s ?s" by (rule own_stepI [OF st]) (simp add: ph(1))
    have "inv Objs Refs ?s" by (rule inv_fail [OF I i ph(1)])
    then have "(own_step Objs Refs i ^^ 3) ?s (enter i Idle (link_reference (client i) ref o' (p_heap ?s)) ?s)"
      by (rule three_steps [where k = Link_op, OF _ i]) (use ph c e in \<open>simp_all add: sequential_def\<close>)
    then have "(own_step Objs Refs i ^^ 3) ?s (enter i Idle (link_reference (client i) ref o' (p_heap s)) s)" by simp
    with 1 have "(own_step Objs Refs i ^^ Suc 3) s (enter i Idle (link_reference (client i) ref o' (p_heap s)) s)"
      by (rule relpowp_Suc_I2)
    then show ?thesis using ls by (intro exI [of _ 4]) auto
  next
    case (Swapped k r x old)
    then have ph: "p_phase s i = Swapped Link_op ref o' old" using l by (simp add: log_of_def)
    have "own_step Objs Refs i s (enter i Idle (link_finish (client i) ref o' (p_heap s)) s)"
      by (rule own_stepI [OF finish_step [OF i ph e]]) (simp_all add: finish_def ph)
    then have "(own_step Objs Refs i ^^ 1) s (enter i Idle (link_finish (client i) ref o' (p_heap s)) s)" by (auto simp: One_nat_def)
    then show ?thesis using lf by (intro exI [of _ 1]) auto
  qed
qed

section \<open>Properties\<close>

text \<open>
  C15. No client waits for another. Wherever a client stands in a link, and whatever the others
  have done to the object since it read the count or are in the middle of, four steps of its own
  complete it: the reference is stored and the client is done. (The count and the era must not
  be at their maximum.)
\<close>

theorem link_completes_alone:
  assumes "(step Objs Refs)\<^sup>*\<^sup>* s0 s" and "separate Objs Refs" and "proto_init Objs s0"
    and "i \<in> clients" and "log_of (p_phase s i) = Some (Link_op, ref, o')"
    and "countable_op Link_op (obj_ref_info (p_heap s) o')" and "own (p_heap s) i \<noteq> - 1"
  shows "\<exists>n \<le> 4. \<exists>h. (own_step Objs Refs i ^^ n) s (enter i Idle h s) \<and> h_cell h ref = o'"
  by (rule pending_completes [OF inv_reachable [OF assms(1-3)] assms(4-7)])

lemma demo_reach: "(step {4096} {512})\<^sup>*\<^sup>* demo_proto (enter 1 Idle demo_object demo_proto)"
  by (rule r_into_rtranclp) (use demo_object_act in \<open>auto simp: step_def\<close>)

lemma demo_eras:
  "countable_op Link_op (obj_ref_info (p_heap (enter 1 Idle demo_object demo_proto)) 4096)"
  "own (p_heap (enter 1 Idle demo_object demo_proto)) 1 \<noteq> - 1"
  using demo_object_word(2,4) by (simp_all add: countable_op_def)

theorem link_completes_alone_witness:
  "\<exists>s n h. (step {4096} {512})\<^sup>*\<^sup>* demo_proto s \<and> p_phase s 1 \<noteq> Idle \<and> n \<le> 4
    \<and> (own_step {4096} {512} 1 ^^ n) s (enter 1 Idle h s) \<and> h_cell h 512 = 4096"
proof -
  let ?s1 = "enter 1 Idle demo_object demo_proto"
  obtain old new h where p: "prepare Link_op (client 1) 512 4096 demo_object = (old, new, h)" by (metis prod_cases3)
  let ?s2 = "enter 1 (Logged Link_op 512 4096 old new) h ?s1"
  have "step {4096} {512} ?s1 ?s2" by (rule prepare_step) (use client1 p demo_eras in simp_all)
  with demo_reach have r: "(step {4096} {512})\<^sup>*\<^sup>* demo_proto ?s2" by (rule rtranclp.rtrancl_into_rtrancl)
  have w: "obj_ref_info h 4096 = obj_ref_info demo_object 4096" using prepare_parts(2) [OF p] by (simp add: obj_ref_info_def)
  have "own h 1 = own demo_object 1"
    using prepare_spec(4) [OF client1(1) refl _ _ p client1(1), of 1] demo_object_word client1 by simp
  then have e: "own (p_heap ?s2) 1 \<noteq> - 1" using demo_object_word(4) by simp
  have c: "countable_op Link_op (obj_ref_info (p_heap ?s2) 4096)" using demo_eras(1) w by simp
  have l: "log_of (p_phase ?s2 1) = Some (Link_op, 512, 4096)" by (simp add: log_of_def)
  from link_completes_alone [OF r demo_init(2,1) client1(1) l c e] obtain n h' where
    "n \<le> 4" "(own_step {4096} {512} 1 ^^ n) ?s2 (enter 1 Idle h' ?s2)" "h_cell h' 512 = 4096" by blast
  moreover have "p_phase ?s2 1 \<noteq> Idle" by simp
  ultimately show ?thesis using r by blast
qed

end
