(* ===== verification/Foreign_Frees.thy ===== *)
theory Foreign_Frees
  imports Block_Lists
begin

text \<open>
  Frees by other clients, interleaved. A block of a segment that another client owns is pushed
  on the segment's list by a compare-and-swap of the word with the segment's state and the head
  of the list (\<open>cxl_free\<close>, \<open>src/alloc.cpp\<close>); the owner takes the whole list by another one and
  then walks it, putting each block on the local list of its page (\<open>cxl_thread_free_collect\<close>,
  \<open>src/page.cpp\<close>). Any number of clients push at once; the owner collects, moves local lists to the
  free lists of pages, hands blocks out from these and takes its own back; and the monitor changes
  the state of the segment in between. A page whose last block comes back would leave its bin;
  here every page stays in use.
\<close>

section \<open>The steps of a push and of a collection\<close>

text \<open>One turn of the loop up to the swap: the word is read, the block linked to the head it holds.\<close>

definition load_foreign :: "u64 \<Rightarrow> shm_heap \<Rightarrow> (state_free_info \<times> shm_heap) option" where
  "load_foreign b h =
     (let info = sas_info (h_sas h (sas_of_segment (cxl_ptr_segment b)))
      in if sf_state info = segment_state_code POTENTIAL_LEAKING then None
         else Some (info, set_cell b (sf_thread_free info) h))"

definition swap_foreign :: "u64 \<Rightarrow> state_free_info \<Rightarrow> shm_heap \<Rightarrow> shm_heap option" where
  "swap_foreign b info h =
     (let sas = sas_of_segment (cxl_ptr_segment b)
      in if sas_info (h_sas h sas) = info
         then Some (upd_sas sas (\<lambda>s. s\<lparr>sas_info := \<lparr>sf_state = sf_state info, sf_thread_free = b\<rparr>\<rparr>) h)
         else None)"

text \<open>The owner's swap leaves an empty list and gives it the head of the old one.\<close>

definition take_foreign :: "u64 \<Rightarrow> shm_heap \<Rightarrow> (u64 \<times> shm_heap) option" where
  "take_foreign sas h =
     (let info = sas_info (h_sas h sas)
      in if sf_thread_free info = 0 then None
         else Some (sf_thread_free info, upd_sas sas (\<lambda>s. s\<lparr>sas_info := \<lparr>sf_state = sf_state info, sf_thread_free = 0\<rparr>\<rparr>) h))"

text \<open>One turn of the walk.\<close>

definition collect_one :: "u64 \<Rightarrow> shm_heap \<Rightarrow> u64 \<times> shm_heap" where
  "collect_one tail h =
     (let nxt = blk_next h tail;
          p = cxl_ptr_page tail;
          h = set_cell tail (pg_local_free (h_page h p)) h;
          h = upd_page p (\<lambda>g. g\<lparr>pg_local_free := tail\<rparr>) h;
          h = upd_page p (\<lambda>g. g\<lparr>pg_used := pg_used g - 1\<rparr>) h
      in (nxt, h))"

text \<open>What \<open>cxl_page_free_collect\<close> does after the collection: the local list becomes the free list.\<close>

definition refill_page :: "u64 \<Rightarrow> shm_heap \<Rightarrow> shm_heap option" where
  "refill_page page h =
     (if pg_local_free (h_page h page) \<noteq> 0 \<and> pg_free (h_page h page) = 0
      then let h = upd_page page (\<lambda>p. p\<lparr>pg_free := pg_local_free p\<rparr>) h
           in Some (upd_page page (\<lambda>p. p\<lparr>pg_local_free := 0\<rparr>) h)
      else None)"

text \<open>Undisturbed, these are the operations.\<close>

lemma push_undisturbed:
  "push_foreign b h = (case load_foreign b h of None \<Rightarrow> h
     | Some (info, h1) \<Rightarrow> (case swap_foreign b info h1 of None \<Rightarrow> h1 | Some h2 \<Rightarrow> h2))"
  by (simp add: push_foreign_def load_foreign_def swap_foreign_def Let_def)

lemma collect_undisturbed:
  "cxl_thread_free_collect fuel page h = (case take_foreign (sas_of_segment (cxl_ptr_segment page)) h of None \<Rightarrow> Inr h
     | Some (t, h1) \<Rightarrow> collect_blocks fuel t h1)"
  "collect_blocks (Suc n) t h = (if t = 0 then Inr h else case collect_one t h of (nxt, h1) \<Rightarrow> collect_blocks n nxt h1)"
  by (simp_all add: cxl_thread_free_collect_def take_foreign_def collect_one_def collect_blocks.simps [of "Suc n"] Let_def)

lemma refill_undisturbed:
  "cxl_page_free_collect fuel page h
     = bnd (cxl_thread_free_collect fuel page h) (\<lambda>h. Inr (case refill_page page h of None \<Rightarrow> h | Some h' \<Rightarrow> h'))"
  unfolding cxl_page_free_collect_def by (rule arg_cong [where f = "bnd _"]) (simp add: fun_eq_iff refill_page_def Let_def)

section \<open>All at once\<close>

datatype pusher = Resting | Holding u64 | Loaded u64 state_free_info

text \<open>
  Where a block is, as far as its users and the owner know; not part of the region: in nobody's
  hands here, in use, being freed by a client, pushed, taken by the owner, on the local list of its
  page, on the free list of its page, given up.
\<close>

datatype place = Elsewhere | In_use | Held nat | Listed | Walked | Local | Ready | Lost

record foreign =
  f_heap :: shm_heap
  f_pusher :: "nat \<Rightarrow> pusher"
  f_walk :: u64
  f_place :: "u64 \<Rightarrow> place"

datatype event_ff = Mark u64 | Move

text \<open>
  \<open>written\<close> is whatever its user writes to the first cell of a block in use. A swap may fail for
  any reason; then the loop starts over. The owner's steps: \<open>takes\<close> and \<open>collects\<close> are the
  collection, \<open>refills\<close> follows it, \<open>hands_out\<close> is an allocation from a page's free list and
  \<open>takes_back\<close> a free of its own, none of them in the middle of a walk.
\<close>

definition own_page :: "u64 \<Rightarrow> u64 \<Rightarrow> bool" where
  "own_page a p \<longleftrightarrow> sas_of_segment (cxl_ptr_segment p) = a"

inductive foreign_step :: "u64 \<Rightarrow> event_ff \<Rightarrow> foreign \<Rightarrow> foreign \<Rightarrow> bool" for a :: u64 where
  freed: "f_pusher s i = Resting \<Longrightarrow> f_place s b = In_use
    \<Longrightarrow> foreign_step a Move s (s\<lparr>f_pusher := (f_pusher s)(i := Holding b), f_place := (f_place s)(b := Held i)\<rparr>)"
| loads: "f_pusher s i = Holding b \<Longrightarrow> load_foreign b (f_heap s) = Some (info, h)
    \<Longrightarrow> foreign_step a Move s (s\<lparr>f_heap := h, f_pusher := (f_pusher s)(i := Loaded b info)\<rparr>)"
| gives_up: "f_pusher s i = Holding b \<Longrightarrow> load_foreign b (f_heap s) = None
    \<Longrightarrow> foreign_step a Move s (s\<lparr>f_pusher := (f_pusher s)(i := Resting), f_place := (f_place s)(b := Lost)\<rparr>)"
| swaps: "f_pusher s i = Loaded b info \<Longrightarrow> swap_foreign b info (f_heap s) = Some h
    \<Longrightarrow> foreign_step a Move s (s\<lparr>f_heap := h, f_pusher := (f_pusher s)(i := Resting), f_place := (f_place s)(b := Listed)\<rparr>)"
| retries: "f_pusher s i = Loaded b info
    \<Longrightarrow> foreign_step a Move s (s\<lparr>f_pusher := (f_pusher s)(i := Holding b)\<rparr>)"
| takes: "f_walk s = 0 \<Longrightarrow> take_foreign a (f_heap s) = Some (t, h)
    \<Longrightarrow> foreign_step a Move s (s\<lparr>f_heap := h, f_walk := t, f_place := (\<lambda>b. if f_place s b = Listed then Walked else f_place s b)\<rparr>)"
| collects: "f_walk s \<noteq> 0 \<Longrightarrow> collect_one (f_walk s) (f_heap s) = (t, h)
    \<Longrightarrow> foreign_step a Move s (s\<lparr>f_heap := h, f_walk := t, f_place := (f_place s)(f_walk s := Local)\<rparr>)"
| refills: "f_walk s = 0 \<Longrightarrow> own_page a p \<Longrightarrow> refill_page p (f_heap s) = Some h
    \<Longrightarrow> foreign_step a Move s (s\<lparr>f_heap := h,
          f_place := (\<lambda>b. if f_place s b = Local \<and> cxl_ptr_page b = p then Ready else f_place s b)\<rparr>)"
| hands_out: "f_walk s = 0 \<Longrightarrow> own_page a p \<Longrightarrow> pg_free (h_page (f_heap s) p) = b \<Longrightarrow> b \<noteq> 0
    \<Longrightarrow> foreign_step a Move s (s\<lparr>f_heap := take_block b p (f_heap s), f_place := (f_place s)(b := In_use)\<rparr>)"
| takes_back: "f_walk s = 0 \<Longrightarrow> f_place s b = In_use \<Longrightarrow> pg_used (h_page (f_heap s) (cxl_ptr_page b)) \<noteq> 1
    \<Longrightarrow> foreign_step a Move s (s\<lparr>f_heap := push_local b (cxl_ptr_page b) (f_heap s), f_place := (f_place s)(b := Local)\<rparr>)"
| written: "f_place s b = In_use \<Longrightarrow> foreign_step a Move s (s\<lparr>f_heap := set_cell b v (f_heap s)\<rparr>)"
| marked: "foreign_step a (Mark st) s (s\<lparr>f_heap := upd_sas a (\<lambda>s. s\<lparr>sas_info := \<lparr>sf_state = st, sf_thread_free = sf_thread_free (sas_info s)\<rparr>\<rparr>) (f_heap s)\<rparr>)"

abbreviation foreign_info :: "u64 \<Rightarrow> foreign \<Rightarrow> state_free_info" where
  "foreign_info a s \<equiv> sas_info (h_sas (f_heap s) a)"

definition holds :: "pusher \<Rightarrow> u64 \<Rightarrow> bool" where
  "holds ph b \<longleftrightarrow> ph = Holding b \<or> (\<exists>info. ph = Loaded b info)"

text \<open>
  The lists of a page: its free list and its local list consist of the blocks that are there, and
  its use count is the number of its other blocks.
\<close>

definition page_blocks :: "foreign \<Rightarrow> place \<Rightarrow> u64 \<Rightarrow> u64 set" where
  "page_blocks s pl p = {b. f_place s b = pl \<and> cxl_ptr_page b = p}"

definition out_blocks :: "foreign \<Rightarrow> u64 \<Rightarrow> u64 set" where
  "out_blocks s p = {b. cxl_ptr_page b = p \<and> f_place s b \<noteq> Elsewhere \<and> f_place s b \<noteq> Local \<and> f_place s b \<noteq> Ready}"

definition page_ok :: "foreign \<Rightarrow> u64 \<Rightarrow> bool" where
  "page_ok s p \<longleftrightarrow>
     (\<exists>fs. chain (h_cell (f_heap s)) (pg_free (h_page (f_heap s) p)) fs \<and> set fs = page_blocks s Ready p)
     \<and> (\<exists>ls. chain (h_cell (f_heap s)) (pg_local_free (h_page (f_heap s) p)) ls \<and> set ls = page_blocks s Local p)
     \<and> pg_used (h_page (f_heap s) p) = of_nat (card (out_blocks s p))"

text \<open>A region whose segment \<open>a\<close> has no foreign frees yet.\<close>

definition foreign_start :: "u64 \<Rightarrow> foreign \<Rightarrow> bool" where
  "foreign_start a s \<longleftrightarrow> sf_thread_free (foreign_info a s) = 0 \<and> sf_state (foreign_info a s) \<noteq> segment_state_code POTENTIAL_LEAKING
     \<and> f_walk s = 0 \<and> (\<forall>i. f_pusher s i = Resting) \<and> (\<forall>p. own_page a p \<longrightarrow> page_ok s p)
     \<and> (\<forall>b. f_place s b \<in> {Elsewhere, In_use, Local, Ready}
          \<and> (f_place s b \<noteq> Elsewhere \<longrightarrow> b \<noteq> 0 \<and> sas_of_segment (cxl_ptr_segment b) = a \<and> own_page a (cxl_ptr_page b)))"

text \<open>The foreign list, the walk and the clients' hands.\<close>

definition lists_ok :: "u64 \<Rightarrow> foreign \<Rightarrow> bool" where
  "lists_ok a s \<longleftrightarrow>
     (\<exists>xs. chain (h_cell (f_heap s)) (sf_thread_free (foreign_info a s)) xs \<and> set xs = {b. f_place s b = Listed})
     \<and> (\<exists>ys. chain (h_cell (f_heap s)) (f_walk s) ys \<and> set ys = {b. f_place s b = Walked})
     \<and> (\<forall>i b. holds (f_pusher s i) b \<longleftrightarrow> f_place s b = Held i)
     \<and> (\<forall>i b info. f_pusher s i = Loaded b info \<longrightarrow> h_cell (f_heap s) b = sf_thread_free info)
     \<and> (\<forall>b. f_place s b \<noteq> Elsewhere \<longrightarrow> b \<noteq> 0 \<and> sas_of_segment (cxl_ptr_segment b) = a \<and> own_page a (cxl_ptr_page b))"

definition foreign_ok :: "u64 \<Rightarrow> foreign \<Rightarrow> bool" where
  "foreign_ok a s \<longleftrightarrow> lists_ok a s \<and> (\<forall>p. own_page a p \<longrightarrow> page_ok s p)"

subsection \<open>The lists of a page\<close>

definition same_home :: "place \<Rightarrow> place \<Rightarrow> bool" where
  "same_home x y \<longleftrightarrow> (x = Elsewhere \<longleftrightarrow> y = Elsewhere) \<and> (x = Local \<longleftrightarrow> y = Local) \<and> (x = Ready \<longleftrightarrow> y = Ready)"

lemma page_okE:
  assumes "page_ok s p"
  obtains fs ls where "chain (h_cell (f_heap s)) (pg_free (h_page (f_heap s) p)) fs" "set fs = page_blocks s Ready p"
    "chain (h_cell (f_heap s)) (pg_local_free (h_page (f_heap s) p)) ls" "set ls = page_blocks s Local p"
    "pg_used (h_page (f_heap s) p) = of_nat (card (out_blocks s p))"
  using assms unfolding page_ok_def by blast

lemma page_okI:
  assumes "chain (h_cell (f_heap s)) (pg_free (h_page (f_heap s) p)) fs" "set fs = page_blocks s Ready p"
    "chain (h_cell (f_heap s)) (pg_local_free (h_page (f_heap s) p)) ls" "set ls = page_blocks s Local p"
    "pg_used (h_page (f_heap s) p) = of_nat (card (out_blocks s p))"
  shows "page_ok s p"
  using assms unfolding page_ok_def by blast

lemma page_ok_frame:
  assumes "page_ok s p" and pg: "h_page (f_heap s') p = h_page (f_heap s) p"
    and pl: "\<And>b. cxl_ptr_page b = p \<Longrightarrow> same_home (f_place s b) (f_place s' b)"
    and c: "\<And>b. cxl_ptr_page b = p \<Longrightarrow> f_place s b = Ready \<or> f_place s b = Local \<Longrightarrow> h_cell (f_heap s') b = h_cell (f_heap s) b"
  shows "page_ok s' p"
proof -
  obtain fs ls where P: "chain (h_cell (f_heap s)) (pg_free (h_page (f_heap s) p)) fs" "set fs = page_blocks s Ready p"
    "chain (h_cell (f_heap s)) (pg_local_free (h_page (f_heap s) p)) ls" "set ls = page_blocks s Local p"
    "pg_used (h_page (f_heap s) p) = of_nat (card (out_blocks s p))"
    using assms(1) by (rule page_okE)
  have "page_blocks s' Ready p = page_blocks s Ready p" "page_blocks s' Local p = page_blocks s Local p"
    "out_blocks s' p = out_blocks s p"
    using pl unfolding same_home_def page_blocks_def out_blocks_def by blast+
  moreover have "h_cell (f_heap s') b = h_cell (f_heap s) b" if "b \<in> set fs \<union> set ls" for b
    using that c P(2,4) by (auto simp: page_blocks_def)
  then have "chain (h_cell (f_heap s')) e fs \<longleftrightarrow> chain (h_cell (f_heap s)) e fs"
    "chain (h_cell (f_heap s')) e ls \<longleftrightarrow> chain (h_cell (f_heap s)) e ls" for e
    by (intro chain_cong; blast)+
  ultimately show ?thesis using P by (intro page_okI [of _ _ fs ls]) (simp_all add: pg)
qed

text \<open>A block comes home.\<close>

lemma page_ok_home:
  assumes "page_ok s p" and b: "b \<in> out_blocks s p" "b \<noteq> 0"
    and pl: "f_place s' = (f_place s)(b := Local)" and c: "h_cell (f_heap s') = (h_cell (f_heap s))(b := pg_local_free (h_page (f_heap s) p))"
    and pg: "pg_free (h_page (f_heap s') p) = pg_free (h_page (f_heap s) p)" "pg_local_free (h_page (f_heap s') p) = b"
      "pg_used (h_page (f_heap s') p) = pg_used (h_page (f_heap s) p) - 1"
  shows "page_ok s' p"
proof -
  obtain fs ls where P: "chain (h_cell (f_heap s)) (pg_free (h_page (f_heap s) p)) fs" "set fs = page_blocks s Ready p"
    "chain (h_cell (f_heap s)) (pg_local_free (h_page (f_heap s) p)) ls" "set ls = page_blocks s Local p"
    "pg_used (h_page (f_heap s) p) = of_nat (card (out_blocks s p))"
    using assms(1) by (rule page_okE)
  have n: "b \<notin> set fs" "b \<notin> set ls" using b(1) P(2,4) by (auto simp: out_blocks_def page_blocks_def)
  show ?thesis
  proof (rule page_okI [of _ _ fs "b # ls"])
    show "set fs = page_blocks s' Ready p" "set (b # ls) = page_blocks s' Local p"
      using b(1) P(2,4) by (auto simp: pl page_blocks_def out_blocks_def)
    show "chain (h_cell (f_heap s')) (pg_free (h_page (f_heap s') p)) fs" unfolding c pg(1) using P(1) n(1) by simp
    show "chain (h_cell (f_heap s')) (pg_local_free (h_page (f_heap s') p)) (b # ls)"
      unfolding c pg(2) by (rule chain_push [OF P(3) b(2) n(2)])
    have "out_blocks s' p = out_blocks s p - {b}" by (auto simp: pl out_blocks_def)
    then have "card (out_blocks s p) = Suc (card (out_blocks s' p))" using card.remove [of "out_blocks s p" b] b(1) by simp
    then show "pg_used (h_page (f_heap s') p) = of_nat (card (out_blocks s' p))" using P(5) pg(3) by simp
  qed
qed

lemma page_ok_hand_out:
  assumes "page_ok s p" and b: "pg_free (h_page (f_heap s) p) = b" "b \<noteq> 0"
    and s': "f_place s' = (f_place s)(b := In_use)" "f_heap s' = take_block b p (f_heap s)"
  shows "f_place s b = Ready" "cxl_ptr_page b = p" "page_ok s' p"
proof -
  obtain fs ls where P: "chain (h_cell (f_heap s)) (pg_free (h_page (f_heap s) p)) fs" "set fs = page_blocks s Ready p"
    "chain (h_cell (f_heap s)) (pg_local_free (h_page (f_heap s) p)) ls" "set ls = page_blocks s Local p"
    "pg_used (h_page (f_heap s) p) = of_nat (card (out_blocks s p))"
    using assms(1) by (rule page_okE)
  obtain zs where z: "fs = b # zs" "chain (h_cell (f_heap s)) (h_cell (f_heap s) b) zs" using P(1) b by (auto simp: chain_nonnull)
  then have "b \<in> page_blocks s Ready p" using P(2) by auto
  then show r: "f_place s b = Ready" and pb: "cxl_ptr_page b = p" by (simp_all add: page_blocks_def)
  have "set zs = page_blocks s' Ready p"
  proof -
    have "b \<notin> set zs" by (rule chain_tail_fresh [OF z(2)])
    moreover have "page_blocks s' Ready p = page_blocks s Ready p - {b}" by (auto simp: page_blocks_def s'(1))
    ultimately show ?thesis using P(2) z(1) by auto
  qed
  moreover have "set ls = page_blocks s' Local p" using P(4) r by (auto simp: page_blocks_def s'(1))
  moreover have "out_blocks s' p = insert b (out_blocks s p)" using r pb by (auto simp: out_blocks_def s'(1))
  then have "card (out_blocks s' p) = Suc (card (out_blocks s p))" using r by (simp add: out_blocks_def)
  ultimately show "page_ok s' p"
    using z(2) P(3,5) by (intro page_okI [of _ _ zs ls]) (simp_all add: s'(2) take_block_def Let_def blk_next_def add.commute)
qed

lemma page_ok_refill:
  assumes "page_ok s p" and r: "refill_page p (f_heap s) = Some (f_heap s')"
    and s': "f_place s' = (\<lambda>b. if f_place s b = Local \<and> cxl_ptr_page b = p then Ready else f_place s b)"
  shows "page_ok s' p"
proof -
  obtain fs ls where P: "chain (h_cell (f_heap s)) (pg_free (h_page (f_heap s) p)) fs" "set fs = page_blocks s Ready p"
    "chain (h_cell (f_heap s)) (pg_local_free (h_page (f_heap s) p)) ls" "set ls = page_blocks s Local p"
    "pg_used (h_page (f_heap s) p) = of_nat (card (out_blocks s p))"
    using assms(1) by (rule page_okE)
  have e: "pg_free (h_page (f_heap s) p) = 0"
    "upd_page p (\<lambda>g. g\<lparr>pg_free := pg_local_free g, pg_local_free := 0\<rparr>) (f_heap s) = f_heap s'"
    using r by (auto simp: refill_page_def Let_def split: if_splits)
  have h: "pg_free (h_page (f_heap s) p) = 0" "h_cell (f_heap s') = h_cell (f_heap s)"
    "pg_free (h_page (f_heap s') p) = pg_local_free (h_page (f_heap s) p)" "pg_local_free (h_page (f_heap s') p) = 0"
    "pg_used (h_page (f_heap s') p) = pg_used (h_page (f_heap s) p)"
    using e(1) by (simp_all flip: e(2))
  have "page_blocks s Ready p = {}" using P(1,2) h(1) by simp
  then have "page_blocks s' Ready p = page_blocks s Local p" "page_blocks s' Local p = {}" "out_blocks s' p = out_blocks s p"
    by (auto simp: page_blocks_def out_blocks_def s' split: if_splits)
  then show ?thesis using P by (intro page_okI [of _ _ ls "[]"]) (simp_all add: h)
qed

subsection \<open>One step\<close>

lemma foreign_start_ok: "foreign_start a s \<Longrightarrow> foreign_ok a s"
proof -
  assume s: "foreign_start a s"
  have p: "f_place s b = Elsewhere \<or> f_place s b = In_use \<or> f_place s b = Local \<or> f_place s b = Ready" for b
    using s by (auto simp: foreign_start_def)
  have "f_place s b \<noteq> Listed" "f_place s b \<noteq> Walked" "f_place s b \<noteq> Held i" for b i
    using p [of b] by auto
  then have "lists_ok a s"
    using s unfolding lists_ok_def foreign_start_def by (intro conjI exI [of _ "[]"]) (simp_all add: holds_def)
  then show ?thesis using s by (simp add: foreign_ok_def foreign_start_def)
qed

lemma lists_okE:
  assumes "lists_ok a s"
  obtains xs ys where "chain (h_cell (f_heap s)) (sf_thread_free (foreign_info a s)) xs" "set xs = {b. f_place s b = Listed}"
    "chain (h_cell (f_heap s)) (f_walk s) ys" "set ys = {b. f_place s b = Walked}"
    "\<And>i b. holds (f_pusher s i) b \<longleftrightarrow> f_place s b = Held i"
    "\<And>i b info. f_pusher s i = Loaded b info \<Longrightarrow> h_cell (f_heap s) b = sf_thread_free info"
    "\<And>b. f_place s b \<noteq> Elsewhere \<Longrightarrow> b \<noteq> 0 \<and> sas_of_segment (cxl_ptr_segment b) = a \<and> own_page a (cxl_ptr_page b)"
  using assms unfolding lists_ok_def by blast

lemma lists_okI:
  assumes "chain (h_cell (f_heap s)) (sf_thread_free (foreign_info a s)) xs" "set xs = {b. f_place s b = Listed}"
    "chain (h_cell (f_heap s)) (f_walk s) ys" "set ys = {b. f_place s b = Walked}"
    "\<And>i b. holds (f_pusher s i) b \<longleftrightarrow> f_place s b = Held i"
    "\<And>i b info. f_pusher s i = Loaded b info \<Longrightarrow> h_cell (f_heap s) b = sf_thread_free info"
    "\<And>b. f_place s b \<noteq> Elsewhere \<Longrightarrow> b \<noteq> 0 \<and> sas_of_segment (cxl_ptr_segment b) = a \<and> own_page a (cxl_ptr_page b)"
  shows "lists_ok a s"
  using assms unfolding lists_ok_def by blast

lemma holds_simps [simp]:
  "\<not> holds Resting b" "holds (Holding c) b \<longleftrightarrow> c = b" "holds (Loaded c info) b \<longleftrightarrow> c = b"
  by (auto simp: holds_def)

lemma lists_step_ok:
  assumes "foreign_step a e s s'" and ok: "lists_ok a s" and pages: "\<And>p. own_page a p \<Longrightarrow> page_ok s p"
  shows "lists_ok a s'" and "f_place s' b = Elsewhere \<longleftrightarrow> f_place s b = Elsewhere"
proof -
  obtain xs ys where I: "chain (h_cell (f_heap s)) (sf_thread_free (foreign_info a s)) xs" "set xs = {b. f_place s b = Listed}"
    "chain (h_cell (f_heap s)) (f_walk s) ys" "set ys = {b. f_place s b = Walked}"
    "\<And>i b. holds (f_pusher s i) b \<longleftrightarrow> f_place s b = Held i"
    "\<And>i b info. f_pusher s i = Loaded b info \<Longrightarrow> h_cell (f_heap s) b = sf_thread_free info"
    "\<And>b. f_place s b \<noteq> Elsewhere \<Longrightarrow> b \<noteq> 0 \<and> sas_of_segment (cxl_ptr_segment b) = a \<and> own_page a (cxl_ptr_page b)"
    using ok by (rule lists_okE) blast
  have held: "f_place s b = Held i" if "f_pusher s i = Holding b \<or> f_pusher s i = Loaded b info" for i b info
    using I(5) [of i b] that by (auto simp: holds_def)
  have off: "b \<notin> set xs" "b \<notin> set ys" if "f_place s b \<noteq> Listed \<and> f_place s b \<noteq> Walked" for b
    using that I(2,4) by auto
  have apart: "j = i" if "f_place s b = Held i" "holds (f_pusher s j) b" for i j b
    using that I(5) [of j b] by simp
  have rest: "f_place s c \<noteq> Held i" if "f_pusher s i = Resting" for c i
    using that I(5) [of i c] by simp
  have mine: "c = b" if "f_pusher s i = Holding b \<or> f_pusher s i = Loaded b info" "f_place s c = Held i" for b c i info
    using that I(5) [of i c] by auto
  have held_iff: "f_place s c = Held i \<longleftrightarrow> c = b" if "f_pusher s i = Holding b \<or> f_pusher s i = Loaded b info" for b c i info
    using held [OF that] mine [OF that] by blast
  have "lists_ok a s' \<and> (\<forall>b. f_place s' b = Elsewhere \<longleftrightarrow> f_place s b = Elsewhere)"
    using assms(1)
  proof (cases rule: foreign_step.cases)
    case (freed i b)
    have "lists_ok a s'"
      by (rule lists_okI [of _ _ xs ys]) (use I freed rest [OF freed(3)] in \<open>auto split: if_splits\<close>)
    then show ?thesis using freed by auto
  next
    case (loads i b info h)
    note b = held [OF disjI1 [OF loads(3)]]
    have h: "h = set_cell b (sf_thread_free info) (f_heap s)" using loads(4) by (auto simp: load_foreign_def Let_def split: if_splits)
    have o: "chain ((h_cell (f_heap s))(b := v)) (sf_thread_free (foreign_info a s)) xs" "chain ((h_cell (f_heap s))(b := v)) (f_walk s) ys" for v
      using off [of b] b I(1,3) by simp_all
    have "lists_ok a s'"
    proof (rule lists_okI [of _ _ xs ys])
      show "chain (h_cell (f_heap s')) (sf_thread_free (foreign_info a s')) xs" "chain (h_cell (f_heap s')) (f_walk s') ys"
        using loads(2) h by (simp_all add: o)
      show "holds (f_pusher s' j) c \<longleftrightarrow> f_place s' c = Held j" for j c
        using loads(2) held_iff [OF disjI1 [OF loads(3)]] I(5) by auto
      show "h_cell (f_heap s') c = sf_thread_free v" if "f_pusher s' j = Loaded c v" for j c v
        using that loads(2) h I(6) [of j c v] held [of j c v] b by (auto split: if_splits)
    qed (use I(2,4,7) loads(2) h in auto)
    then show ?thesis using loads by auto
  next
    case (gives_up i b)
    note b = held [OF disjI1 [OF gives_up(3)]]
    have "lists_ok a s'"
      by (rule lists_okI [of _ _ xs ys]) (use I gives_up(2,3) b in \<open>auto split: if_splits dest: mine [OF disjI1 [OF gives_up(3)]]\<close>)
    then show ?thesis using gives_up b by auto
  next
    case (swaps i b info h)
    note b = held [OF disjI2 [OF swaps(3)]]
    have s: "sas_of_segment (cxl_ptr_segment b) = a \<and> own_page a (cxl_ptr_page b)" "b \<noteq> 0" using I(7) [of b] b by simp_all
    have h: "foreign_info a s = info" "h = upd_sas a (\<lambda>s. s\<lparr>sas_info := \<lparr>sf_state = sf_state info, sf_thread_free = b\<rparr>\<rparr>) (f_heap s)"
      using swaps(4) s by (auto simp: swap_foreign_def Let_def split: if_splits)
    have "lists_ok a s'"
      by (rule lists_okI [of _ _ "b # xs" ys]) (use I swaps(2,3) h b s I(6) [OF swaps(3)] in \<open>auto split: if_splits dest: mine [OF disjI2 [OF swaps(3)]]\<close>)
    then show ?thesis using swaps b by auto
  next
    case (retries i b info)
    have "lists_ok a s'"
      by (rule lists_okI [of _ _ xs ys]) (use I retries(2,3) held [OF disjI2 [OF retries(3)]] in \<open>auto split: if_splits dest: mine [OF disjI2 [OF retries(3)]]\<close>)
    then show ?thesis using retries by auto
  next
    case (takes t h)
    have h: "t = sf_thread_free (foreign_info a s)"
      "h = upd_sas a (\<lambda>s. s\<lparr>sas_info := \<lparr>sf_state = sf_state (sas_info s), sf_thread_free = 0\<rparr>\<rparr>) (f_heap s)"
      using takes(4) by (auto simp: take_foreign_def Let_def upd_sas_def split: if_splits)
    have "lists_ok a s'"
      by (rule lists_okI [of _ _ "[]" xs]) (use I takes(2,3) h in \<open>auto split: if_splits\<close>)
    then show ?thesis using takes by auto
  next
    case (collects t h)
    let ?t = "f_walk s"
    obtain zs where y: "ys = ?t # zs" "chain (h_cell (f_heap s)) (h_cell (f_heap s) ?t) zs" using I(3) collects(3) by (auto simp: chain_nonnull)
    have w: "f_place s ?t = Walked" using I(4) y(1) by auto
    have d: "?t \<notin> set zs" by (rule chain_tail_fresh [OF y(2)])
    have h: "t = h_cell (f_heap s) ?t" "h_sas h = h_sas (f_heap s)" "h_cell h = (h_cell (f_heap s))(?t := pg_local_free (h_page (f_heap s) (cxl_ptr_page ?t)))"
      using collects(4) by (auto simp: collect_one_def Let_def blk_next_def)
    have no: "f_pusher s i \<noteq> Loaded ?t info" for i info using held [of i ?t info] w by auto
    have "lists_ok a s'"
      by (rule lists_okI [of _ _ xs zs]) (use I collects(2) h y d w no in \<open>auto split: if_splits\<close>)
    then show ?thesis using collects(2) w by auto
  next
    case (refills p h)
    have h: "h_cell h = h_cell (f_heap s)" "h_sas h = h_sas (f_heap s)"
      using refills(5) by (auto simp: refill_page_def Let_def split: if_splits)
    have "lists_ok a s'"
      by (rule lists_okI [of _ _ xs ys]) (use I refills(2) h in \<open>auto split: if_splits\<close>)
    then show ?thesis using refills(2) by auto
  next
    case (hands_out p b)
    have r: "f_place s b = Ready"
      using page_ok_hand_out(1) [OF pages [OF hands_out(4)] hands_out(5,6), of "s\<lparr>f_heap := take_block b p (f_heap s), f_place := (f_place s)(b := In_use)\<rparr>"]
      by simp
    have h: "h_cell (f_heap s') = h_cell (f_heap s)" "h_sas (f_heap s') = h_sas (f_heap s)"
      by (simp_all add: hands_out(2) take_block_def Let_def)
    have "lists_ok a s'"
      by (rule lists_okI [of _ _ xs ys]) (use I hands_out(2) h r in \<open>auto split: if_splits\<close>)
    then show ?thesis using hands_out(2) r by auto
  next
    case (takes_back b)
    have no: "f_pusher s i \<noteq> Loaded b info" for i info using held [of i b info] takes_back(4) by auto
    have h: "h_cell (f_heap s') = (h_cell (f_heap s))(b := pg_local_free (h_page (f_heap s) (cxl_ptr_page b)))" "h_sas (f_heap s') = h_sas (f_heap s)"
      by (simp_all add: takes_back(2) push_local_def Let_def)
    have "lists_ok a s'"
      by (rule lists_okI [of _ _ xs ys]) (use I takes_back(2,4) h no in \<open>auto split: if_splits\<close>)
    then show ?thesis using takes_back(2,4) by auto
  next
    case (written b v)
    have no: "f_pusher s i \<noteq> Loaded b info" for i info using held [of i b info] written(3) by auto
    have "lists_ok a s'"
      by (rule lists_okI [of _ _ xs ys]) (use I written no in \<open>auto split: if_splits\<close>)
    then show ?thesis using written by auto
  next
    case (marked st)
    have "lists_ok a s'"
      by (rule lists_okI [of _ _ xs ys]) (use I marked in auto)
    then show ?thesis using marked by auto
  qed
  then show "lists_ok a s'" "f_place s' b = Elsewhere \<longleftrightarrow> f_place s b = Elsewhere" by blast+
qed

lemma pages_step_ok:
  assumes "foreign_step a e s s'" and ok: "foreign_ok a s" and p: "own_page a p"
  shows "page_ok s' p"
proof -
  have P: "page_ok s p" and L: "lists_ok a s" using ok p by (simp_all add: foreign_ok_def)
  have held: "f_place s b = Held i" if "f_pusher s i = Holding b \<or> f_pusher s i = Loaded b info" for i b info
  proof -
    have "holds (f_pusher s i) b \<longleftrightarrow> f_place s b = Held i" using L unfolding lists_ok_def by blast
    then show ?thesis using that by (auto simp: holds_def)
  qed
  show ?thesis
    using assms(1)
  proof (cases rule: foreign_step.cases)
    case (loads i b info h)
    have "h_cell h = (h_cell (f_heap s))(b := sf_thread_free info)" "h_page h = h_page (f_heap s)"
      using loads(4) by (auto simp: load_foreign_def Let_def split: if_splits)
    then show ?thesis
      using held [OF disjI1 [OF loads(3)]] by (intro page_ok_frame [OF P]) (auto simp: loads(2) same_home_def)
  next
    case (swaps i b info h)
    have "h_cell h = h_cell (f_heap s)" "h_page h = h_page (f_heap s)"
      using swaps(4) by (auto simp: swap_foreign_def Let_def split: if_splits)
    then show ?thesis
      using held [OF disjI2 [OF swaps(3)]] by (intro page_ok_frame [OF P]) (auto simp: swaps(2) same_home_def)
  next
    case (takes t h)
    have "h_cell h = h_cell (f_heap s)" "h_page h = h_page (f_heap s)"
      using takes(4) by (auto simp: take_foreign_def Let_def split: if_splits)
    then show ?thesis by (intro page_ok_frame [OF P]) (auto simp: takes(2) same_home_def)
  next
    case (collects t h)
    let ?t = "f_walk s" and ?q = "cxl_ptr_page (f_walk s)"
    have w: "f_place s ?t = Walked" using L collects(3) by (auto simp: lists_ok_def chain_nonnull)
    have h: "h_cell h = (h_cell (f_heap s))(?t := pg_local_free (h_page (f_heap s) ?q))"
      "h_page h = (h_page (f_heap s))(?q := (h_page (f_heap s) ?q)\<lparr>pg_local_free := ?t, pg_used := pg_used (h_page (f_heap s) ?q) - 1\<rparr>)"
      using collects(4) by (auto simp: collect_one_def Let_def upd_page_def)
    show ?thesis
    proof (cases "p = ?q")
      case True
      show ?thesis
        by (rule page_ok_home [OF P, of ?t]) (use w collects(3) True h in \<open>simp_all add: out_blocks_def collects(2)\<close>)
    qed (intro page_ok_frame [OF P]; use w h in \<open>auto simp: collects(2) same_home_def\<close>)
  next
    case (refills q h)
    show ?thesis
    proof (cases "p = q")
      case True
      show ?thesis by (rule page_ok_refill [OF P]) (use True refills(5) in \<open>simp_all add: refills(2)\<close>)
    next
      case False
      have "h_cell h = h_cell (f_heap s)" "h_page h p = h_page (f_heap s) p"
        using refills(5) False by (auto simp: refill_page_def Let_def split: if_splits)
      then show ?thesis using False by (intro page_ok_frame [OF P]) (auto simp: refills(2) same_home_def)
    qed
  next
    case (hands_out q b)
    have Q: "page_ok s q" using ok hands_out(4) by (simp add: foreign_ok_def)
    have eq: "f_place s' = (f_place s)(b := In_use)" "f_heap s' = take_block b q (f_heap s)" by (simp_all add: hands_out(2))
    note H = page_ok_hand_out [OF Q hands_out(5,6) eq]
    show ?thesis
    proof (cases "p = q")
      case False
      then show ?thesis using H(2) by (intro page_ok_frame [OF P]) (auto simp: eq same_home_def take_block_def Let_def)
    qed (use H(3) in simp)
  next
    case (takes_back b)
    let ?q = "cxl_ptr_page b"
    have nz: "b \<noteq> 0" using L takes_back(4) unfolding lists_ok_def by (metis place.distinct(1))
    have h: "h_cell (f_heap s') = (h_cell (f_heap s))(b := pg_local_free (h_page (f_heap s) ?q))"
      "h_page (f_heap s') = (h_page (f_heap s))(?q := (h_page (f_heap s) ?q)\<lparr>pg_local_free := b, pg_used := pg_used (h_page (f_heap s) ?q) - 1\<rparr>)"
      by (auto simp: takes_back(2) push_local_def Let_def upd_page_def)
    show ?thesis
    proof (cases "p = ?q")
      case True
      show ?thesis
        by (rule page_ok_home [OF P, of b]) (use takes_back(4) nz True h in \<open>simp_all add: out_blocks_def takes_back(2)\<close>)
    qed (intro page_ok_frame [OF P]; use takes_back(4) h in \<open>auto simp: takes_back(2) same_home_def\<close>)
  next
    case (gives_up i b)
    then show ?thesis using held [OF disjI1 [OF gives_up(3)]] by (intro page_ok_frame [OF P]) (auto simp: same_home_def)
  qed (use P in \<open>auto intro!: page_ok_frame [OF P] simp: same_home_def\<close>)
qed

lemma foreign_step_ok:
  assumes "foreign_step a e s s'" and ok: "foreign_ok a s"
  shows "foreign_ok a s'" and "f_place s' b = Elsewhere \<longleftrightarrow> f_place s b = Elsewhere"
proof -
  have L: "lists_ok a s" and P: "\<And>p. own_page a p \<Longrightarrow> page_ok s p" using ok by (simp_all add: foreign_ok_def)
  show "foreign_ok a s'" using lists_step_ok(1) [OF assms(1) L P] pages_step_ok [OF assms] by (simp add: foreign_ok_def)
  show "f_place s' b = Elsewhere \<longleftrightarrow> f_place s b = Elsewhere" by (rule lists_step_ok(2) [OF assms(1) L P])
qed

section \<open>Every run\<close>

definition unleaked :: "u64 \<Rightarrow> foreign \<Rightarrow> bool" where
  "unleaked a s \<longleftrightarrow> sf_state (foreign_info a s) \<noteq> segment_state_code POTENTIAL_LEAKING \<and> (\<forall>b. f_place s b \<noteq> Lost)"

lemma foreign_ok_pusher:
  assumes "foreign_ok a s" "holds (f_pusher s i) b"
  shows "sas_of_segment (cxl_ptr_segment b) = a"
proof -
  have L: "lists_ok a s" using assms(1) by (simp add: foreign_ok_def)
  then have "f_place s b = Held i" using assms(2) unfolding lists_ok_def by blast
  then show ?thesis using L unfolding lists_ok_def by simp
qed

lemma foreign_step_unleaked:
  assumes "foreign_step a e s s'" "foreign_ok a s" "unleaked a s" "e \<noteq> Mark (segment_state_code POTENTIAL_LEAKING)"
  shows "unleaked a s'"
  using assms(1)
proof (cases rule: foreign_step.cases)
  case (gives_up i b)
  have "sas_of_segment (cxl_ptr_segment b) = a" using foreign_ok_pusher [OF assms(2), of i b] gives_up(3) by simp
  then have False using gives_up(4) assms(3) by (simp add: load_foreign_def Let_def unleaked_def)
  then show ?thesis ..
next
  case (swaps i b info h)
  have "sas_of_segment (cxl_ptr_segment b) = a" using foreign_ok_pusher [OF assms(2), of i b] swaps(3) by simp
  then show ?thesis using swaps(2,4) assms(3) by (auto simp: swap_foreign_def Let_def unleaked_def split: if_splits)
qed (use assms(3,4) in \<open>auto simp: unleaked_def load_foreign_def take_foreign_def collect_one_def refill_page_def take_block_def
    push_local_def Let_def split: if_splits\<close>)

interpretation ff: kept "foreign_ok a" "foreign_step a" for a
  by unfold_locales (rule foreign_step_ok(1))

lemma foreign_run_places:
  "runs (foreign_step a) s es s' \<Longrightarrow> foreign_ok a s \<Longrightarrow> f_place s' b = Elsewhere \<longleftrightarrow> f_place s b = Elsewhere"
  by (induction rule: runs.induct) (auto simp: foreign_step_ok(2) dest: ff.stays_ok)

lemma foreign_run_unleaked:
  "runs (foreign_step a) s es s' \<Longrightarrow> foreign_ok a s \<Longrightarrow> unleaked a s
     \<Longrightarrow> Mark (segment_state_code POTENTIAL_LEAKING) \<notin> set es \<Longrightarrow> unleaked a s'"
proof (induction rule: runs.induct)
  case (go e s s1 es s2)
  then have "e \<noteq> Mark (segment_state_code POTENTIAL_LEAKING)" by auto
  from foreign_step_unleaked [OF go(1,4,5) this] go show ?case by (auto dest: ff.stays_ok)
qed

section \<open>Property\<close>

text \<open>
  C14. No block freed by another client is lost or freed twice. However the frees of any number
  of clients, the owner's collection, allocations and frees and the monitor's marks interleave, at
  every moment each block of the segment is in one place: the list in the segment's word consists
  of exactly the blocks swapped in and not yet taken, the owner's walk of exactly those taken and
  not yet collected, a block still being pushed is in the hands of exactly one client, and
  the local and the free list of each page consist of exactly the blocks that have come home to it
  and have not been handed out again; its use count is the number of its other blocks. Only a
  segment that the monitor marked as leaking has blocks given up.
\<close>

theorem foreign_frees_lose_no_block:
  assumes "runs (foreign_step a) s0 es s" "foreign_start a s0"
  shows "\<exists>xs ys. chain (h_cell (f_heap s)) (sf_thread_free (sas_info (h_sas (f_heap s) a))) xs
      \<and> set xs = {b. f_place s b = Listed} \<and> distinct xs
      \<and> chain (h_cell (f_heap s)) (f_walk s) ys \<and> set ys = {b. f_place s b = Walked} \<and> distinct ys
      \<and> (\<forall>i b. f_place s b = Held i \<longleftrightarrow> holds (f_pusher s i) b)
      \<and> (\<forall>p. own_page a p \<longrightarrow> page_ok s p)
      \<and> (\<forall>b. f_place s b = Elsewhere \<longleftrightarrow> f_place s0 b = Elsewhere)
      \<and> (Mark (segment_state_code POTENTIAL_LEAKING) \<notin> set es \<longrightarrow> (\<forall>b. f_place s b \<noteq> Lost))"
proof -
  note s0 = foreign_start_ok [OF assms(2)]
  have "f_place s0 b \<in> {Elsewhere, In_use, Local, Ready}" for b using assms(2) by (simp add: foreign_start_def)
  then have "f_place s0 b \<noteq> Lost" for b by (metis empty_iff insert_iff place.distinct)
  then have "unleaked a s0" using assms(2) by (simp add: foreign_start_def unleaked_def)
  note u = foreign_run_unleaked [OF assms(1) s0 this]
  have "foreign_ok a s" by (rule ff.run_ok [OF assms(1) s0])
  then have L: "lists_ok a s" and P: "\<forall>p. own_page a p \<longrightarrow> page_ok s p" by (simp_all add: foreign_ok_def)
  show ?thesis
    by (rule lists_okE [OF L]) (use P u foreign_run_places [OF assms(1) s0] in
      \<open>auto simp: unleaked_def intro!: exI dest: chain_distinct\<close>)
qed

text \<open>
  Two clients free a block each of the first segment. Both read the word before the first swap, so
  that the second client has to start over. Then the owner collects: both blocks are on the local
  list of their page.
\<close>

theorem foreign_frees_lose_no_block_witness:
  "\<exists>(s0 :: foreign) s ls. runs (foreign_step 0) s0 [Move, Move, Move, Move, Move, Move, Move, Move, Move, Move, Move] s
     \<and> chain (h_cell (f_heap s)) (pg_local_free (h_page (f_heap s) (cxl_ptr_page 134283264))) ls
     \<and> set ls = {134283264, 134283280} \<and> (\<forall>b. f_place s b \<noteq> Lost)"
proof -
  let ?b = "134283264 :: u64" and ?c = "134283280 :: u64"
  define p where "p = cxl_ptr_page ?b"
  have a: "sas_of_segment (cxl_ptr_segment ?b) = 0" "sas_of_segment (cxl_ptr_segment ?c) = 0"
    by (simp_all add: sas_of_segment_def segment_index_def cxl_ptr_segment_def layout)
  have p: "cxl_ptr_page ?b = p" "cxl_ptr_page ?c = p" "own_page 0 p"
    by (simp_all add: p_def own_page_def cxl_ptr_page_def cxl_segment_page_of_def sas_of_segment_def segment_index_def cxl_ptr_segment_def layout)
  define s0 where "s0 = \<lparr>f_heap = upd_page p (\<lambda>g. g\<lparr>pg_used := 2\<rparr>) zero_heap, f_pusher = (\<lambda>_. Resting), f_walk = 0, f_place = (\<lambda>_. Elsewhere)(?b := In_use, ?c := In_use)\<rparr>"
  let ?i0 = "\<lparr>sf_state = 0, sf_thread_free = 0\<rparr>" and ?i1 = "\<lparr>sf_state = 0, sf_thread_free = ?b\<rparr>"
  define s1 where "s1 = s0\<lparr>f_pusher := (f_pusher s0)(0 := Holding ?b), f_place := (f_place s0)(?b := Held 0)\<rparr>"
  define s2 where "s2 = s1\<lparr>f_pusher := (f_pusher s1)(2 := Holding ?c), f_place := (f_place s1)(?c := Held 2)\<rparr>"
  define s3 where "s3 = s2\<lparr>f_heap := set_cell ?b 0 (f_heap s2), f_pusher := (f_pusher s2)(0 := Loaded ?b ?i0)\<rparr>"
  define s4 where "s4 = s3\<lparr>f_heap := set_cell ?c 0 (f_heap s3), f_pusher := (f_pusher s3)(2 := Loaded ?c ?i0)\<rparr>"
  define s5 where "s5 = s4\<lparr>f_heap := upd_sas 0 (\<lambda>s. s\<lparr>sas_info := ?i1\<rparr>) (f_heap s4), f_pusher := (f_pusher s4)(0 := Resting), f_place := (f_place s4)(?b := Listed)\<rparr>"
  define s6 where "s6 = s5\<lparr>f_pusher := (f_pusher s5)(2 := Holding ?c)\<rparr>"
  define s7 where "s7 = s6\<lparr>f_heap := set_cell ?c ?b (f_heap s6), f_pusher := (f_pusher s6)(2 := Loaded ?c ?i1)\<rparr>"
  define s8 where "s8 = s7\<lparr>f_heap := upd_sas 0 (\<lambda>s. s\<lparr>sas_info := \<lparr>sf_state = 0, sf_thread_free = ?c\<rparr>\<rparr>) (f_heap s7), f_pusher := (f_pusher s7)(2 := Resting), f_place := (f_place s7)(?c := Listed)\<rparr>"
  note eqs = load_foreign_def swap_foreign_def Let_def a
  have L0: "sas_info (h_sas (f_heap s0) 0) = ?i0" "f_pusher s0 0 = Resting" "f_pusher s0 2 = Resting" "f_place s0 ?b = In_use" "f_place s0 ?c = In_use"
    by (simp_all add: s0_def zero_defs)
  have L1: "sas_info (h_sas (f_heap s1) 0) = ?i0" "f_pusher s1 0 = Holding ?b" "f_pusher s1 2 = Resting" "f_place s1 ?b = Held 0" "f_place s1 ?c = In_use"
    by (simp_all add: s1_def L0)
  have L2: "sas_info (h_sas (f_heap s2) 0) = ?i0" "f_pusher s2 0 = Holding ?b" "f_pusher s2 2 = Holding ?c" "f_place s2 ?b = Held 0" "f_place s2 ?c = Held 2"
    by (simp_all add: s2_def L1)
  have L3: "sas_info (h_sas (f_heap s3) 0) = ?i0" "f_pusher s3 0 = Loaded ?b ?i0" "f_pusher s3 2 = Holding ?c" "f_place s3 ?b = Held 0" "f_place s3 ?c = Held 2"
    by (simp_all add: s3_def L2)
  have L4: "sas_info (h_sas (f_heap s4) 0) = ?i0" "f_pusher s4 0 = Loaded ?b ?i0" "f_pusher s4 2 = Loaded ?c ?i0" "f_place s4 ?b = Held 0" "f_place s4 ?c = Held 2"
    by (simp_all add: s4_def L3)
  have L5: "sas_info (h_sas (f_heap s5) 0) = ?i1" "f_pusher s5 0 = Resting" "f_pusher s5 2 = Loaded ?c ?i0" "f_place s5 ?b = Listed" "f_place s5 ?c = Held 2"
    by (simp_all add: s5_def L4 upd_sas_def)
  have L6: "sas_info (h_sas (f_heap s6) 0) = ?i1" "f_pusher s6 0 = Resting" "f_pusher s6 2 = Holding ?c" "f_place s6 ?b = Listed" "f_place s6 ?c = Held 2"
    by (simp_all add: s6_def L5)
  have L7: "sas_info (h_sas (f_heap s7) 0) = ?i1" "f_pusher s7 0 = Resting" "f_pusher s7 2 = Loaded ?c ?i1" "f_place s7 ?b = Listed" "f_place s7 ?c = Held 2"
    by (simp_all add: s7_def L6)
  have P0: "f_walk s0 = 0" "f_place s0 = (\<lambda>_. Elsewhere)(?b := In_use, ?c := In_use)"
    by (simp_all add: s0_def fun_eq_iff)
  have P1: "f_walk s1 = 0" "f_place s1 = (\<lambda>_. Elsewhere)(?b := Held 0, ?c := In_use)"
    by (simp_all add: s1_def P0 fun_eq_iff)
  have P2: "f_walk s2 = 0" "f_place s2 = (\<lambda>_. Elsewhere)(?b := Held 0, ?c := Held 2)"
    by (simp_all add: s2_def P1 fun_eq_iff)
  have P3: "f_walk s3 = 0" "f_place s3 = (\<lambda>_. Elsewhere)(?b := Held 0, ?c := Held 2)" "h_cell (f_heap s3) ?b = 0"
    by (simp_all add: s3_def P2 fun_eq_iff)
  have P4: "f_walk s4 = 0" "f_place s4 = (\<lambda>_. Elsewhere)(?b := Held 0, ?c := Held 2)" "h_cell (f_heap s4) ?b = 0"
    by (simp_all add: s4_def P3 fun_eq_iff)
  have P5: "f_walk s5 = 0" "f_place s5 = (\<lambda>_. Elsewhere)(?b := Listed, ?c := Held 2)" "h_cell (f_heap s5) ?b = 0"
    by (simp_all add: s5_def P4 upd_sas_def fun_eq_iff)
  have P6: "f_walk s6 = 0" "f_place s6 = (\<lambda>_. Elsewhere)(?b := Listed, ?c := Held 2)" "h_cell (f_heap s6) ?b = 0"
    by (simp_all add: s6_def P5 fun_eq_iff)
  have P7: "f_walk s7 = 0" "f_place s7 = (\<lambda>_. Elsewhere)(?b := Listed, ?c := Held 2)" "h_cell (f_heap s7) ?b = 0" "h_cell (f_heap s7) ?c = ?b"
    by (simp_all add: s7_def P6 fun_eq_iff)
  have P8: "f_walk s8 = 0" "f_place s8 = (\<lambda>_. Elsewhere)(?b := Listed, ?c := Listed)" "h_cell (f_heap s8) ?b = 0" "h_cell (f_heap s8) ?c = ?b"
    by (simp_all add: s8_def P7 upd_sas_def fun_eq_iff)
  have L8: "sas_info (h_sas (f_heap s8) 0) = \<lparr>sf_state = 0, sf_thread_free = ?c\<rparr>" by (simp add: s8_def upd_sas_def)
  define s9 where "s9 = s8\<lparr>f_heap := upd_sas 0 (\<lambda>s. s\<lparr>sas_info := \<lparr>sf_state = 0, sf_thread_free = 0\<rparr>\<rparr>) (f_heap s8), f_walk := ?c,
    f_place := (\<lambda>b. if f_place s8 b = Listed then Walked else f_place s8 b)\<rparr>"
  define s10 where "s10 = s9\<lparr>f_heap := snd (collect_one ?c (f_heap s9)), f_walk := ?b, f_place := (f_place s9)(?c := Local)\<rparr>"
  define s11 where "s11 = s10\<lparr>f_heap := snd (collect_one ?b (f_heap s10)), f_walk := 0, f_place := (f_place s10)(?b := Local)\<rparr>"
  have P11: "f_place s11 = (\<lambda>_. Elsewhere)(?b := Local, ?c := Local)" by (auto simp: s11_def s10_def s9_def P8(2) fun_eq_iff)
  have nx: "fst (collect_one ?c (f_heap s9)) = ?b" "fst (collect_one ?b (f_heap s10)) = 0"
    by (simp_all add: s10_def s9_def collect_one_def Let_def blk_next_def P8)
  have 1: "foreign_step 0 Move s0 s1" unfolding s1_def by (rule foreign_step.freed; simp add: L0)
  have 2: "foreign_step 0 Move s1 s2" unfolding s2_def by (rule foreign_step.freed; simp add: L1)
  have 3: "foreign_step 0 Move s2 s3" unfolding s3_def by (rule foreign_step.loads; simp add: eqs L2)
  have 4: "foreign_step 0 Move s3 s4" unfolding s4_def by (rule foreign_step.loads; simp add: eqs L3)
  have 5: "foreign_step 0 Move s4 s5" unfolding s5_def by (rule foreign_step.swaps [where info = ?i0]; simp add: eqs upd_sas_def L4)
  have 6: "foreign_step 0 Move s5 s6" unfolding s6_def by (rule foreign_step.retries; simp add: L5)
  have 7: "foreign_step 0 Move s6 s7" unfolding s7_def by (rule foreign_step.loads; simp add: eqs L6)
  have 8: "foreign_step 0 Move s7 s8" unfolding s8_def by (rule foreign_step.swaps [where info = ?i1]; simp add: eqs upd_sas_def L7)
  have 9: "foreign_step 0 Move s8 s9" unfolding s9_def by (rule foreign_step.takes; simp add: take_foreign_def Let_def L8 P8(1))
  have 10: "foreign_step 0 Move s9 s10"
    using foreign_step.collects [of s9 ?b "snd (collect_one ?c (f_heap s9))" 0] nx(1)
    by (simp add: s10_def prod_eq_iff) (simp add: s9_def prod_eq_iff)
  have 11: "foreign_step 0 Move s10 s11"
    using foreign_step.collects [of s10 0 "snd (collect_one ?b (f_heap s10))" 0] nx(2)
    by (simp add: s11_def prod_eq_iff) (simp add: s10_def prod_eq_iff)
  have run: "runs (foreign_step 0) s0 [Move, Move, Move, Move, Move, Move, Move, Move, Move, Move, Move] s11"
    by (rule runs.go, rule 1, rule runs.go, rule 2, rule runs.go, rule 3, rule runs.go, rule 4, rule runs.go, rule 5,
      rule runs.go, rule 6, rule runs.go, rule 7, rule runs.go, rule 8, rule runs.go, rule 9, rule runs.go, rule 10,
      rule runs.go, rule 11, rule runs.stop)
  have pages: "page_ok s0 q" for q
  proof (rule page_okI)
    have "out_blocks s0 q = (if q = p then {?b, ?c} else {})" using p by (auto simp: out_blocks_def s0_def)
    then show "pg_used (h_page (f_heap s0) q) = of_nat (card (out_blocks s0 q))" by (simp add: s0_def zero_defs upd_page_def)
    show "chain (h_cell (f_heap s0)) (pg_free (h_page (f_heap s0) q)) []"
      "chain (h_cell (f_heap s0)) (pg_local_free (h_page (f_heap s0) q)) []"
      by (simp_all add: s0_def zero_defs upd_page_def)
    show "set [] = page_blocks s0 Ready q" "set [] = page_blocks s0 Local q" by (auto simp: page_blocks_def s0_def)
  qed
  have start: "foreign_start 0 s0"
    using pages a p by (simp add: foreign_start_def) (simp add: s0_def zero_defs upd_page_def)
  from foreign_frees_lose_no_block [OF run start] have "page_ok s11 p"
    and lost: "Mark (segment_state_code POTENTIAL_LEAKING) \<notin> set [Move, Move, Move, Move, Move, Move, Move, Move, Move, Move, Move]
      \<longrightarrow> (\<forall>b. f_place s11 b \<noteq> Lost)" using p(3) by blast+
  from this(1) obtain ls where "chain (h_cell (f_heap s11)) (pg_local_free (h_page (f_heap s11) p)) ls" "set ls = page_blocks s11 Local p"
    by (rule page_okE)
  moreover have "page_blocks s11 Local p = {?b, ?c}" using p by (auto simp: page_blocks_def P11)
  ultimately show ?thesis using run lost unfolding p_def by (intro exI [of _ s0] exI [of _ s11] exI [of _ ls]) simp
qed

end
