(* ===== verification/Object_Free.thy ===== *)
theory Object_Free
  imports Object_Graph
begin

text \<open>
  Dropping a reference with \<open>test_free\<close>: it returns, and it frees exactly the objects that no
  reference reaches any more, provided that the embedded references form no cycle.
\<close>

section \<open>Dropping a reference\<close>

text \<open>Embedded references go down in rank: the objects do not refer to each other in a cycle.\<close>

definition ranked :: "(u64 \<Rightarrow> nat) \<Rightarrow> store \<Rightarrow> bool" where
  "ranked rank S \<longleftrightarrow> (\<forall>ob \<in> st_objs S. \<forall>x \<in> slots (st_heap S) ob. h_cell (st_heap S) x \<noteq> 0 \<longrightarrow> rank (h_cell (st_heap S) x) < rank ob)"

lemma rankedD: "ranked rank S \<Longrightarrow> ob \<in> st_objs S \<Longrightarrow> x \<in> slots (st_heap S) ob \<Longrightarrow> h_cell (st_heap S) x \<noteq> 0
    \<Longrightarrow> rank (h_cell (st_heap S) x) < rank ob"
  by (simp add: ranked_def)

lemma store_graph: "store_inv sh R S \<Longrightarrow> graph (st_heap S) (st_lists S) R (st_objs S)"
  by (simp add: store_inv_def)

lemma ranked_dropped:
  assumes S: "store_inv sh R S" and r: "ranked rank S" and D: "dropped ex sh R X S S'"
  shows "ranked rank S'"
  unfolding ranked_def
proof (intro ballI impI)
  fix ob x assume ob: "ob \<in> st_objs S'" and x: "x \<in> slots (st_heap S') ob" and nz: "h_cell (st_heap S') x \<noteq> 0"
  have c: "x \<in> st_cells R S'" using ob x by (auto simp: ref_cells_def)
  then have "x \<notin> X" using droppedD(3) [OF D] nz by blast
  then have "h_cell (st_heap S') x = h_cell (st_heap S) x" by (rule dropped_cell [OF D store_graph [OF S] c])
  then show "rank (h_cell (st_heap S') x) < rank ob"
    using rankedD [OF r, of ob x] droppedD(1) [OF D] ob x nz dropped_slots [OF D ob] by auto
qed

lemma slot_cells_apart:
  assumes g: "graph h V R O'" and ob: "ob \<in> O'" and x: "x \<in> slots h ob"
  shows "\<not> root_place h V O' x" and "y \<in> O' \<Longrightarrow> y \<noteq> ob \<Longrightarrow> d < bsize h (cxl_ptr_page y) \<Longrightarrow> y + of_nat d \<noteq> x"
proof -
  from slot_inside [OF graphD(2) [OF g ob] x] obtain e where e: "x = ob + of_nat e" "e < bsize h (cxl_ptr_page ob)"
    by (metis add_lessD1 less_le_trans less_add_same_cancel1 zero_less_numeral)
  note b = live_block [OF graphD(1) [OF g ob]]
  show "y + of_nat d \<noteq> x" if "y \<in> O'" "y \<noteq> ob" "d < bsize h (cxl_ptr_page y)"
    using blocks_apart [OF live_block [OF graphD(1) [OF g that(1)]] b that(2,3) e(2)] e(1) by simp
  show "\<not> root_place h V O' x"
  proof
    assume "root_place h V O' x"
    then obtain b2 d where b2: "b2 \<in> live h V" "b2 \<noteq> ob" "d < bsize h (cxl_ptr_page b2)" "x = b2 + of_nat d"
      using block_high [OF b e(2)] e(1) ob by (auto simp: root_place_def)
    then show False using blocks_apart [OF live_block [OF b2(1)] b b2(2,3) e(2)] e(1) by simp
  qed
qed

text \<open>The cells of an object that dies need not be mentioned.\<close>

lemma dropped_less:
  assumes D: "dropped ex sh R (slots (st_heap S) ob \<union> X) S S'" and g: "graph (st_heap S) (st_lists S) R (st_objs S)"
    and ob: "ob \<in> st_objs S" "ob \<notin> st_objs S'"
  shows "dropped ex sh R X S S'"
  unfolding dropped_def
proof (intro conjI ballI allI impI)
  show "h_cell (st_heap S') x = h_cell (st_heap S) x" if "root_place (st_heap S) (st_lists S) (st_objs S) x \<and> x \<notin> X" for x
    using droppedD(4) [OF D, of x] slot_cells_apart(1) [OF g ob(1), of x] that by blast
  show "h_cell (st_heap S') x = h_cell (st_heap S) x" if x: "outside (st_heap S) (st_objs S) x \<and> x \<notin> X" for x
  proof -
    have "x \<notin> slots (st_heap S) ob"
    proof
      assume "x \<in> slots (st_heap S) ob"
      from slot_inside [OF graphD(2) [OF g ob(1)] this] obtain d where "x = ob + of_nat d" "d < bsize (st_heap S) (cxl_ptr_page ob)"
        by (metis add_lessD1 less_le_trans less_add_same_cancel1 zero_less_numeral)
      then show False using x ob(1) by (auto simp: outside_def)
    qed
    then show ?thesis using droppedD(10) [OF D, of x] x by blast
  qed
  fix y assume y: "y \<in> st_objs S'"
  show "h_cell (st_heap S') (y + of_nat d) = h_cell (st_heap S) (y + of_nat d)"
    if "24 \<le> d \<and> d < bsize (st_heap S) (cxl_ptr_page y) \<and> y + of_nat d \<notin> X" for d
    using droppedD(6) [OF D y, of d] slot_cells_apart(2) [OF g ob(1), of "y + of_nat d" y d] that y ob(2) droppedD(1) [OF D] by blast
qed (use droppedD(1,2) [OF D] in blast, (use droppedD(2,3,5,7-9) [OF D] in blast)+)

lemma embedded_bound: "object_at h ob \<Longrightarrow> block_in h (cxl_ptr_page ob) ob \<Longrightarrow> unat (obj_embedded h ob) \<le> 8189"
  using bsize_page [of h "cxl_ptr_page ob" ob] by (simp add: object_at_def)

text \<open>What \<open>test_free\<close> does of a cell, if only objects of rank below \<open>r\<close> may die.\<close>

definition frees :: "bool \<Rightarrow> cxl_shm \<Rightarrow> u64 set \<Rightarrow> (u64 \<Rightarrow> nat) \<Rightarrow> nat \<Rightarrow> u64 set \<Rightarrow> store \<Rightarrow> (fault + shm_heap) \<Rightarrow> bool" where
  "frees ex sh R rank r X S res \<longleftrightarrow> (\<exists>S'. res = Inr (st_heap S') \<and> store_inv sh R S' \<and> dropped ex sh R X S S'
     \<and> (\<forall>y \<in> st_objs S - st_objs S'. rank y < r))"

lemma frees_mono: "frees ex sh R rank r X S res \<Longrightarrow> r \<le> q \<Longrightarrow> frees ex sh R rank q X S res"
  unfolding frees_def by (blast intro: less_le_trans)

lemma holder_gone:
  assumes D: "dropped ex sh R (slots (st_heap S) ob) S S'" and g: "graph (st_heap S) (st_lists S) R (st_objs S)"
    and ob: "ob \<in> st_objs S'" "ob \<noteq> 0"
  shows "st_holders R S' ob \<subseteq> st_holders R S ob" and "x \<in> slots (st_heap S') ob \<Longrightarrow> h_cell (st_heap S') x = 0"
proof -
  have s: "slots (st_heap S') ob = slots (st_heap S) ob" by (rule dropped_slots [OF D ob(1)])
  then show z: "h_cell (st_heap S') x = 0" if "x \<in> slots (st_heap S') ob" for x
    using droppedD(3) [OF D, of x] that ob(1) by (auto simp: ref_cells_def)
  show "st_holders R S' ob \<subseteq> st_holders R S ob"
  proof
    fix x assume x: "x \<in> st_holders R S' ob"
    then have c: "x \<in> st_cells R S'" "h_cell (st_heap S') x = ob" by (simp_all add: holders_def)
    then have "x \<notin> slots (st_heap S) ob" using z ob(2) s by auto
    then show "x \<in> st_holders R S ob"
      using dropped_cell [OF D g c(1)] dropped_cells [OF D] c by (auto simp: holders_def)
  qed
qed

text \<open>The cascade, by a client (\<open>test_free\<close>) or by the monitor (\<open>recovery_test_free\<close>).\<close>

locale dropper = unlinker +
  fixes drop :: "nat \<Rightarrow> u64 \<Rightarrow> shm_heap \<Rightarrow> fault + shm_heap"
    and drop_embedded :: "nat \<Rightarrow> u64 \<Rightarrow> u64 \<Rightarrow> shm_heap \<Rightarrow> fault + shm_heap"
  assumes drop_null: "h_cell h c = 0 \<Longrightarrow> drop (Suc n) c h = Inr h"
    and drop_one: "h_cell h c \<noteq> 0 \<Longrightarrow> get_ref_cnt_from_info (obj_ref_info h (h_cell h c)) \<noteq> 0
      \<Longrightarrow> drop (Suc n) c h = (if get_ref_cnt_from_info (obj_ref_info h (h_cell h c)) - 1 > 0 then unlink c (h_cell h c) h
            else bnd (drop_embedded n (h_cell h c) 0 h) (\<lambda>h. unlink c (h_cell h c) h))"
    and drop_embedded_loop: "drop_embedded (Suc n) ob i h = (if i < obj_embedded h ob
      then bnd (drop n (ob + (sizeof_CXLObj + i * 8)) h) (\<lambda>h. drop_embedded n ob (i + 1) h) else Inr h)"
begin

lemma drop_embedded_step:
  assumes IH: "\<And>S c n. store_inv sh R S \<Longrightarrow> ranked rank S \<Longrightarrow> c \<in> st_cells R S
      \<Longrightarrow> h_cell (st_heap S) c = 0 \<or> rank (h_cell (st_heap S) c) < r \<Longrightarrow> N \<le> n
      \<Longrightarrow> frees ex sh R rank r {c} S (drop n c (st_heap S))"
    and "store_inv sh R S" and "ranked rank S" and "ob \<in> st_objs S" and "rank ob = r"
    and "i + k = unat (obj_embedded (st_heap S) ob)" and "N + k + 1 \<le> n"
  shows "frees ex sh R rank r (slot ob ` {i..<i + k}) S (drop_embedded n ob (of_nat i) (st_heap S))"
  using assms(2-)
proof (induction k arbitrary: i S n)
  case 0
  then have "of_nat i = obj_embedded (st_heap S) ob" using of_nat_unat [of "obj_embedded (st_heap S) ob"] by simp
  then show ?case using 0 by (cases n) (auto simp: frees_def drop_embedded_loop)
next
  case (Suc k)
  let ?h = "st_heap S" and ?c = "slot ob i"
  obtain m where m: "n = Suc m" using Suc.prems by (cases n) auto
  note g = store_graph [OF Suc.prems(1)]
  have c: "?c \<in> slots ?h ob" using Suc.prems(5) by (simp add: slots_def)
  then have cc: "?c \<in> st_cells R S" using Suc.prems(3) by (auto simp: ref_cells_def)
  have lt: "of_nat i < obj_embedded ?h ob"
    using Suc.prems(5) unat_bound [of "obj_embedded ?h ob"] by (simp add: word_less_nat_alt unat_of_nat_64)
  have addr: "ob + (sizeof_CXLObj + of_nat i * 8) = ?c" by (simp add: slot_def sizeof_CXLObj_def mult.commute)
  have "frees ex sh R rank r {?c} S (drop m ?c ?h)"
    using IH [OF Suc.prems(1,2) cc, of m] rankedD [OF Suc.prems(2,3) c] Suc.prems(4,6) m by auto
  then obtain S1 where S1: "drop m ?c ?h = Inr (st_heap S1)" "store_inv sh R S1" "dropped ex sh R {?c} S S1"
    "\<And>y. y \<in> st_objs S - st_objs S1 \<Longrightarrow> rank y < r" unfolding frees_def by blast
  have ob1: "ob \<in> st_objs S1" using Suc.prems(3,4) S1(4) [of ob] by blast
  have "frees ex sh R rank r (slot ob ` {Suc i..<Suc i + k}) S1 (drop_embedded m ob (of_nat (Suc i)) (st_heap S1))"
    using Suc.prems(4-) m droppedD(5) [OF S1(3) ob1]
    by (intro Suc.IH [OF S1(2) ranked_dropped [OF Suc.prems(1,2) S1(3)] ob1]) simp_all
  then obtain S2 where S2: "drop_embedded m ob (of_nat (Suc i)) (st_heap S1) = Inr (st_heap S2)" "store_inv sh R S2"
    "dropped ex sh R (slot ob ` {Suc i..<Suc i + k}) S1 S2" "\<And>y. y \<in> st_objs S1 - st_objs S2 \<Longrightarrow> rank y < r"
    unfolding frees_def by blast
  have "dropped ex sh R ({?c} \<union> slot ob ` {Suc i..<Suc i + k}) S S2" by (rule dropped_trans [OF S1(3) S2(3) store_graph [OF S1(2)]])
  also have "{?c} \<union> slot ob ` {Suc i..<Suc i + k} = slot ob ` insert i {Suc i..<Suc i + k}" by simp
  also have "insert i {Suc i..<Suc i + k} = {i..<i + Suc k}" by auto
  finally have "dropped ex sh R (slot ob ` {i..<i + Suc k}) S S2" .
  moreover have "drop_embedded n ob (of_nat i) ?h = Inr (st_heap S2)"
    using lt S1(1) S2(1) by (simp add: m addr drop_embedded_loop add.commute)
  ultimately show ?case using S1(4) S2(2,4) unfolding frees_def by blast
qed

lemma drop_one_step:
  assumes "store_inv sh R S" and "ranked rank S" and "c \<in> st_cells R S"
    and "h_cell (st_heap S) c = 0 \<or> rank (h_cell (st_heap S) c) < r" and "Suc (r * 8192) \<le> n"
  shows "frees ex sh R rank r {c} S (drop n c (st_heap S))"
  using assms
proof (induction r arbitrary: S c n)
  case 0
  then show ?case by (cases n) (auto simp: frees_def dropped_def drop_null intro!: exI [of _ S])
next
  case (Suc r)
  let ?h = "st_heap S" and ?ob = "h_cell (st_heap S) c"
  obtain m where m: "n = Suc m" "Suc (r * 8192) + 8190 \<le> m" using Suc.prems(5) by (cases n) auto
  note g = store_graph [OF Suc.prems(1)]
  show ?case
  proof (cases "?ob = 0 \<or> rank ?ob < r")
    case True
    then show ?thesis using frees_mono [OF Suc.IH [OF Suc.prems(1-3)]] Suc.prems(5) by simp
  next
    case False
    then have nz: "?ob \<noteq> 0" and rk: "rank ?ob = r" using Suc.prems(4) by auto
    note H = holder_of [OF g Suc.prems(3) nz]
    have cnt: "get_ref_cnt_from_info (obj_ref_info ?h ?ob) \<noteq> 0"
      using graphD(5,6) [OF g H(1)] by (auto simp: obj_cnt_def)
    note turn = drop_one [OF nz cnt, of m]
    have cslot: "c \<notin> slots ?h ?ob" using rankedD [OF Suc.prems(2) H(1)] nz by blast
    show ?thesis
    proof (cases "1 < card (st_holders R S ?ob)")
      case True
      obtain h' where "unlink c ?ob ?h = Inr h'" "store_inv sh R (S\<lparr>st_heap := h'\<rparr>)" "dropped ex sh R {c} S (S\<lparr>st_heap := h'\<rparr>)"
        using one_of_several [OF Suc.prems(1,3) refl nz True] by blast
      then show ?thesis using H(4) True nz turn unfolding frees_def m(1) by (intro exI [of _ "S\<lparr>st_heap := h'\<rparr>"]) simp
    next
      case once: False
      have "card (st_holders R S ?ob) = 1" using once H(2) by (metis card_eq_0_iff empty_iff finite_holders less_one linorder_neqE_nat)
      then obtain x where "st_holders R S ?ob = {x}" by (rule card_1_singletonE)
      then have hold: "st_holders R S ?ob = {c}" using H(2) by simp
      let ?n = "unat (obj_embedded ?h ?ob)"
      have "frees ex sh R rank r (slot ?ob ` {0..<0 + ?n}) S (drop_embedded m ?ob (of_nat 0) ?h)"
      proof (rule drop_embedded_step [OF Suc.IH])
        show "Suc (r * 8192) + ?n + 1 \<le> m"
          using m(2) embedded_bound [OF graphD(2) [OF g H(1)] live_block [OF graphD(1) [OF g H(1)]]] by simp
      qed (use Suc.prems H(1) rk in simp_all)
      then have "frees ex sh R rank r (slots ?h ?ob) S (drop_embedded m ?ob 0 ?h)" by (simp add: slots_def lessThan_atLeast0)
      then obtain S1 where S1: "drop_embedded m ?ob 0 ?h = Inr (st_heap S1)" "store_inv sh R S1"
        "dropped ex sh R (slots ?h ?ob) S S1" "\<And>y. y \<in> st_objs S - st_objs S1 \<Longrightarrow> rank y < r" unfolding frees_def by blast
      have ob1: "?ob \<in> st_objs S1" using S1(4) [of ?ob] H(1) rk by blast
      have c1: "c \<in> st_cells R S1"
      proof -
        from Suc.prems(3) consider "c \<in> R" | y where "y \<in> st_objs S" "c \<in> slots ?h y" by (auto simp: ref_cells_def)
        then show ?thesis
        proof cases
          case 2
          then have "y \<in> st_objs S1" using rankedD [OF Suc.prems(2) 2 nz] rk S1(4) [of y] by fastforce
          then show ?thesis using 2(2) dropped_slots [OF S1(3)] by (auto simp: ref_cells_def)
        qed (simp add: ref_cells_def)
      qed
      have v1: "h_cell (st_heap S1) c = ?ob" by (rule dropped_cell [OF S1(3) g c1 cslot])
      have hold1: "st_holders R S1 ?ob = {c}" using holder_gone(1) [OF S1(3) g ob1 nz] hold c1 v1 by (auto simp: holders_def)
      obtain S2 where S2: "unlink c ?ob (st_heap S1) = Inr (st_heap S2)" "store_inv sh R S2" "dropped ex sh R {c} S1 S2"
        "st_objs S2 = st_objs S1 - {?ob}"
        using last_one [OF S1(2) c1 v1 nz hold1 holder_gone(2) [OF S1(3) g ob1 nz]] by blast
      have "dropped ex sh R {c} S S2"
        using dropped_less [OF dropped_trans [OF S1(3) S2(3) store_graph [OF S1(2)]] g H(1)] S2(4) by blast
      moreover have "drop n c ?h = Inr (st_heap S2)" using H(4) once nz S1(1) S2(1) v1 turn by (simp add: m(1))
      moreover have "rank y < Suc r" if "y \<in> st_objs S - st_objs S2" for y using that S1(4) [of y] S2(4) rk by fastforce
      ultimately show ?thesis using S2(2) unfolding frees_def by blast
    qed
  qed
qed

end

section \<open>Reachable objects\<close>

inductive reach :: "shm_heap \<Rightarrow> u64 set \<Rightarrow> u64 \<Rightarrow> bool" for h :: shm_heap and R :: "u64 set" where
  root: "c \<in> R \<Longrightarrow> h_cell h c \<noteq> 0 \<Longrightarrow> reach h R (h_cell h c)"
| embedded: "reach h R ob \<Longrightarrow> x \<in> slots h ob \<Longrightarrow> h_cell h x \<noteq> 0 \<Longrightarrow> reach h R (h_cell h x)"

lemma reach_mono: "reach h R ob \<Longrightarrow> R \<subseteq> R' \<Longrightarrow> reach h R' ob"
  by (induction rule: reach.induct) (auto intro: reach.intros)

text \<open>Without cycles the objects of the graph are the reachable ones: nothing leaks, nothing dangles.\<close>

lemma reach_object: "reach h R ob \<Longrightarrow> graph h V R O' \<Longrightarrow> ob \<in> O'"
proof (induction rule: reach.induct)
  case (root c)
  then show ?case using graphD(4) [OF root(3), of c] by (simp add: ref_cells_def)
next
  case (embedded ob x)
  then have "x \<in> ref_cells h R O'" by (auto simp: ref_cells_def)
  then show ?case using graphD(4) [OF embedded(5)] embedded(3) by blast
qed

lemma object_reach:
  assumes g: "graph h V R O'" and r: "\<forall>ob \<in> O'. \<forall>x \<in> slots h ob. h_cell h x \<noteq> 0 \<longrightarrow> rank (h_cell h x) < (rank ob :: nat)"
  shows "ob \<in> O' \<Longrightarrow> reach h R ob"
proof (induction "Max (rank ` O') - rank ob" arbitrary: ob rule: less_induct)
  case less
  note nz = object_nonzero [OF g less(2)]
  obtain x where x: "x \<in> ref_cells h R O'" "h_cell h x = ob" using graphD(6) [OF g less(2)] by (auto simp: holders_def)
  from x(1) consider "x \<in> R" | y where "y \<in> O'" "x \<in> slots h y" by (auto simp: ref_cells_def)
  then show ?case
  proof cases
    case 1
    then show ?thesis using reach.root [OF 1] x(2) nz by blast
  next
    case 2
    have "rank ob < rank y" using r 2 x(2) nz by blast
    moreover have "rank y \<le> Max (rank ` O')" using 2(1) by (simp add: finite)
    ultimately have "Max (rank ` O') - rank y < Max (rank ` O') - rank ob" by (meson diff_less_mono2 less_le_trans)
    then have "reach h R y" using less(1) 2(1) by blast
    then show ?thesis using reach.embedded [OF _ 2(2)] x(2) nz by blast
  qed
qed

lemma objects_reachable:
  assumes "store_inv sh R S" and "ranked rank S"
  shows "st_objs S = {ob. reach (st_heap S) R ob}"
  using reach_object [OF _ store_graph [OF assms(1)]] object_reach [OF store_graph [OF assms(1)]] assms(2)
  unfolding ranked_def by blast

lemma reach_map:
  assumes "reach h R ob" and "\<And>c. c \<in> R \<Longrightarrow> h_cell h c \<noteq> 0 \<Longrightarrow> c \<in> R' \<and> h_cell h' c = h_cell h c"
    and "\<And>y x. reach h R y \<Longrightarrow> reach h' R' y \<Longrightarrow> x \<in> slots h y \<Longrightarrow> h_cell h x \<noteq> 0 \<Longrightarrow> x \<in> slots h' y \<and> h_cell h' x = h_cell h x"
  shows "reach h' R' ob"
  using assms(1)
proof (induction rule: reach.induct)
  case (root c)
  then show ?case using assms(2) reach.root [of c R' h'] by simp
next
  case (embedded y x)
  then show ?case using assms(3) reach.embedded [of h' R' y x] by simp
qed

text \<open>After root cells are dropped the reachable objects are those the other cells reached before.\<close>

lemma reach_less:
  assumes S: "store_inv sh R S" and S': "store_inv sh R S'" and D: "dropped ex sh R X S S'"
    and X: "\<And>x. x \<in> X \<Longrightarrow> root_place (st_heap S) (st_lists S) (st_objs S) x"
  shows "reach (st_heap S') R ob \<longleftrightarrow> reach (st_heap S) (R - X) ob"
proof -
  note g = store_graph [OF S] and g' = store_graph [OF S']
  have c0: "h_cell (st_heap S') x = 0" if "x \<in> X" "x \<in> R" for x using droppedD(3) [OF D that(1)] that(2) by (simp add: ref_cells_def)
  have rt: "h_cell (st_heap S') x = h_cell (st_heap S) x" if "x \<in> R" "x \<notin> X" for x
    using droppedD(4) [OF D graphD(3) [OF g that(1)]] that(2) by simp
  have slot: "slots (st_heap S') y = slots (st_heap S) y" "x \<in> slots (st_heap S) y \<Longrightarrow> h_cell (st_heap S') x = h_cell (st_heap S) x"
    if "y \<in> st_objs S'" for x y
  proof -
    show s: "slots (st_heap S') y = slots (st_heap S) y" by (rule dropped_slots [OF D that])
    assume x: "x \<in> slots (st_heap S) y"
    have "y \<in> st_objs S" using droppedD(1) [OF D] that by blast
    then have "x \<notin> X" using slot_cells_apart(1) [OF g _ x] X by blast
    moreover have "x \<in> st_cells R S'" using x that s by (auto simp: ref_cells_def)
    ultimately show "h_cell (st_heap S') x = h_cell (st_heap S) x" using dropped_cell [OF D g] by blast
  qed
  show ?thesis
  proof
    assume r: "reach (st_heap S') R ob"
    show "reach (st_heap S) (R - X) ob"
      by (rule reach_map [OF r]) (use c0 rt slot reach_object [OF _ g'] in fastforce)+
  next
    assume r: "reach (st_heap S) (R - X) ob"
    show "reach (st_heap S') R ob"
      by (rule reach_map [OF r]) (use rt slot reach_object [OF _ g'] in fastforce)+
  qed
qed

lemma reach_dropped:
  assumes "store_inv sh R S" and "store_inv sh R S'" and "dropped ex sh R {c} S S'" and "c \<in> R"
  shows "reach (st_heap S') R ob \<longleftrightarrow> reach (st_heap S) (R - {c}) ob"
  using graphD(3) [OF store_graph [OF assms(1)] assms(4)] by (intro reach_less [OF assms(1-3)]) simp

section \<open>How deep the recursion goes\<close>

text \<open>Ranks can be taken below the number of objects, and this is bounded by the region.\<close>

lemma block_in_small:
  assumes "block_in h p b"
  shows "b \<in> of_nat ` {..<2 ^ 39}"
proof -
  from assms obtain s j k where k: "s < MAX_SEGMENT_NUM" "j < PAGES_PER_SEGMENT"
    "b = page_area (seg_at s) j + of_nat (k * bsize h p)" "k * bsize h p + bsize h p \<le> 65536"
    by (rule block_inE)
  let ?n = "2 ^ 27 + s * 2 ^ 26 + j * 2 ^ 16 + k * bsize h p"
  have "b = of_nat ?n" unfolding k(3) page_area_nat by simp
  moreover have "?n < 2 ^ 39" using k(1,2,4) by (simp add: layout)
  ultimately show ?thesis by blast
qed

lemma card_objects:
  assumes "O' \<subseteq> live h V"
  shows "card O' < 2 ^ 40"
proof -
  have "O' \<subseteq> of_nat ` {..<2 ^ 39}" using assms live_block block_in_small by blast
  then have "card O' \<le> card (of_nat ` {..<(2 :: nat) ^ 39} :: u64 set)" by (intro card_mono finite_imageI) simp_all
  also have "\<dots> \<le> card {..<(2 :: nat) ^ 39}" by (rule card_image_le) simp
  finally have "card O' \<le> 2 ^ 39" by simp
  then show ?thesis by (rule le_less_trans) simp
qed

definition acyclic_objs :: "store \<Rightarrow> bool" where
  "acyclic_objs S \<longleftrightarrow> (\<exists>rank. ranked rank S)"

lemma bounded_rank:
  assumes S: "store_inv sh R S" and "acyclic_objs S"
  shows "\<exists>rank. ranked rank S \<and> (\<forall>ob \<in> st_objs S. rank ob < 2 ^ 40)"
proof -
  obtain rank where r: "ranked rank S" using assms(2) by (auto simp: acyclic_objs_def)
  define low where "low ob = {y \<in> st_objs S. rank y < rank ob}" for ob
  have fin: "finite (low ob)" for ob by (rule finite)
  note g = store_graph [OF S]
  show ?thesis
  proof (intro exI [of _ "\<lambda>ob. card (low ob)"] conjI ballI)
    show "ranked (\<lambda>ob. card (low ob)) S"
      unfolding ranked_def
    proof (intro ballI impI)
      fix ob x assume x: "ob \<in> st_objs S" "x \<in> slots (st_heap S) ob" "h_cell (st_heap S) x \<noteq> 0"
      have "rank (h_cell (st_heap S) x) < rank ob" by (rule rankedD [OF r x])
      moreover have "x \<in> st_cells R S" using x by (auto simp: ref_cells_def)
      then have "h_cell (st_heap S) x \<in> st_objs S" using graphD(4) [OF g] x(3) by blast
      ultimately have "low (h_cell (st_heap S) x) \<subset> low ob" unfolding low_def by fastforce
      then show "card (low (h_cell (st_heap S) x)) < card (low ob)" by (rule psubset_card_mono [OF fin])
    qed
    show "card (low ob) < 2 ^ 40" if "ob \<in> st_objs S" for ob
    proof (rule card_objects)
      show "low ob \<subseteq> live (st_heap S) (st_lists S)" using graphD(1) [OF g] unfolding low_def by blast
    qed
  qed
qed

context dropper begin

lemma drop_all:
  assumes S: "store_inv sh R S" "acyclic_objs S" and c: "c \<in> st_cells R S" and fuel: "2 ^ 64 \<le> fuel"
  shows "\<exists>S'. drop fuel c (st_heap S) = Inr (st_heap S') \<and> store_inv sh R S' \<and> acyclic_objs S' \<and> dropped ex sh R {c} S S'"
proof -
  obtain rank where r: "ranked rank S" "\<forall>ob \<in> st_objs S. rank ob < 2 ^ 40" using bounded_rank [OF S] by blast
  have "h_cell (st_heap S) c = 0 \<or> rank (h_cell (st_heap S) c) < 2 ^ 40" using r(2) graphD(4) [OF store_graph [OF S(1)] c] by blast
  moreover have "Suc (2 ^ 40 * 8192) \<le> fuel" using fuel by simp
  ultimately have "frees ex sh R rank (2 ^ 40) {c} S (drop fuel c (st_heap S))" by (rule drop_one_step [OF S(1) r(1) c])
  then show ?thesis using ranked_dropped [OF S(1) r(1)] unfolding frees_def acyclic_objs_def by blast
qed

end

interpretation cl: dropper True sh "unlink_reference sh" "cxl_free sh False" "\<lambda>n. test_free n sh" "\<lambda>n. test_free_embedded n sh" for sh
  by unfold_locales simp_all

lemmas drop_step = cl.drop_all

end
