(* ===== verification/Store_Ops.thy ===== *)
theory Store_Ops
  imports Object_Free
begin

text \<open>
  The building blocks of the public operations, each as a step of a store: a write outside the
  references, a new block with empty cells, a new object, a link, the loss of a block.
\<close>

section \<open>Steps of a store\<close>

text \<open>The blocks that are no objects: root references and message queues.\<close>

abbreviation st_plain :: "store \<Rightarrow> u64 set" where "st_plain S \<equiv> st_live S - st_objs S"

abbreviation st_place :: "store \<Rightarrow> u64 \<Rightarrow> bool" where
  "st_place S \<equiv> root_place (st_heap S) (st_lists S) (st_objs S)"

definition stays :: "u64 set \<Rightarrow> store \<Rightarrow> store \<Rightarrow> bool" where
  "stays X S S' \<longleftrightarrow> (\<forall>c < SEGMENTS_AREA_START. c \<notin> X \<longrightarrow> h_cell (st_heap S') c = h_cell (st_heap S) c)
     \<and> (\<forall>b \<in> st_plain S \<inter> st_plain S'. bsize (st_heap S') (cxl_ptr_page b) = bsize (st_heap S) (cxl_ptr_page b)
       \<and> pg_is_msg_queue_page (h_page (st_heap S') (cxl_ptr_page b)) = pg_is_msg_queue_page (h_page (st_heap S) (cxl_ptr_page b))
       \<and> (\<forall>d < bsize (st_heap S) (cxl_ptr_page b). b + of_nat d \<notin> X
            \<longrightarrow> h_cell (st_heap S') (b + of_nat d) = h_cell (st_heap S) (b + of_nat d)))"

lemma staysD:
  assumes "stays X S S'"
  shows "c < SEGMENTS_AREA_START \<Longrightarrow> c \<notin> X \<Longrightarrow> h_cell (st_heap S') c = h_cell (st_heap S) c"
    and "b \<in> st_plain S \<Longrightarrow> b \<in> st_plain S' \<Longrightarrow> bsize (st_heap S') (cxl_ptr_page b) = bsize (st_heap S) (cxl_ptr_page b)"
    and "b \<in> st_plain S \<Longrightarrow> b \<in> st_plain S'
      \<Longrightarrow> pg_is_msg_queue_page (h_page (st_heap S') (cxl_ptr_page b)) = pg_is_msg_queue_page (h_page (st_heap S) (cxl_ptr_page b))"
    and "b \<in> st_plain S \<Longrightarrow> b \<in> st_plain S' \<Longrightarrow> d < bsize (st_heap S) (cxl_ptr_page b) \<Longrightarrow> b + of_nat d \<notin> X
      \<Longrightarrow> h_cell (st_heap S') (b + of_nat d) = h_cell (st_heap S) (b + of_nat d)"
  using assms unfolding stays_def by blast+

lemma stays_trans:
  assumes 1: "stays X S S1" and 2: "stays Y S1 S2" and b: "st_plain S \<inter> st_plain S2 \<subseteq> st_plain S1"
  shows "stays (X \<union> Y) S S2"
  unfolding stays_def
proof (intro conjI ballI allI impI)
  show "h_cell (st_heap S2) c = h_cell (st_heap S) c" if "c < SEGMENTS_AREA_START" "c \<notin> X \<union> Y" for c
    using staysD(1) [OF 1] staysD(1) [OF 2] that by simp
  fix x assume "x \<in> st_plain S \<inter> st_plain S2"
  then have x: "x \<in> st_plain S" "x \<in> st_plain S1" "x \<in> st_plain S2" using b by blast+
  show "bsize (st_heap S2) (cxl_ptr_page x) = bsize (st_heap S) (cxl_ptr_page x)"
    using staysD(2) [OF 1 x(1,2)] staysD(2) [OF 2 x(2,3)] by simp
  show "pg_is_msg_queue_page (h_page (st_heap S2) (cxl_ptr_page x)) = pg_is_msg_queue_page (h_page (st_heap S) (cxl_ptr_page x))"
    using staysD(3) [OF 1 x(1,2)] staysD(3) [OF 2 x(2,3)] by simp
  show "h_cell (st_heap S2) (x + of_nat d) = h_cell (st_heap S) (x + of_nat d)"
    if "d < bsize (st_heap S) (cxl_ptr_page x)" "x + of_nat d \<notin> X \<union> Y" for d
    using staysD(4) [OF 1 x(1,2), of d] staysD(4) [OF 2 x(2,3), of d] staysD(2) [OF 1 x(1,2)] that by simp
qed

lemma stays_dropped: "dropped True sh R X S S' \<Longrightarrow> stays X S S'"
  unfolding stays_def using droppedD(4) [of True sh R X S S'] droppedD(7,8) [of True sh R X S S']
  by (auto simp: root_place_def)

text \<open>
  Many steps change only cells and the client's own log.
\<close>

lemma stays_log:
  assumes "log_only sh (st_heap S) h'" and "live h' (st_lists S) = st_live S"
    and "\<And>x. st_place S x \<Longrightarrow> x \<notin> X \<Longrightarrow> h_cell h' x = h_cell (st_heap S) x"
  shows "stays X S (S\<lparr>st_heap := h'\<rparr>)"
proof -
  have "same_shape (st_heap S) h'" using assms(1) by (intro same_shape_page) (simp add: log_only_def)
  then show ?thesis using assms(2,3) by (auto simp: stays_def same_shapeD root_place_def)
qed

definition step_ok :: "cxl_shm \<Rightarrow> u64 set \<Rightarrow> store \<Rightarrow> u64 set \<Rightarrow> store \<Rightarrow> bool" where
  "step_ok sh X S R' S' \<longleftrightarrow> store_inv sh R' S' \<and> acyclic_objs S' \<and> others_ok sh (st_heap S) (st_heap S') \<and> stays X S S'"

lemma step_okD:
  assumes "step_ok sh X S R' S'"
  shows "store_inv sh R' S'" "acyclic_objs S'" "others_ok sh (st_heap S) (st_heap S')" "stays X S S'"
  using assms by (simp_all add: step_ok_def)

lemma step_ok_trans:
  assumes "step_ok sh X S R1 S1" and "step_ok sh Y S1 R2 S2" and "st_plain S \<inter> st_plain S2 \<subseteq> st_plain S1"
  shows "step_ok sh (X \<union> Y) S R2 S2"
  using assms stays_trans [OF step_okD(4) [OF assms(1)] step_okD(4) [OF assms(2)] assms(3)]
    others_ok_trans [OF step_okD(3) [OF assms(1)] step_okD(3) [OF assms(2)]]
  by (simp add: step_ok_def)

lemma acyclic_less:
  assumes "acyclic_objs S" and "st_objs S' \<subseteq> st_objs S"
    and "\<And>ob x. ob \<in> st_objs S' \<Longrightarrow> x \<in> slots (st_heap S') ob
      \<Longrightarrow> x \<in> slots (st_heap S) ob \<and> (h_cell (st_heap S') x = h_cell (st_heap S) x \<or> h_cell (st_heap S') x = 0)"
  shows "acyclic_objs S'"
proof -
  obtain rank where "ranked rank S" using assms(1) by (auto simp: acyclic_objs_def)
  then have "ranked rank S'" unfolding ranked_def using assms(2,3) by fastforce
  then show ?thesis by (auto simp: acyclic_objs_def)
qed

section \<open>Writes outside the references\<close>

lemma graph_write:
  assumes g: "graph h V R O'" and pg: "h_page h' = h_page h"
    and X: "\<And>x. x \<in> X \<Longrightarrow> root_place h V O' x" "X \<inter> R = {}" and w: "\<And>x. x \<notin> X \<Longrightarrow> h_cell h' x = h_cell h x"
  shows "graph h' V R O'" and "ob \<in> O' \<Longrightarrow> slots h' ob = slots h ob" and "ob \<in> O' \<Longrightarrow> x \<in> slots h ob \<Longrightarrow> h_cell h' x = h_cell h x"
proof -
  have ss: "same_shape h h'" by (rule same_shape_page [OF pg])
  have hd: "h_cell h' (ob + of_nat d) = h_cell h (ob + of_nat d)" if "ob \<in> O'" "d < 24" for ob d
  proof -
    have b: "block_in h (cxl_ptr_page ob) ob" "24 \<le> bsize h (cxl_ptr_page ob)"
      using graphD(1,2) [OF g that(1)] by (simp_all add: live_def object_at_def freeable_def)
    have "\<not> root_place h V O' (ob + of_nat d)"
      using block_high [OF b(1), of d] blocks_apart [OF live_block b(1), of _ _ _ d] b(2) that unfolding root_place_def by fastforce
    then show ?thesis using w X(1) by blast
  qed
  have emb: "obj_embedded h' ob = obj_embedded h ob" "obj_cnt h' ob = obj_cnt h ob" if "ob \<in> O'" for ob
    using hd [OF that, of 16] hd [OF that, of 8] by (simp_all add: obj_embedded_def obj_cnt_def obj_ref_info_def)
  show sl: "slots h' ob = slots h ob" if "ob \<in> O'" for ob using emb(1) [OF that] by (simp add: slots_def)
  show slx: "h_cell h' x = h_cell h x" if "ob \<in> O'" "x \<in> slots h ob" for ob x
    using slot_cells_apart(1) [OF g that] X(1) w by blast
  have cells: "ref_cells h' R O' = ref_cells h R O'" using sl by (simp add: ref_cells_def)
  have same: "h_cell h' x = h_cell h x" if "x \<in> ref_cells h R O'" for x
    using that slx X(2) w by (auto simp: ref_cells_def)
  have hold: "holders h' R O' ob = holders h R O' ob" for ob unfolding holders_def cells using same by auto
  have live: "live h' V = live h V" by (simp add: live_def same_shapeD [OF ss])
  have place: "root_place h' V O' = root_place h V O'" by (simp add: fun_eq_iff root_place_def live same_shapeD [OF ss])
  have at: "object_at h' ob \<longleftrightarrow> object_at h ob" if "ob \<in> O'" for ob
    using emb(1) [OF that] by (simp add: object_at_def freeable_def same_shapeD [OF ss])
  show "graph h' V R O'" using g unfolding graph_def hold place cells live by (simp add: at emb same)
qed

lemma write_ok:
  assumes S: "store_inv sh R S" "acyclic_objs S" and l: "log_only sh (st_heap S) h'"
    and X: "\<And>x. x \<in> X \<Longrightarrow> st_place S x" "X \<inter> R = {}" and w: "\<And>x. x \<notin> X \<Longrightarrow> h_cell h' x = h_cell (st_heap S) x"
  shows "step_ok sh X S R (S\<lparr>st_heap := h'\<rparr>)" and "live h' (st_lists S) = st_live S"
proof -
  let ?h = "st_heap S" and ?V = "st_lists S" and ?O = "st_objs S"
  have inv: "client_inv sh ?h ?V (st_pool S)" and g: "graph ?h ?V R ?O" and nl: "no_leak ?h"
    using S(1) by (simp_all add: store_inv_def)
  have A: "alloc_inv ?h ?V" using inv by (simp add: client_inv_def)
  have pg: "h_page h' = h_page ?h" using l by (simp add: log_only_def)
  have keep: "h_cell h' x = h_cell ?h x" if "listed ?V x" for x
    using that root_place_unlisted [OF A] X(1) w by blast
  have L: "client_inv sh h' ?V (st_pool S)" "live h' ?V = st_live S" "others_ok sh ?h h'"
    by (rule log_only_client [OF inv l keep]; assumption)+
  show "live h' ?V = st_live S" by (rule L)
  note G = graph_write [OF g pg X w]
  have "no_leak h'" by (rule no_leak_others [OF nl L(3)])
  moreover have "acyclic_objs (S\<lparr>st_heap := h'\<rparr>)" by (rule acyclic_less [OF S(2)]) (use G(2,3) in auto)
  moreover have "stays X S (S\<lparr>st_heap := h'\<rparr>)" by (rule stays_log [OF l L(2)]) (simp add: w)
  ultimately show "step_ok sh X S R (S\<lparr>st_heap := h'\<rparr>)" using L(1,3) G(1) by (simp add: step_ok_def store_inv_def)
qed

section \<open>Links and drops\<close>

text \<open>A link writes its cell and the header of its object.\<close>

lemma link_cells:
  assumes g: "graph (st_heap S) (st_lists S) R (st_objs S)" and ob: "ob \<in> st_objs S" and c: "c \<in> st_cells R S"
  shows "h_cell (link_reference sh c ob (st_heap S)) c = ob"
    and "st_place S x \<Longrightarrow> x \<noteq> c \<Longrightarrow> h_cell (link_reference sh c ob (st_heap S)) x = h_cell (st_heap S) x"
    and "y \<in> st_objs S \<Longrightarrow> obj_embedded (link_reference sh c ob (st_heap S)) y = obj_embedded (st_heap S) y"
    and "x \<in> st_cells R S \<Longrightarrow> x \<noteq> c \<Longrightarrow> h_cell (link_reference sh c ob (st_heap S)) x = h_cell (st_heap S) x"
proof -
  have b: "block_in (st_heap S) (cxl_ptr_page ob) ob" "24 \<le> bsize (st_heap S) (cxl_ptr_page ob)"
    using graphD(1,2) [OF g ob] by (simp_all add: live_def object_at_def freeable_def)
  show "h_cell (link_reference sh c ob (st_heap S)) c = ob" by (simp add: link_heap)
  show "h_cell (link_reference sh c ob (st_heap S)) x = h_cell (st_heap S) x" if "st_place S x" "x \<noteq> c"
  proof -
    have "x \<noteq> ob + of_nat 8"
      using that(1) block_high [OF b(1), of 8] blocks_apart [OF live_block b(1), of _ _ _ 8] b(2) ob unfolding root_place_def by fastforce
    then show ?thesis using that(2) by (simp add: link_heap)
  qed
  show "obj_embedded (link_reference sh c ob (st_heap S)) y = obj_embedded (st_heap S) y" if "y \<in> st_objs S"
    using cell_outside [OF g c that, of 16] header_apart [OF g that ob, of 16 8] by (auto simp: obj_embedded_def link_heap)
  show "h_cell (link_reference sh c ob (st_heap S)) x = h_cell (st_heap S) x" if "x \<in> st_cells R S" "x \<noteq> c"
    using cell_outside [OF g that(1) ob, of 8] that(2) by (simp add: link_heap)
qed

lemma link_ok:
  assumes S: "store_inv sh R S" and c: "c \<in> st_cells R S" "h_cell (st_heap S) c = 0" and ob: "ob \<in> st_objs S"
    and few: "card (st_holders R S ob) < 65535"
    and acyclic: "acyclic_objs (S\<lparr>st_heap := link_reference sh c ob (st_heap S)\<rparr>)"
  shows "step_ok sh {c} S R (S\<lparr>st_heap := link_reference sh c ob (st_heap S)\<rparr>)"
    and "live (link_reference sh c ob (st_heap S)) (st_lists S) = st_live S"
proof -
  note g = store_graph [OF S]
  note L = link_cells [OF g ob c(1)]
  note W = ref_write [OF S c(1) ob link_heap]
  show "live (link_reference sh c ob (st_heap S)) (st_lists S) = st_live S" by (rule W(2))
  have "stays {c} S (S\<lparr>st_heap := link_reference sh c ob (st_heap S)\<rparr>)"
    by (rule stays_log [OF link_heap(1) W(2)]) (simp add: L(2))
  then show "step_ok sh {c} S R (S\<lparr>st_heap := link_reference sh c ob (st_heap S)\<rparr>)"
    using graph_link [OF S c ob few] W(4) acyclic by (simp add: step_ok_def)
qed

text \<open>A link in a cell outside the objects makes no cycle.\<close>

lemma link_root_ok:
  assumes S: "store_inv sh R S" "acyclic_objs S" and c: "c \<in> R" "h_cell (st_heap S) c = 0" and ob: "ob \<in> st_objs S"
    and few: "card (st_holders R S ob) < 65535"
  shows "step_ok sh {c} S R (S\<lparr>st_heap := link_reference sh c ob (st_heap S)\<rparr>)"
proof -
  note g = store_graph [OF S(1)]
  have cc: "c \<in> st_cells R S" using c(1) by (simp add: ref_cells_def)
  note L = link_cells [OF g ob cc]
  have "acyclic_objs (S\<lparr>st_heap := link_reference sh c ob (st_heap S)\<rparr>)"
  proof (rule acyclic_less [OF S(2)]; simp)
    fix y x assume y: "y \<in> st_objs S" and x: "x \<in> slots (link_reference sh c ob (st_heap S)) y"
    have "slots (link_reference sh c ob (st_heap S)) y = slots (st_heap S) y" using L(3) [OF y] by (simp add: slots_def)
    then have x': "x \<in> slots (st_heap S) y" using x by simp
    then have "x \<in> st_cells R S" using y by (auto simp: ref_cells_def)
    moreover have "x \<noteq> c" using slot_cells_apart(1) [OF g y x'] graphD(3) [OF g c(1)] by blast
    ultimately show "x \<in> slots (st_heap S) y \<and> (h_cell (link_reference sh c ob (st_heap S)) x = h_cell (st_heap S) x
        \<or> h_cell (link_reference sh c ob (st_heap S)) x = 0)"
      using L(4) x' by blast
  qed
  then show ?thesis by (rule link_ok [OF S(1) cc c(2) ob few])
qed

lemma step_dropped:
  assumes "store_inv sh R S" "acyclic_objs S" "store_inv sh R S'" "dropped True sh R X S S'"
  shows "step_ok sh X S R S'"
proof -
  obtain rank where "ranked rank S" using assms(2) by (auto simp: acyclic_objs_def)
  then have "acyclic_objs S'" using ranked_dropped [OF assms(1) _ assms(4)] by (auto simp: acyclic_objs_def)
  then show ?thesis using assms(3,4) droppedD(9) [OF assms(4)] stays_dropped [OF assms(4)] by (simp add: step_ok_def)
qed

section \<open>Blocks come and go\<close>

text \<open>A new block with empty cells that count as references from now on.\<close>

lemma slots_keep:
  assumes g: "graph h V R O'" and K: "keeps L h h'" and ob: "ob \<in> O'" "ob \<in> L"
  shows "slots h' ob = slots h ob" "x \<in> slots h ob \<Longrightarrow> h_cell h' x = h_cell h x" "obj_embedded h' ob = obj_embedded h ob"
    "obj_cnt h' ob = obj_cnt h ob" "object_at h' ob"
proof -
  have at: "object_at h ob" by (rule graphD(2) [OF g ob(1)])
  then have b: "24 \<le> bsize h (cxl_ptr_page ob)" by (simp add: object_at_def freeable_def)
  show e: "obj_embedded h' ob = obj_embedded h ob" "obj_cnt h' ob = obj_cnt h ob"
    using keepsD(4) [OF K ob(2), of 16] keepsD(4) [OF K ob(2), of 8] b by (simp_all add: obj_embedded_def obj_cnt_def obj_ref_info_def)
  then show "slots h' ob = slots h ob" by (simp add: slots_def)
  show "h_cell h' x = h_cell h x" if x: "x \<in> slots h ob"
  proof -
    from slot_inside [OF at x] obtain d where "x = ob + of_nat d" "d + 8 \<le> bsize h (cxl_ptr_page ob)" by blast
    then show ?thesis using keepsD(4) [OF K ob(2), of d] by simp
  qed
  show "object_at h' ob" using at e keepsD(2,3) [OF K ob(2)] by (simp add: object_at_def freeable_def)
qed

lemma keeps_place:
  assumes K: "keeps L h h'" and x: "root_place h V O' x" and L: "live h V - O' \<subseteq> L"
  shows "h_cell h' x = h_cell h x"
  using x keepsD(1,4) [OF K] L unfolding root_place_def by blast

lemma object_at_nonzero: "object_at h ob \<Longrightarrow> ob \<in> live h V \<Longrightarrow> ob \<noteq> 0"
  using block_high [OF live_block, of ob h V 0] by (auto simp: object_at_def freeable_def layout)

lemma graph_grow:
  assumes g: "graph h V R O'"
    and new: "live h' V' = live h V \<union> (B \<union> N)" "live h V \<inter> (B \<union> N) = {}" "B \<inter> N = {}" and K: "keeps (live h V) h h'"
    and C: "\<And>x. x \<in> C \<Longrightarrow> \<exists>b \<in> B. \<exists>d < bsize h' (cxl_ptr_page b). x = b + of_nat d" "\<And>x. x \<in> C \<Longrightarrow> h_cell h' x = 0 \<or> h_cell h' x \<in> N"
    and N: "\<And>ob. ob \<in> N \<Longrightarrow> object_at h' ob" "\<And>ob x. ob \<in> N \<Longrightarrow> x \<in> slots h' ob \<Longrightarrow> h_cell h' x = 0"
      "\<And>ob. ob \<in> N \<Longrightarrow> obj_cnt h' ob = card {x \<in> C. h_cell h' x = ob} \<and> {x \<in> C. h_cell h' x = ob} \<noteq> {}"
  shows "graph h' V' (R \<union> C) (O' \<union> N)"
proof -
  let ?O' = "O' \<union> N"
  have sub: "O' \<subseteq> live h V" using graphD(1) [OF g] by blast
  have apart: "O' \<inter> N = {}" using sub new(2) by blast
  note O = slots_keep [OF g K _ subsetD [OF sub]]
  have place: "root_place h' V' ?O' x" if "root_place h V O' x" for x
  proof -
    have "b2 \<in> live h' V' - ?O' \<and> bsize h' (cxl_ptr_page b2) = bsize h (cxl_ptr_page b2)" if "b2 \<in> live h V - O'" for b2
      using that new keepsD(2) [OF K] by auto
    then show ?thesis using that unfolding root_place_def by metis
  qed
  have old: "h_cell h' x = h_cell h x" if "x \<in> ref_cells h R O'" for x
  proof -
    from that consider "x \<in> R" | ob where "ob \<in> O'" "x \<in> slots h ob" by (auto simp: ref_cells_def)
    then show ?thesis using O(2) keeps_place [OF K graphD(3) [OF g]] by cases blast+
  qed
  have val: "h_cell h' x = 0 \<or> h_cell h' x \<in> O'" if "x \<in> ref_cells h R O'" for x using old [OF that] graphD(4) [OF g that] by auto
  define T where "T = (\<Union>ob \<in> N. slots h' ob)"
  have T: "h_cell h' x = 0" if "x \<in> T" for x using that N(2) by (auto simp: T_def)
  have cells: "ref_cells h' (R \<union> C) ?O' = ref_cells h R O' \<union> C \<union> T" using O(1) by (auto simp: ref_cells_def T_def)
  have nz: "ob \<noteq> 0" if "ob \<in> N" for ob using object_at_nonzero [OF N(1) [OF that], of V'] that new(1) by blast
  have hold: "holders h' (R \<union> C) ?O' ob = holders h R O' ob" if ob: "ob \<in> O'" for ob
  proof
    have n: "ob \<noteq> 0" "ob \<notin> N" using object_nonzero [OF g ob] ob apart by blast+
    show "holders h' (R \<union> C) ?O' ob \<subseteq> holders h R O' ob" unfolding holders_def cells using old C(2) T n by auto
    show "holders h R O' ob \<subseteq> holders h' (R \<union> C) ?O' ob" unfolding holders_def cells using old by auto
  qed
  have hold2: "holders h' (R \<union> C) ?O' ob = {x \<in> C. h_cell h' x = ob}" if ob: "ob \<in> N" for ob
  proof
    have "ob \<notin> O'" using ob apart by blast
    then show "holders h' (R \<union> C) ?O' ob \<subseteq> {x \<in> C. h_cell h' x = ob}" unfolding holders_def cells using val T nz [OF ob] by auto
    show "{x \<in> C. h_cell h' x = ob} \<subseteq> holders h' (R \<union> C) ?O' ob" unfolding holders_def cells by auto
  qed
  show "graph h' V' (R \<union> C) ?O'"
    unfolding graph_def
  proof (intro conjI ballI)
    show "?O' \<subseteq> live h' V'" using sub new(1) by blast
    show "object_at h' ob" if "ob \<in> ?O'" for ob using O(5) N(1) that by blast
    show "root_place h' V' ?O' x" if x: "x \<in> R \<union> C" for x
    proof (cases "x \<in> C")
      case True
      have "B \<subseteq> live h' V' - ?O'" using new sub by blast
      then show ?thesis using C(1) [OF True] unfolding root_place_def by blast
    qed (use x place graphD(3) [OF g] in blast)
    show "h_cell h' x = 0 \<or> h_cell h' x \<in> ?O'" if "x \<in> ref_cells h' (R \<union> C) ?O'" for x
      using that C(2) val T unfolding cells by blast
    fix ob assume "ob \<in> ?O'"
    then consider "ob \<in> O'" | "ob \<in> N" by blast
    then have "obj_cnt h' ob = card (holders h' (R \<union> C) ?O' ob) \<and> holders h' (R \<union> C) ?O' ob \<noteq> {}"
    proof cases
      case 1
      then show ?thesis using O(4) [OF 1 1] graphD(5,6) [OF g 1] hold [OF 1] by simp
    next
      case 2
      then show ?thesis using N(3) [OF 2] hold2 [OF 2] by simp
    qed
    then show "obj_cnt h' ob = card (holders h' (R \<union> C) ?O' ob)" "holders h' (R \<union> C) ?O' ob \<noteq> {}" by blast+
  qed
qed

lemma grow_ok:
  assumes S: "store_inv sh R S" "acyclic_objs S" and inv: "client_inv sh h' V' P'" and oth: "others_ok sh (st_heap S) h'"
    and new: "live h' V' = st_live S \<union> (B \<union> N)" "st_live S \<inter> (B \<union> N) = {}" "B \<inter> N = {}" and K: "keeps (st_live S) (st_heap S) h'"
    and C: "\<And>x. x \<in> C \<Longrightarrow> \<exists>b \<in> B. \<exists>d < bsize h' (cxl_ptr_page b). x = b + of_nat d" "\<And>x. x \<in> C \<Longrightarrow> h_cell h' x = 0 \<or> h_cell h' x \<in> N"
    and N: "\<And>ob. ob \<in> N \<Longrightarrow> object_at h' ob" "\<And>ob x. ob \<in> N \<Longrightarrow> x \<in> slots h' ob \<Longrightarrow> h_cell h' x = 0"
      "\<And>ob. ob \<in> N \<Longrightarrow> obj_cnt h' ob = card {x \<in> C. h_cell h' x = ob} \<and> {x \<in> C. h_cell h' x = ob} \<noteq> {}"
  shows "step_ok sh {} S (R \<union> C) \<lparr>st_heap = h', st_lists = V', st_pool = P', st_objs = st_objs S \<union> N\<rparr>"
proof -
  let ?S = "\<lparr>st_heap = h', st_lists = V', st_pool = P', st_objs = st_objs S \<union> N\<rparr>"
  have g: "graph (st_heap S) (st_lists S) R (st_objs S)" and nl: "no_leak (st_heap S)" using S(1) by (simp_all add: store_inv_def)
  have sub: "st_objs S \<subseteq> st_live S" using graphD(1) [OF g] by blast
  note O = slots_keep [OF g K _ subsetD [OF sub]]
  have "graph h' V' (R \<union> C) (st_objs S \<union> N)" by (rule graph_grow [OF g new K C N])
  moreover have "acyclic_objs ?S"
  proof -
    obtain rank where "ranked rank S" using S(2) by (auto simp: acyclic_objs_def)
    then have "ranked rank ?S" using O(1,2) N(2) by (auto simp: ranked_def)
    then show ?thesis by (auto simp: acyclic_objs_def)
  qed
  moreover have "stays {} S ?S" unfolding stays_def using keepsD [OF K] by auto
  ultimately show ?thesis using inv oth no_leak_others [OF nl oth] by (simp add: step_ok_def store_inv_def)
qed

text \<open>A block that is no object goes, with cells that hold nothing.\<close>

lemma root_placeI: "b \<in> live h V - O' \<Longrightarrow> d < bsize h (cxl_ptr_page b) \<Longrightarrow> root_place h V O' (b + of_nat d)"
  unfolding root_place_def by blast

lemma remove_ok:
  assumes S: "store_inv sh R S" "acyclic_objs S" and inv: "client_inv sh h' V' P'" and oth: "others_ok sh (st_heap S) h'"
    and b: "b \<in> st_plain S" "live h' V' = st_live S - {b}" and K: "keeps (st_live S - {b}) (st_heap S) h'"
    and C: "\<And>x. x \<in> C \<Longrightarrow> h_cell (st_heap S) x = 0"
      "\<And>x d. x \<in> R \<Longrightarrow> d < bsize (st_heap S) (cxl_ptr_page b) \<Longrightarrow> x = b + of_nat d \<Longrightarrow> x \<in> C"
  shows "step_ok sh {} S (R - C) \<lparr>st_heap = h', st_lists = V', st_pool = P', st_objs = st_objs S\<rparr>"
proof -
  let ?h = "st_heap S" and ?V = "st_lists S" and ?O = "st_objs S"
  have g: "graph ?h ?V R ?O" and nl: "no_leak ?h" using S(1) by (simp_all add: store_inv_def)
  have sub: "ob \<in> st_live S - {b}" if "ob \<in> ?O" for ob using graphD(1) [OF g that] b(1) that by blast
  note O = slots_keep [OF g K _ sub]
  have root: "root_place h' V' ?O x \<and> h_cell h' x = h_cell ?h x" if "x \<in> R - C" for x
  proof -
    have "st_place S x" using graphD(3) [OF g] that by blast
    then show ?thesis unfolding root_place_def [of ?h]
    proof (elim disjE bexE exE conjE)
      assume "x < SEGMENTS_AREA_START"
      then show ?thesis using keepsD(1) [OF K] by (simp add: root_place_def)
    next
      fix b2 d assume b2: "b2 \<in> st_live S - ?O" "d < bsize ?h (cxl_ptr_page b2)" "x = b2 + of_nat d"
      then have "b2 \<noteq> b" using C(2) [of x d] that by auto
      then have l: "b2 \<in> live h' V' - ?O" "b2 \<in> st_live S - {b}" using b(2) b2(1) by blast+
      have "root_place h' V' ?O (b2 + of_nat d)" by (rule root_placeI [OF l(1)]) (simp add: keepsD(2) [OF K l(2)] b2(2))
      then show ?thesis using keepsD(4) [OF K l(2) b2(2)] b2(3) by simp
    qed
  qed
  have cells: "ref_cells h' (R - C) ?O = (R - C) \<union> (\<Union>ob \<in> ?O. slots ?h ob)" using O(1) by (simp add: ref_cells_def)
  have old: "x \<in> st_cells R S \<and> h_cell h' x = h_cell ?h x" if "x \<in> ref_cells h' (R - C) ?O" for x
    using that root O(2) unfolding cells by (auto simp: ref_cells_def)
  have hold: "holders h' (R - C) ?O ob = st_holders R S ob" if ob: "ob \<in> ?O" for ob
  proof
    show "holders h' (R - C) ?O ob \<subseteq> st_holders R S ob" using old by (auto simp: holders_def)
    show "st_holders R S ob \<subseteq> holders h' (R - C) ?O ob"
    proof
      fix x assume x: "x \<in> st_holders R S ob"
      then have "x \<notin> C" using C(1) object_nonzero [OF g ob] by (auto simp: holders_def)
      then have "x \<in> ref_cells h' (R - C) ?O" using x unfolding cells by (auto simp: holders_def ref_cells_def)
      then show "x \<in> holders h' (R - C) ?O ob" using x old by (simp add: holders_def)
    qed
  qed
  have "graph h' V' (R - C) ?O"
    unfolding graph_def
  proof (intro conjI ballI)
    show "?O \<subseteq> live h' V'" using sub b(2) by blast
    show "object_at h' ob" if "ob \<in> ?O" for ob using O(5) that by blast
    show "root_place h' V' ?O x" if "x \<in> R - C" for x using root that by blast
    show "h_cell h' x = 0 \<or> h_cell h' x \<in> ?O" if "x \<in> ref_cells h' (R - C) ?O" for x using old [OF that] graphD(4) [OF g, of x] by auto
    show "obj_cnt h' ob = card (holders h' (R - C) ?O ob)" "holders h' (R - C) ?O ob \<noteq> {}" if "ob \<in> ?O" for ob
      using O(4) [OF that that] graphD(5,6) [OF g that] hold [OF that] by simp_all
  qed
  moreover have "acyclic_objs \<lparr>st_heap = h', st_lists = V', st_pool = P', st_objs = ?O\<rparr>"
    by (rule acyclic_less [OF S(2)]) (use O(1,2) in auto)
  moreover have "stays {} S \<lparr>st_heap = h', st_lists = V', st_pool = P', st_objs = ?O\<rparr>"
    unfolding stays_def using keepsD [OF K] b(2) by auto
  ultimately show ?thesis using inv oth no_leak_others [OF nl oth] by (simp add: step_ok_def store_inv_def)
qed

end
