(* ===== verification/Queue_Alloc.thy ===== *)
theory Queue_Alloc
  imports Malloc_Total Msg_Transfer
begin

text \<open>
  Taking a block from a page and writing to it, whatever it becomes; allocating a message queue.
\<close>

lemma take_client:
  assumes inv: "client_inv sh h V P" and p: "p \<in> set (po_bin P i)" "i < CXL_BIN_SIZE" and f: "bl_free V p = b # fs"
    and pg: "h_page h' = h_page (take_block b p h)" and eq: "h_tls h' = h_tls h" "h_seg h' = h_seg h" "h_sas h' = h_sas h"
    and cells: "\<And>c. (\<And>e. e < bsize h p \<Longrightarrow> c \<noteq> b + of_nat e) \<Longrightarrow> h_cell h' c = h_cell h c"
  shows "client_inv sh h' (drop_free p V) P" "live h' (drop_free p V) = insert b (live h V)" "b \<notin> live h V"
    "keeps (live h V) h h'" "bsize h' (cxl_ptr_page b) = bin_bytes i" "pg_is_msg_queue_page (h_page h' (cxl_ptr_page b)) \<longleftrightarrow> i = 1"
    "others_ok sh h h'"
proof -
  have A: "alloc_inv h V" and pi: "pool_inv sh h P" using inv by (simp_all add: client_inv_def)
  note T = alloc_inv_take [OF A f]
  have V': "V\<lparr>bl_free := (bl_free V)(p := fs)\<rparr> = drop_free p V" using f by (simp add: drop_free_def)
  have ss: "same_shape h h'" by (simp add: same_shape_def pg)
  have ss1: "same_shape h (take_block b p h)" by (simp add: same_shape_def)
  have b1: "block_in (take_block b p h) p b" using T(3) by (simp add: same_shapeD [OF ss1])
  have "alloc_inv h' (drop_free p V)"
  proof (rule alloc_inv_cells [OF T(1) [unfolded V'] pg])
    show "h_sas h' = h_sas (take_block b p h)" by (simp add: eq)
    fix x assume x: "listed (drop_free p V) x"
    have "x \<noteq> b + of_nat e" if "e < bsize h p" for e
      using block_write_misses [OF T(1) [unfolded V'] b1 T(2) [unfolded V'] _ x, of e] that by (simp add: same_shapeD [OF ss1])
    then show "h_cell h' x = h_cell (take_block b p h) x" using cells by simp
  qed
  moreover have "pool_inv sh h' P" by (rule pool_inv_pages [OF pi ss]) (simp_all add: eq)
  ultimately show "client_inv sh h' (drop_free p V) P" by (simp add: client_inv_def)
  show L: "live h' (drop_free p V) = insert b (live h V)" "b \<notin> live h V"
    by (rule live_take [OF A f]; simp add: same_shapeD [OF ss])+
  show "keeps (live h V) h h'" by (rule keeps_write [OF T(3) order.refl L(2) ss cells])
  have q: "cxl_ptr_page b = p" by (rule block_in_ptr_page [OF T(3)])
  show "bsize h' (cxl_ptr_page b) = bin_bytes i" using pool_bin_size [OF pi p] by (simp add: q same_shapeD [OF ss])
  show "pg_is_msg_queue_page (h_page h' (cxl_ptr_page b)) \<longleftrightarrow> i = 1" using pool_bin_kind [OF pi p] by (simp add: q pg)
  show "others_ok sh h h'" by (rule others_ok_pages [OF ss]) (simp_all add: eq)
qed

section \<open>A queue\<close>

text \<open>An empty queue: no message, no receiver, not in a list.\<close>

lemma msg_queue_cells:
  assumes "cxl_ptr_page b = p" and "h' = block_to_msg_queue b sid rid h"
  shows "h_page h' = h_page (take_block b p h)" "h_tls h' = h_tls h" "h_seg h' = h_seg h" "h_sas h' = h_sas h" "h_era h' = h_era h"
    "mq_start h' b = 0" "mq_end h' b = 0" "i < 16 \<Longrightarrow> h_cell h' (mq_slot b (of_nat i)) = 0" "mq_receiver_id h' b = 0"
    "(\<And>e. e < 192 \<Longrightarrow> c \<noteq> b + of_nat e) \<Longrightarrow> h_cell h' c = h_cell h c"
proof -
  show "h_page h' = h_page (take_block b p h)" "h_tls h' = h_tls h" "h_seg h' = h_seg h" "h_sas h' = h_sas h" "h_era h' = h_era h"
    using assms by (simp_all add: block_to_msg_queue_def Let_def set_mq_sender_id_def set_mq_receiver_id_def)
  have z: "zero_cells 16 (b + 40) c0 x = (if \<exists>i < 16. x = b + 40 + of_nat (8 * i) then 0 else c0 x)" for c0 x
    by (simp add: zero_cells_apply)
  show "h_cell h' (mq_slot b (of_nat i)) = 0" if "i < 16" for i
    using that assms(2) by (auto simp: block_to_msg_queue_def Let_def z mq_slot_def)
  have miss: "b + of_nat d \<noteq> b + 40 + of_nat (8 * i)" if "d < 40" "i < 16" for d i
  proof -
    have "(of_nat d :: u64) \<noteq> of_nat (40 + 8 * i)" using that by (subst of_nat_eq_64) simp_all
    then show ?thesis by (simp add: add.assoc)
  qed
  have low: "zero_cells 16 (b + 40) c0 (b + of_nat d) = c0 (b + of_nat d)" if "d < 40" for c0 d
    unfolding z using miss [OF that] by auto
  show "mq_start h' b = 0" "mq_end h' b = 0" "mq_receiver_id h' b = 0"
    using low [of 0] low [of 8] low [of 16] assms(2)
    by (simp_all add: block_to_msg_queue_def Let_def mq_start_def mq_end_def mq_receiver_id_def set_mq_receiver_id_def)
  show "h_cell h' c = h_cell h c" if c: "\<And>e. e < 192 \<Longrightarrow> c \<noteq> b + of_nat e"
  proof -
    have "c \<noteq> b + 40 + of_nat (8 * i)" if "i < 16" for i using c [of "40 + 8 * i"] that by (simp add: add.assoc)
    moreover have "c \<noteq> b" "c \<noteq> b + 8" "c \<noteq> b + 16" "c \<noteq> b + 24" "c \<noteq> b + 32"
      using c [of 0] c [of 8] c [of 16] c [of 24] c [of 32] by simp_all
    ultimately show ?thesis
      using assms(2) by (auto simp: block_to_msg_queue_def Let_def z set_mq_sender_id_def set_mq_receiver_id_def)
  qed
qed

lemma queue_step:
  assumes inv: "client_inv sh h V P" and fuel: "2 ^ 64 \<le> fuel"
  shows "(\<exists>q h' V' P'. msg_queue_alloc fuel sh sid rid h = Inr (Some q, h') \<and> client_inv sh h' V' P'
      \<and> q \<notin> live h V \<and> live h' V' = insert q (live h V) \<and> keeps (live h V) h h' \<and> h_era h' = h_era h
      \<and> others_ok sh h h' \<and> bsize h' (cxl_ptr_page q) = 192 \<and> pg_is_msg_queue_page (h_page h' (cxl_ptr_page q))
      \<and> mq_start h' q = 0 \<and> mq_end h' q = 0 \<and> mq_receiver_id h' q = 0 \<and> (\<forall>i < 16. h_cell h' (mq_slot q (of_nat i)) = 0)
      \<and> room_kept sh h P h' P')
    \<or> msg_queue_alloc fuel sh sid rid h = Inl Null_Deref \<and> \<not> room sh h P 1"
proof -
  have z: "1 < CXL_BIN_SIZE" "(1 :: nat) \<noteq> 2" by (simp_all add: layout)
  from pool_block [OF inv fuel z] show ?thesis
  proof (elim disjE exE conjE)
    fix q p h1 V1 P1
    assume 1: "cxl_page_malloc fuel sh 1 (cxl_find_page sh 1 h) h = Inr (Some q, Some p, h1)" "steady sh h V P h1 V1 P1"
      "p \<in> set (po_bin P1 1)" "bl_free V1 p = q # tl (bl_free V1 p)" "room_kept sh h P h1 P1"
    define h2 where "h2 = block_to_msg_queue q sid rid h1"
    have live1: "live h1 V1 = live h V" "keeps (live h V) h h1" "h_era h1 = h_era h" "others_ok sh h h1"
      using 1(2) by (simp_all add: steady_def)
    have I1: "client_inv sh h1 V1 P1" by (rule steady_inv [OF 1(2)])
    then have A: "alloc_inv h1 V1" and pi: "pool_inv sh h1 P1" by (simp_all add: client_inv_def)
    have pg: "cxl_ptr_page q = p" by (rule block_in_ptr_page [OF alloc_inv_take(3) [OF A 1(4)]])
    have n: "bsize h1 p = 192" using pool_bin_size [OF pi 1(3) z(1)] by (simp add: bin_bytes_def)
    note Q = msg_queue_cells [OF pg h2_def]
    have T: "client_inv sh h2 (drop_free p V1) P1" "live h2 (drop_free p V1) = insert q (live h1 V1)" "q \<notin> live h1 V1"
      "keeps (live h1 V1) h1 h2" "bsize h2 (cxl_ptr_page q) = bin_bytes 1" "pg_is_msg_queue_page (h_page h2 (cxl_ptr_page q)) \<longleftrightarrow> (1 :: nat) = 1"
      "others_ok sh h1 h2"
      by (rule take_client [OF I1 1(3) z(1) 1(4) Q(1-4) Q(10)]; simp add: n)+
    have "msg_queue_alloc fuel sh sid rid h = Inr (Some q, h2)" using 1(1) by (simp add: msg_queue_alloc_def h2_def)
    moreover have "keeps (live h V) h h2" using keeps_trans [OF live1(2)] T(4) live1(1) by simp
    moreover have "room_kept sh h P h2 P1"
      using 1(5) room_cong [of sh h1 P1 _ h2 P1] Q(4) by (simp add: room_kept_def)
    ultimately show ?thesis
      using T(1-3,5,6) Q(5-9) live1(1,3) others_ok_trans [OF live1(4) T(7)]
      by (intro disjI1 exI conjI) (assumption | simp add: bin_bytes_def)+
  qed (simp add: msg_queue_alloc_def)
qed

end
