(* ===== verification/Queue_Ring.thy ===== *)
theory Queue_Ring
  imports Msg_Transfer
begin

text \<open>
  What the ring of a message queue stands for: the list of the messages between \<open>start\<close> and
  \<open>end\<close>, at most 15 of them, the other slots being null. And what it is for: a channel that
  delivers in order, stated for runs of any system as the locale \<open>fifo_channel\<close>.
\<close>

section \<open>Indices of a ring\<close>

definition ring_idx :: "nat \<Rightarrow> nat \<Rightarrow> nat \<Rightarrow> nat list" where
  "ring_idx n s e = (if s \<le> e then [s..<e] else [s..<n] @ [0..<e])"

lemma ring_idx_props:
  assumes "s < n" "e < n"
  shows "ring_idx n s e = [] \<longleftrightarrow> s = e" "distinct (ring_idx n s e)" "e \<notin> set (ring_idx n s e)" "set (ring_idx n s e) \<subseteq> {..<n}"
    and "length (ring_idx n s e) = (if s \<le> e then e - s else n + e - s)"
  using assms by (auto simp: ring_idx_def)

lemma ring_idx_snoc:
  assumes "s < n" "e < n" "(e + 1) mod n \<noteq> s"
  shows "ring_idx n s ((e + 1) mod n) = ring_idx n s e @ [e]"
proof (cases "e + 1 = n")
  case True
  then have "[s..<n] = [s..<e] @ [e]" using assms upt_Suc_append [of s e] by simp
  then show ?thesis using assms True by (auto simp: ring_idx_def)
qed (use assms in \<open>auto simp: ring_idx_def\<close>)

lemma ring_idx_cons:
  assumes "s < n" "e < n" "s \<noteq> e"
  shows "ring_idx n s e = s # ring_idx n ((s + 1) mod n) e"
  using assms by (cases "s + 1 = n") (auto simp: ring_idx_def upt_conv_Cons)

section \<open>The messages in a queue\<close>

abbreviation ring_of :: "shm_heap \<Rightarrow> u64 \<Rightarrow> nat list" where
  "ring_of h q \<equiv> ring_idx 16 (unat (mq_start h q)) (unat (mq_end h q))"

definition queued :: "shm_heap \<Rightarrow> u64 \<Rightarrow> u64 list" where
  "queued h q = map (\<lambda>i. h_cell h (mq_slot q (of_nat i))) (ring_of h q)"

definition ring_ok :: "shm_heap \<Rightarrow> u64 \<Rightarrow> bool" where
  "ring_ok h q \<longleftrightarrow> unat (mq_start h q) < 16 \<and> unat (mq_end h q) < 16
     \<and> (\<forall>i < 16. h_cell h (mq_slot q (of_nat i)) \<noteq> 0 \<longleftrightarrow> i \<in> set (ring_of h q))"

definition queue_full :: "shm_heap \<Rightarrow> u64 \<Rightarrow> bool" where
  "queue_full h q \<longleftrightarrow> mq_end h q + 1 = mq_start h q \<or> mq_end h q - mq_start h q = MESSAGE_BUFFER_SIZE - 1"

text \<open>The test for a full queue leaves one slot unused.\<close>

lemma mod16: "unat ((w :: u64) mod 16) = unat w mod 16"
  by (simp add: unat_mod_distrib)

lemma unat_Suc16: "unat (w :: u64) < 16 \<Longrightarrow> unat (w + 1) = unat w + 1"
  by (simp add: unat_word_ariths)

lemma full_iff:
  assumes "ring_ok h q"
  shows "queue_full h q \<longleftrightarrow> (unat (mq_end h q) + 1) mod 16 = unat (mq_start h q)" "queue_full h q \<longleftrightarrow> length (queued h q) = 15"
proof -
  let ?s = "unat (mq_start h q)" and ?e = "unat (mq_end h q)"
  have b: "?s < 16" "?e < 16" using assms by (simp_all add: ring_ok_def)
  have 1: "mq_end h q + 1 = mq_start h q \<longleftrightarrow> ?e + 1 = ?s" using unat_Suc16 [OF b(2)] by (simp add: word_unat_eq_iff)
  have 2: "mq_end h q - mq_start h q = MESSAGE_BUFFER_SIZE - 1 \<longleftrightarrow> ?e = 15 \<and> ?s = 0"
  proof (cases "?s \<le> ?e")
    case True
    then have "unat (mq_end h q - mq_start h q) = ?e - ?s" by (simp add: unat_sub word_le_nat_alt)
    then show ?thesis using b True by (auto simp: layout word_unat_eq_iff)
  next
    case False
    then have "unat (mq_end h q - mq_start h q) = 2 ^ 64 + ?e - ?s" by (simp add: unat_sub_if_size word_size)
    then show ?thesis using b False by (auto simp: layout word_unat_eq_iff)
  qed
  show m: "queue_full h q \<longleftrightarrow> (?e + 1) mod 16 = ?s" using b unfolding queue_full_def 1 2 by (cases "?e = 15") auto
  show "queue_full h q \<longleftrightarrow> length (queued h q) = 15"
    using b unfolding m queued_def length_map ring_idx_props(5) [OF b] by (cases "?e = 15") auto
qed

lemma slot_offset: "mq_slot q (of_nat i) = q + of_nat (40 + 8 * i)"
  by (simp add: mq_slot_def)

lemma slot_inj: "i < 16 \<Longrightarrow> j < 16 \<Longrightarrow> mq_slot q (of_nat i) = mq_slot q (of_nat j) \<longleftrightarrow> i = j"
proof -
  assume "i < 16" "j < 16"
  then have "(of_nat (40 + 8 * i) :: u64) = of_nat (40 + 8 * j) \<longleftrightarrow> i = j" by (subst of_nat_eq_64) auto
  then show ?thesis unfolding slot_offset add_left_cancel .
qed

lemma small_ne: "i < 16 \<Longrightarrow> i \<noteq> unat w \<Longrightarrow> of_nat i \<noteq> (w :: u64)"
  using unat_of_nat_64 [of i] by auto

lemma queue_same:
  assumes "mq_start h' q = mq_start h q" "mq_end h' q = mq_end h q"
    and "\<And>i. i < 16 \<Longrightarrow> h_cell h' (mq_slot q (of_nat i)) = h_cell h (mq_slot q (of_nat i))"
  shows "ring_ok h' q \<longleftrightarrow> ring_ok h q" and "ring_ok h q \<Longrightarrow> queued h' q = queued h q"
proof -
  show "ring_ok h' q \<longleftrightarrow> ring_ok h q" using assms by (simp add: ring_ok_def)
  assume "ring_ok h q"
  then have "set (ring_of h q) \<subseteq> {..<16}" by (intro ring_idx_props) (simp_all add: ring_ok_def)
  then show "queued h' q = queued h q" using assms(3) unfolding queued_def assms(1,2) by (intro map_cong) auto
qed

lemma queue_empty:
  assumes "ring_ok h q"
  shows "queued h q = [] \<longleftrightarrow> mq_start h q = mq_end h q"
    and "queued h q = [] \<longleftrightarrow> mq_start h q = mq_end h q \<or> mq_buffer h q (mq_start h q) = 0"
proof -
  let ?s = "unat (mq_start h q)" and ?e = "unat (mq_end h q)"
  have b: "?s < 16" "?e < 16" using assms by (simp_all add: ring_ok_def)
  show m: "queued h q = [] \<longleftrightarrow> mq_start h q = mq_end h q"
    using ring_idx_props(1) [OF b] by (simp add: queued_def word_unat_eq_iff)
  have "mq_buffer h q (mq_start h q) \<noteq> 0" if "mq_start h q \<noteq> mq_end h q"
  proof -
    have "?s \<in> set (ring_of h q)" using ring_idx_cons [OF b] that by (simp add: word_unat_eq_iff)
    then show ?thesis using assms b(1) by (auto simp: ring_ok_def mq_buffer_def)
  qed
  then show "queued h q = [] \<longleftrightarrow> mq_start h q = mq_end h q \<or> mq_buffer h q (mq_start h q) = 0" unfolding m by blast
qed

lemma queue_append:
  assumes ok: "ring_ok h q" and nf: "\<not> queue_full h q" and v: "v \<noteq> 0"
    and new: "mq_start h' q = mq_start h q" "mq_end h' q = (mq_end h q + 1) mod MESSAGE_BUFFER_SIZE" "h_cell h' (mq_slot q (mq_end h q)) = v"
    and old: "\<And>i. i < 16 \<Longrightarrow> of_nat i \<noteq> mq_end h q \<Longrightarrow> h_cell h' (mq_slot q (of_nat i)) = h_cell h (mq_slot q (of_nat i))"
  shows "ring_ok h' q" "queued h' q = queued h q @ [v]"
proof -
  let ?s = "unat (mq_start h q)" and ?e = "unat (mq_end h q)"
  have b: "?s < 16" "?e < 16" using ok by (simp_all add: ring_ok_def)
  have e: "unat (mq_end h' q) = (?e + 1) mod 16" using unat_Suc16 [OF b(2)] by (simp add: new(2) layout mod16)
  have r: "ring_of h' q = ring_of h q @ [?e]"
    using ring_idx_snoc [OF b] nf full_iff(1) [OF ok] by (simp add: new(1) e)
  have ne: "of_nat i \<noteq> mq_end h q" if "i < 16" "i \<noteq> ?e" for i
    using small_ne that by blast
  show "ring_ok h' q"
    unfolding ring_ok_def r
  proof (intro conjI allI impI)
    fix i :: nat assume i: "i < 16"
    show "h_cell h' (mq_slot q (of_nat i)) \<noteq> 0 \<longleftrightarrow> i \<in> set (ring_of h q @ [?e])"
    proof (cases "i = ?e")
      case False
      then show ?thesis using old [OF i ne [OF i False]] ok i by (auto simp: ring_ok_def)
    qed (use new(3) v in simp)
  qed (use b in \<open>simp_all add: new(1) e\<close>)
  have "map (\<lambda>i. h_cell h' (mq_slot q (of_nat i))) (ring_of h q) = queued h q"
    unfolding queued_def
  proof (rule map_cong [OF refl])
    fix i assume i: "i \<in> set (ring_of h q)"
    then have "i < 16" "i \<noteq> ?e" using ring_idx_props(3,4) [OF b] by auto
    then show "h_cell h' (mq_slot q (of_nat i)) = h_cell h (mq_slot q (of_nat i))" using old ne by blast
  qed
  then show "queued h' q = queued h q @ [v]" unfolding queued_def r using new(3) by simp
qed

lemma queue_take:
  assumes ok: "ring_ok h q" and ne: "queued h q \<noteq> []"
    and new: "mq_end h' q = mq_end h q" "mq_start h' q = (mq_start h q + 1) mod MESSAGE_BUFFER_SIZE" "h_cell h' (mq_slot q (mq_start h q)) = 0"
    and old: "\<And>i. i < 16 \<Longrightarrow> of_nat i \<noteq> mq_start h q \<Longrightarrow> h_cell h' (mq_slot q (of_nat i)) = h_cell h (mq_slot q (of_nat i))"
  shows "ring_ok h' q" "queued h q = mq_buffer h q (mq_start h q) # queued h' q"
proof -
  let ?s = "unat (mq_start h q)" and ?e = "unat (mq_end h q)"
  have b: "?s < 16" "?e < 16" using ok by (simp_all add: ring_ok_def)
  have se: "?s \<noteq> ?e" using ne queue_empty(1) [OF ok] by (simp add: word_unat_eq_iff)
  have s: "unat (mq_start h' q) = (?s + 1) mod 16" using unat_Suc16 [OF b(1)] by (simp add: new(2) layout mod16)
  have r: "ring_of h q = ?s # ring_of h' q" using ring_idx_cons [OF b se] by (simp add: new(1) s)
  then have d: "?s \<notin> set (ring_of h' q)" using ring_idx_props(2) [OF b] by simp
  have nn: "of_nat i \<noteq> mq_start h q" if "i < 16" "i \<noteq> ?s" for i
    using small_ne that by blast
  show "ring_ok h' q"
    unfolding ring_ok_def
  proof (intro conjI allI impI)
    fix i :: nat assume i: "i < 16"
    show "h_cell h' (mq_slot q (of_nat i)) \<noteq> 0 \<longleftrightarrow> i \<in> set (ring_of h' q)"
    proof (cases "i = ?s")
      case False
      then show ?thesis using old [OF i nn [OF i False]] ok i r by (auto simp: ring_ok_def)
    qed (use new(3) d in simp)
  qed (use b in \<open>simp_all add: new(1) s\<close>)
  have "map (\<lambda>i. h_cell h (mq_slot q (of_nat i))) (ring_of h' q) = queued h' q"
    unfolding queued_def
  proof (rule map_cong [OF refl])
    fix i assume i: "i \<in> set (ring_of h' q)"
    then have "i < 16" "i \<noteq> ?s" using d ring_idx_props(4) [OF b] r by auto
    then show "h_cell h (mq_slot q (of_nat i)) = h_cell h' (mq_slot q (of_nat i))" using old nn by simp
  qed
  then show "queued h q = mq_buffer h q (mq_start h q) # queued h' q" unfolding queued_def r by (simp add: mq_buffer_def)
qed

section \<open>Channels that deliver in order\<close>

text \<open>What one channel sees of a run: what goes in, what comes out, and other steps.\<close>

datatype 'a event = Sent 'a | Received 'a | Silent

primrec sent :: "'a event list \<Rightarrow> 'a list" where
  "sent [] = []"
| "sent (e # es) = (case e of Sent v \<Rightarrow> v # sent es | _ \<Rightarrow> sent es)"

primrec received :: "'a event list \<Rightarrow> 'a list" where
  "received [] = []"
| "received (e # es) = (case e of Received v \<Rightarrow> v # received es | _ \<Rightarrow> received es)"

locale fifo_channel = kept ok step
  for ok :: "'s \<Rightarrow> bool" and step :: "'a event \<Rightarrow> 's \<Rightarrow> 's \<Rightarrow> bool" +
  fixes items :: "'s \<Rightarrow> 'a list" and capacity :: nat
  assumes sends: "ok s \<Longrightarrow> step (Sent v) s s' \<Longrightarrow> items s' = items s @ [v]"
    and receives: "ok s \<Longrightarrow> step (Received v) s s' \<Longrightarrow> items s = v # items s'"
    and others: "ok s \<Longrightarrow> step Silent s s' \<Longrightarrow> items s' = items s"
    and bounded: "ok s \<Longrightarrow> length (items s) \<le> capacity"
begin

lemma in_order: "runs step s es s' \<Longrightarrow> ok s \<Longrightarrow> items s @ sent es = received es @ items s'"
proof (induction rule: runs.induct)
  case (go e s s1 es s2)
  have "ok s1" by (rule stays_ok [OF go.prems go.hyps(1)])
  then show ?case
    using go.IH go.hyps(1) sends [OF go.prems] receives [OF go.prems] others [OF go.prems]
    by (cases e) simp_all
qed simp

lemma backlog: "runs step s es s' \<Longrightarrow> ok s \<Longrightarrow> length (items s) + length (sent es) \<le> length (received es) + capacity"
  using arg_cong [OF in_order, of s es s' length] bounded [OF run_ok] by fastforce

end

end
