(* ===== verification/Ref_System.thy ===== *)
theory Ref_System
  imports Store_Ops Queue_Alloc Queue_Ring
begin

text \<open>
  The whole of the reference-counted memory: any number of clients enter, allocate objects,
  refer to them from root references and from other objects, copy and drop handles, and send
  each other references through message queues, by turns and in any order.
\<close>

section \<open>The system\<close>

text \<open>\<open>rs_handles r\<close> is the number of handles on the root reference \<open>r\<close> that the clients hold.\<close>

record ref_system =
  rs_heap :: shm_heap
  rs_clients :: "cxl_shm list"
  rs_handles :: "u64 \<Rightarrow> nat"
  rs_queues :: "u64 set"

definition rs_start :: ref_system where
  "rs_start = \<lparr>rs_heap = zero_heap, rs_clients = [], rs_handles = (\<lambda>_. 0), rs_queues = {}\<rparr>"

definition rs_roots :: "ref_system \<Rightarrow> u64 set" where
  "rs_roots S = {r. rs_handles S r \<noteq> 0}"

definition queue_cells :: "u64 \<Rightarrow> u64 set" where
  "queue_cells q = (\<lambda>i. mq_slot q (of_nat i)) ` {..<16}"

text \<open>The cells that hold references, other than those in objects, and the objects these lead to.\<close>

definition rs_cells :: "ref_system \<Rightarrow> u64 set" where
  "rs_cells S = rs_roots S \<union> (\<Union>q \<in> rs_queues S. queue_cells q)"

definition rs_objs :: "ref_system \<Rightarrow> u64 set" where
  "rs_objs S = {ob. reach (rs_heap S) (rs_cells S) ob}"

inductive leads :: "shm_heap \<Rightarrow> u64 \<Rightarrow> u64 \<Rightarrow> bool" for h :: shm_heap where
  here: "leads h a a"
| there: "x \<in> slots h a \<Longrightarrow> h_cell h x \<noteq> 0 \<Longrightarrow> leads h (h_cell h x) b \<Longrightarrow> leads h a b"

datatype action = Enter | Allocate | Embed | Copy | Destroy | Fetch | Create
  | Send u64 u64 | Refuse | Receive u64 u64 | Idle

text \<open>
  The steps. A client may allocate an object with embedded references if their cells hold
  nothing yet; it links an embedded reference where there is none and no cycle comes of it.
  No step takes a count beyond its 16 bits.
\<close>

inductive ref_step :: "u64 \<Rightarrow> action \<Rightarrow> ref_system \<Rightarrow> ref_system \<Rightarrow> bool" for N :: u64 where
  enter: "thread_init mac pid (newcomer N) (rs_heap S) = Some (sh, h) \<Longrightarrow> pack_machine_process_id mac pid \<noteq> 0
    \<Longrightarrow> length (rs_clients S) < MAX_THREAD
    \<Longrightarrow> ref_step N Enter S (S\<lparr>rs_heap := h, rs_clients := rs_clients S @ [sh]\<rparr>)"
| allocate: "sh \<in> set (rs_clients S) \<Longrightarrow> n \<le> 1000 \<Longrightarrow> 8 * unat emb \<le> n
    \<Longrightarrow> cxl_malloc (2 ^ 64) sh (of_nat n) emb (rs_heap S) = Inr (r, h)
    \<Longrightarrow> \<forall>x \<in> slots h (ref_data r - sizeof_CXLObj). h_cell h x = 0
    \<Longrightarrow> ref_step N Allocate S (S\<lparr>rs_heap := h, rs_handles := (rs_handles S)(ref_tbr r := 1)\<rparr>)"
| embed: "sh \<in> set (rs_clients S) \<Longrightarrow> a \<in> rs_objs S \<Longrightarrow> c \<in> slots (rs_heap S) a \<Longrightarrow> h_cell (rs_heap S) c = 0
    \<Longrightarrow> b \<in> rs_objs S \<Longrightarrow> \<not> leads (rs_heap S) b a \<Longrightarrow> obj_cnt (rs_heap S) b < 65535
    \<Longrightarrow> ref_step N Embed S (S\<lparr>rs_heap := link_reference sh c b (rs_heap S)\<rparr>)"
| copy: "sh \<in> set (rs_clients S) \<Longrightarrow> ref_tbr r \<in> rs_roots S \<Longrightarrow> rs_handles S (ref_tbr r) < 65535
    \<Longrightarrow> CXLRef_copy r (rs_heap S) = (r', h)
    \<Longrightarrow> ref_step N Copy S (S\<lparr>rs_heap := h, rs_handles := (rs_handles S)(ref_tbr r := rs_handles S (ref_tbr r) + 1)\<rparr>)"
| destroy: "sh \<in> set (rs_clients S) \<Longrightarrow> ref_tbr r \<in> rs_roots S
    \<Longrightarrow> CXLRef_destroy (2 ^ 64) sh r (rs_heap S) = Inr (r', h)
    \<Longrightarrow> ref_step N Destroy S (S\<lparr>rs_heap := h, rs_handles := (rs_handles S)(ref_tbr r := rs_handles S (ref_tbr r) - 1)\<rparr>)"
| fetch: "sh \<in> set (rs_clients S) \<Longrightarrow> b \<in> rs_objs S \<Longrightarrow> obj_cnt (rs_heap S) b < 65535
    \<Longrightarrow> get_ref (2 ^ 64) sh b (rs_heap S) = Inr (r, h)
    \<Longrightarrow> ref_step N Fetch S (S\<lparr>rs_heap := h, rs_handles := (rs_handles S)(ref_tbr r := 1)\<rparr>)"
| create: "sh \<in> set (rs_clients S) \<Longrightarrow> create_msg_queue (2 ^ 64) sh dst (rs_heap S) = Inr (q, h)
    \<Longrightarrow> ref_step N Create S (S\<lparr>rs_heap := h, rs_queues := insert q (rs_queues S)\<rparr>)"
| send: "sh \<in> set (rs_clients S) \<Longrightarrow> q \<in> rs_queues S \<Longrightarrow> ref_tbr r \<in> rs_roots S
    \<Longrightarrow> obj_cnt (rs_heap S) (rr_pptr (rs_heap S) (ref_tbr r)) < 65535
    \<Longrightarrow> sent_to sh q r (rs_heap S) = Inr (True, h)
    \<Longrightarrow> ref_step N (Send q (rr_pptr (rs_heap S) (ref_tbr r))) S (S\<lparr>rs_heap := h\<rparr>)"
| refuse: "sh \<in> set (rs_clients S) \<Longrightarrow> q \<in> rs_queues S \<Longrightarrow> ref_tbr r \<in> rs_roots S
    \<Longrightarrow> sent_to sh q r (rs_heap S) = Inr (False, h) \<Longrightarrow> ref_step N Refuse S (S\<lparr>rs_heap := h\<rparr>)"
| receive: "sh \<in> set (rs_clients S) \<Longrightarrow> q \<in> rs_queues S
    \<Longrightarrow> obj_cnt (rs_heap S) (mq_buffer (rs_heap S) q (mq_start (rs_heap S) q)) < 65535
    \<Longrightarrow> cxl_unwrap (2 ^ 64) sh q (rs_heap S) = Inr (r, h) \<Longrightarrow> ref_tbr r \<noteq> 0
    \<Longrightarrow> ref_step N (Receive q (ref_data r - sizeof_CXLObj)) S
          (S\<lparr>rs_heap := h, rs_handles := (rs_handles S)(ref_tbr r := 1)\<rparr>)"
| idle: "sh \<in> set (rs_clients S) \<Longrightarrow> q \<in> rs_queues S
    \<Longrightarrow> cxl_unwrap (2 ^ 64) sh q (rs_heap S) = Inr (r, h) \<Longrightarrow> ref_tbr r = 0 \<Longrightarrow> ref_step N Idle S (S\<lparr>rs_heap := h\<rparr>)"

section \<open>The invariant\<close>

definition roots_ok :: "shm_heap \<Rightarrow> (u64 \<Rightarrow> nat) \<Rightarrow> bool" where
  "roots_ok h H \<longleftrightarrow> (\<forall>r. H r \<noteq> 0 \<longrightarrow> bsize h (cxl_ptr_page r) = 16 \<and> rr_pptr h r \<noteq> 0 \<and> unat (rr_ref_cnt h r) = H r \<and> rr_in_use h r = 1)"

definition queues_ok :: "shm_heap \<Rightarrow> u64 set \<Rightarrow> bool" where
  "queues_ok h Q \<longleftrightarrow> (\<forall>q \<in> Q. bsize h (cxl_ptr_page q) = 192 \<and> pg_is_msg_queue_page (h_page h (cxl_ptr_page q)) \<and> ring_ok h q)"

text \<open>The store of a client of the system.\<close>

definition opens :: "ref_system \<Rightarrow> cxl_shm \<Rightarrow> store \<Rightarrow> bool" where
  "opens S sh St \<longleftrightarrow> st_heap St = rs_heap S \<and> store_inv sh (rs_cells S) St \<and> acyclic_objs St
     \<and> st_plain St = rs_roots S \<union> rs_queues S \<and> roots_ok (rs_heap S) (rs_handles S) \<and> queues_ok (rs_heap S) (rs_queues S)
     \<and> (\<exists>Ps i. pools_inv (rs_heap S) (st_lists St) (rs_clients S) Ps \<and> i < length (rs_clients S) \<and> rs_clients S ! i = sh
          \<and> Ps ! i = st_pool St)"

definition rs_inv :: "ref_system \<Rightarrow> bool" where
  "rs_inv S \<longleftrightarrow> (\<exists>V Ps O'. pools_inv (rs_heap S) V (rs_clients S) Ps \<and> graph (rs_heap S) V (rs_cells S) O'
     \<and> no_leak (rs_heap S) \<and> acyclic_objs \<lparr>st_heap = rs_heap S, st_lists = V, st_pool = empty_pool, st_objs = O'\<rparr>
     \<and> live (rs_heap S) V - O' = rs_roots S \<union> rs_queues S \<and> roots_ok (rs_heap S) (rs_handles S) \<and> queues_ok (rs_heap S) (rs_queues S))"

lemma opensD:
  assumes "opens S sh St"
  shows "st_heap St = rs_heap S" "store_inv sh (rs_cells S) St" "acyclic_objs St" "st_plain St = rs_roots S \<union> rs_queues S"
    "roots_ok (rs_heap S) (rs_handles S)" "queues_ok (rs_heap S) (rs_queues S)"
    "graph (rs_heap S) (st_lists St) (rs_cells S) (st_objs St)"
proof -
  show h: "st_heap St = rs_heap S" and i: "store_inv sh (rs_cells S) St" and "acyclic_objs St" "st_plain St = rs_roots S \<union> rs_queues S"
    "roots_ok (rs_heap S) (rs_handles S)" "queues_ok (rs_heap S) (rs_queues S)"
    using assms unfolding opens_def by - (elim conjE, assumption)+
  show "graph (rs_heap S) (st_lists St) (rs_cells S) (st_objs St)" using store_graph [OF i] unfolding h .
qed

lemma rs_open:
  assumes "rs_inv S" and "sh \<in> set (rs_clients S)"
  shows "\<exists>St. opens S sh St"
proof -
  from assms(1) obtain V Ps O' where I: "pools_inv (rs_heap S) V (rs_clients S) Ps" "graph (rs_heap S) V (rs_cells S) O'"
    "no_leak (rs_heap S)" "acyclic_objs \<lparr>st_heap = rs_heap S, st_lists = V, st_pool = empty_pool, st_objs = O'\<rparr>"
    "live (rs_heap S) V - O' = rs_roots S \<union> rs_queues S" "roots_ok (rs_heap S) (rs_handles S)" "queues_ok (rs_heap S) (rs_queues S)"
    unfolding rs_inv_def by blast
  from pools_client [OF I(1) assms(2)] obtain i where i: "i < length (rs_clients S)" "rs_clients S ! i = sh"
    "client_inv sh (rs_heap S) V (Ps ! i)" by blast
  have "opens S sh \<lparr>st_heap = rs_heap S, st_lists = V, st_pool = Ps ! i, st_objs = O'\<rparr>"
    unfolding opens_def store_inv_def store.simps using I i by (intro conjI exI [of _ Ps] exI [of _ i]) (simp_all add: acyclic_objs_def ranked_def)
  then show ?thesis by blast
qed

lemma opens_inv: "opens S sh St \<Longrightarrow> rs_inv S"
proof -
  assume S: "opens S sh St"
  note D = opensD [OF S]
  obtain Ps where "pools_inv (rs_heap S) (st_lists St) (rs_clients S) Ps" using S by (auto simp: opens_def)
  moreover have "acyclic_objs \<lparr>st_heap = rs_heap S, st_lists = st_lists St, st_pool = empty_pool, st_objs = st_objs St\<rparr>"
    using D(1,3) by (simp add: acyclic_objs_def ranked_def)
  ultimately show ?thesis using D S unfolding rs_inv_def
    by (intro exI [of _ "st_lists St"] exI [of _ Ps] exI [of _ "st_objs St"]) (auto simp: store_inv_def)
qed

lemma opens_objs: "opens S sh St \<Longrightarrow> rs_objs S = st_objs St"
proof -
  assume S: "opens S sh St"
  obtain rank where "ranked rank St" using opensD(3) [OF S] by (auto simp: acyclic_objs_def)
  then show ?thesis using objects_reachable [OF opensD(2) [OF S]] by (simp add: rs_objs_def opensD(1) [OF S])
qed

lemma opens_step:
  assumes S: "opens S sh St" and st: "step_ok sh X St (rs_cells S') St'"
    and eq: "rs_heap S' = st_heap St'" "rs_clients S' = rs_clients S" "st_plain St' = rs_roots S' \<union> rs_queues S'"
    and ok: "roots_ok (rs_heap S') (rs_handles S')" "queues_ok (rs_heap S') (rs_queues S')"
  shows "opens S' sh St'"
proof -
  note D = opensD [OF S] and O = step_okD [OF st]
  obtain Ps i where P: "pools_inv (rs_heap S) (st_lists St) (rs_clients S) Ps" "i < length (rs_clients S)" "rs_clients S ! i = sh"
    "Ps ! i = st_pool St" using S by (auto simp: opens_def)
  have "client_inv sh (rs_heap S') (st_lists St') (st_pool St')" using O(1) eq(1) by (simp add: store_inv_def)
  then have "pools_inv (rs_heap S') (st_lists St') (rs_clients S) (Ps[i := st_pool St'])"
    using pools_turn [OF P(1,2)] O(3) P(3) D(1) eq(1) by simp
  moreover have "length Ps = length (rs_clients S)" using P(1) by (auto simp: pools_inv_def dest: list_all2_lengthD)
  ultimately show ?thesis
    unfolding opens_def using O(1,2) eq ok P(2,3)
    by (intro conjI exI [of _ "Ps[i := st_pool St']"] exI [of _ i]) simp_all
qed

section \<open>What a step leaves alone\<close>

fun effect :: "action \<Rightarrow> u64 \<Rightarrow> u64 list \<Rightarrow> u64 list \<Rightarrow> bool" where
  "effect (Send p v) q xs ys \<longleftrightarrow> ys = (if p = q then xs @ [v] else xs)"
| "effect (Receive p v) q xs ys \<longleftrightarrow> xs = (if p = q then v # ys else ys)"
| "effect _ q xs ys \<longleftrightarrow> ys = xs"

definition good_step :: "action \<Rightarrow> ref_system \<Rightarrow> ref_system \<Rightarrow> bool" where
  "good_step a S S' \<longleftrightarrow> rs_inv S' \<and> rs_queues S \<subseteq> rs_queues S'
     \<and> (\<forall>q \<in> rs_queues S. effect a q (queued (rs_heap S) q) (queued (rs_heap S') q))"

definition within :: "shm_heap \<Rightarrow> u64 \<Rightarrow> u64 set \<Rightarrow> bool" where
  "within h b X \<longleftrightarrow> (\<forall>x \<in> X. \<exists>d < bsize h (cxl_ptr_page b). x = b + of_nat d)"

lemma within_empty [simp]: "within h b {}" by (simp add: within_def)

lemma queue_cellsE:
  assumes "x \<in> queue_cells q"
  obtains i where "i < 16" "x = q + of_nat (40 + 8 * i)" "x = mq_slot q (of_nat i)"
  using assms by (auto simp: queue_cells_def slot_offset)

lemma within_other:
  assumes b: "b \<in> live h V" and c: "c \<in> live h V" "c \<noteq> b" and X: "within h b X" and d: "d < bsize h (cxl_ptr_page c)"
  shows "c + of_nat d \<notin> X"
  using X blocks_apart [OF live_block [OF c(1)] live_block [OF b] c(2) d] unfolding within_def by blast

lemma opens_root:
  assumes "opens S sh St" and "r \<in> rs_roots S"
  shows "r \<in> st_plain St" "bsize (rs_heap S) (cxl_ptr_page r) = 16" "rr_pptr (rs_heap S) r \<noteq> 0"
    "unat (rr_ref_cnt (rs_heap S) r) = rs_handles S r" "rr_pptr (rs_heap S) r \<in> st_objs St"
    and "r \<in> rs_cells S" "r \<noteq> 0" "rr_in_use (rs_heap S) r = 1"
proof -
  note D = opensD [OF assms(1)]
  show p: "r \<in> st_plain St" using D(4) assms(2) by blast
  show b: "bsize (rs_heap S) (cxl_ptr_page r) = 16" and z: "rr_pptr (rs_heap S) r \<noteq> 0" and "unat (rr_ref_cnt (rs_heap S) r) = rs_handles S r"
    "rr_in_use (rs_heap S) r = 1"
    using D(5) assms(2) by (simp_all add: roots_ok_def rs_roots_def)
  show c: "r \<in> rs_cells S" using assms(2) by (simp add: rs_cells_def)
  then have "r \<in> ref_cells (rs_heap S) (rs_cells S) (st_objs St)" by (simp add: ref_cells_def)
  then show "rr_pptr (rs_heap S) r \<in> st_objs St" using graphD(4) [OF D(7)] z by (simp add: rr_pptr_def)
  have "block_in (rs_heap S) (cxl_ptr_page r) r" using p live_block D(1) by auto
  then show "r \<noteq> 0" using block_high [of "rs_heap S" "cxl_ptr_page r" r 0] b by (auto simp: layout)
qed

lemma opens_queue:
  assumes "opens S sh St" and "q \<in> rs_queues S"
  shows "q \<in> st_plain St" "bsize (rs_heap S) (cxl_ptr_page q) = 192" "pg_is_msg_queue_page (h_page (rs_heap S) (cxl_ptr_page q))"
    "ring_ok (rs_heap S) q" "queue_cells q \<subseteq> rs_cells S"
  using opensD(4,6) [OF assms(1)] assms(2) by (auto simp: queues_ok_def rs_cells_def)

text \<open>Roots and queues away from the cells that change.\<close>

lemma root_kept:
  assumes S: "opens S sh St" and st: "stays X St St'" and r: "r \<in> rs_roots S" "r \<in> st_plain St'" "r \<notin> X" "r + 8 \<notin> X"
  shows "bsize (st_heap St') (cxl_ptr_page r) = 16" "rr_pptr (st_heap St') r = rr_pptr (rs_heap S) r"
    "rr_ref_cnt (st_heap St') r = rr_ref_cnt (rs_heap S) r" "rr_in_use (st_heap St') r = rr_in_use (rs_heap S) r"
proof -
  note R = opens_root [OF S r(1)] and h = opensD(1) [OF S]
  note K = staysD [OF st, of r]
  show "bsize (st_heap St') (cxl_ptr_page r) = 16" using K(2) R(1,2) r(2) h by simp
  show "rr_pptr (st_heap St') r = rr_pptr (rs_heap S) r" using K(4) [of 0] R(1,2) r(2,3) h by (simp add: rr_pptr_def)
  show "rr_ref_cnt (st_heap St') r = rr_ref_cnt (rs_heap S) r" "rr_in_use (st_heap St') r = rr_in_use (rs_heap S) r"
    using K(4) [of 8] R(1,2) r(2,4) h by (simp_all add: rr_ref_cnt_def rr_in_use_def)
qed

lemma queue_kept:
  assumes S: "opens S sh St" and st: "stays X St St'" and q: "q \<in> rs_queues S" "q \<in> st_plain St'"
    and X: "\<And>d. d < 192 \<Longrightarrow> q + of_nat d \<notin> X"
  shows "bsize (st_heap St') (cxl_ptr_page q) = 192" "pg_is_msg_queue_page (h_page (st_heap St') (cxl_ptr_page q))"
    "ring_ok (st_heap St') q" "queued (st_heap St') q = queued (rs_heap S) q"
proof -
  note Q = opens_queue [OF S q(1)] and h = opensD(1) [OF S]
  note K = staysD [OF st, of q]
  have c: "h_cell (st_heap St') (q + of_nat d) = h_cell (rs_heap S) (q + of_nat d)" if "d < 192" for d
    using K(4) [of d] Q(1,2) q(2) X [OF that] that h by simp
  show "bsize (st_heap St') (cxl_ptr_page q) = 192" "pg_is_msg_queue_page (h_page (st_heap St') (cxl_ptr_page q))"
    using K(2,3) Q(1-3) q(2) h by simp_all
  have e: "mq_start (st_heap St') q = mq_start (rs_heap S) q" "mq_end (st_heap St') q = mq_end (rs_heap S) q"
    using c [of 0] c [of 8] by (simp_all add: mq_start_def mq_end_def)
  have s: "h_cell (st_heap St') (mq_slot q (of_nat i)) = h_cell (rs_heap S) (mq_slot q (of_nat i))" if "i < 16" for i
    using c [of "40 + 8 * i"] that unfolding slot_offset by simp
  show "ring_ok (st_heap St') q" using queue_same(1) [OF e s] Q(4) by blast
  show "queued (st_heap St') q = queued (rs_heap S) q" by (rule queue_same(2) [OF e s Q(4)])
qed

text \<open>Together: everything but the blocks \<open>B\<close>, outside which the cells \<open>X\<close> do not lie.\<close>

definition away :: "store \<Rightarrow> u64 set \<Rightarrow> u64 set \<Rightarrow> bool" where
  "away St B X \<longleftrightarrow> (\<forall>c \<in> st_plain St - B. \<forall>d < bsize (st_heap St) (cxl_ptr_page c). c + of_nat d \<notin> X)"

lemma away_empty [simp]: "away St B {}" by (simp add: away_def)

lemma away_Un: "away St B X \<Longrightarrow> away St B Y \<Longrightarrow> away St B (X \<union> Y)" by (simp add: away_def)

lemma away_within: "b \<in> st_live St \<Longrightarrow> b \<in> B \<Longrightarrow> within (st_heap St) b X \<Longrightarrow> away St B X"
  using within_other unfolding away_def by blast

lemma away_later:
  assumes "away St1 B X" and st: "stays Y St St1" and sub: "st_plain St - B \<subseteq> st_plain St1"
  shows "away St B X"
  unfolding away_def
proof (intro ballI allI impI)
  fix c d assume c: "c \<in> st_plain St - B" and d: "d < bsize (st_heap St) (cxl_ptr_page c)"
  have "c \<in> st_plain St" "c \<in> st_plain St1" "c \<in> st_plain St1 - B" using c sub by blast+
  then show "c + of_nat d \<notin> X" using assms(1) staysD(2) [OF st] d by (simp add: away_def)
qed

lemma rest_kept:
  assumes S: "opens S sh St" and st: "stays X St St'" and b: "away St B X"
    and sub: "rs_roots S \<union> rs_queues S - B \<subseteq> st_plain St'"
  shows "r \<in> rs_roots S \<Longrightarrow> r \<notin> B \<Longrightarrow> bsize (st_heap St') (cxl_ptr_page r) = 16
      \<and> rr_pptr (st_heap St') r = rr_pptr (rs_heap S) r \<and> rr_ref_cnt (st_heap St') r = rr_ref_cnt (rs_heap S) r
      \<and> rr_in_use (st_heap St') r = rr_in_use (rs_heap S) r"
    and "q \<in> rs_queues S \<Longrightarrow> q \<notin> B \<Longrightarrow> bsize (st_heap St') (cxl_ptr_page q) = 192
      \<and> pg_is_msg_queue_page (h_page (st_heap St') (cxl_ptr_page q)) \<and> ring_ok (st_heap St') q
      \<and> queued (st_heap St') q = queued (rs_heap S) q"
proof -
  note h = opensD(1) [OF S]
  have out: "c + of_nat d \<notin> X" if "c \<in> st_plain St" "c \<notin> B" "d < bsize (rs_heap S) (cxl_ptr_page c)" for c d
    using b that h by (auto simp: away_def)
  show "bsize (st_heap St') (cxl_ptr_page r) = 16 \<and> rr_pptr (st_heap St') r = rr_pptr (rs_heap S) r
      \<and> rr_ref_cnt (st_heap St') r = rr_ref_cnt (rs_heap S) r \<and> rr_in_use (st_heap St') r = rr_in_use (rs_heap S) r"
    if "r \<in> rs_roots S" "r \<notin> B"
  proof -
    note R = opens_root [OF S that(1)]
    have "r \<notin> X" "r + 8 \<notin> X" using out [OF R(1) that(2), of 0] out [OF R(1) that(2), of 8] R(2) by simp_all
    then show ?thesis using root_kept [OF S st that(1)] sub that by blast
  qed
  show "bsize (st_heap St') (cxl_ptr_page q) = 192 \<and> pg_is_msg_queue_page (h_page (st_heap St') (cxl_ptr_page q))
      \<and> ring_ok (st_heap St') q \<and> queued (st_heap St') q = queued (rs_heap S) q" if "q \<in> rs_queues S" "q \<notin> B"
  proof -
    note Q = opens_queue [OF S that(1)]
    have "q \<in> st_plain St'" using sub that by blast
    then show ?thesis using queue_kept [OF S st that(1) _ out [OF Q(1) that(2)]] Q(2) by auto
  qed
qed

text \<open>Only the blocks of \<open>B\<close> need a closer look.\<close>

lemma rs_step:
  assumes S: "opens S sh St" and st: "step_ok sh X St (rs_cells S') St'"
    and eq: "rs_heap S' = st_heap St'" "rs_clients S' = rs_clients S" "st_plain St' = rs_roots S' \<union> rs_queues S'"
    and b: "away St B X" and H: "\<And>r. r \<notin> B \<Longrightarrow> rs_handles S' r = rs_handles S r"
    and Q: "rs_queues S \<subseteq> rs_queues S'" "\<And>q. q \<in> rs_queues S' \<Longrightarrow> q \<notin> B \<Longrightarrow> q \<in> rs_queues S"
    and br: "\<And>b. b \<in> B \<Longrightarrow> rs_handles S' b \<noteq> 0 \<Longrightarrow> bsize (rs_heap S') (cxl_ptr_page b) = 16 \<and> rr_pptr (rs_heap S') b \<noteq> 0
      \<and> unat (rr_ref_cnt (rs_heap S') b) = rs_handles S' b \<and> rr_in_use (rs_heap S') b = 1"
    and bq: "\<And>b. b \<in> B \<Longrightarrow> b \<in> rs_queues S' \<Longrightarrow> bsize (rs_heap S') (cxl_ptr_page b) = 192
      \<and> pg_is_msg_queue_page (h_page (rs_heap S') (cxl_ptr_page b)) \<and> ring_ok (rs_heap S') b"
    and ef: "\<And>q xs. q \<notin> B \<Longrightarrow> effect a q xs xs"
      "\<And>b. b \<in> B \<Longrightarrow> b \<in> rs_queues S \<Longrightarrow> effect a b (queued (rs_heap S) b) (queued (rs_heap S') b)"
  shows "opens S' sh St'" "good_step a S S'"
proof -
  have sub: "rs_roots S \<union> rs_queues S - B \<subseteq> st_plain St'"
    using Q(1) H unfolding eq(3) rs_roots_def by auto
  note K = rest_kept [OF S step_okD(4) [OF st] b sub, folded eq(1)]
  have "roots_ok (rs_heap S') (rs_handles S')"
    unfolding roots_ok_def
  proof (intro allI impI)
    fix r assume r: "rs_handles S' r \<noteq> 0"
    show "bsize (rs_heap S') (cxl_ptr_page r) = 16 \<and> rr_pptr (rs_heap S') r \<noteq> 0 \<and> unat (rr_ref_cnt (rs_heap S') r) = rs_handles S' r
      \<and> rr_in_use (rs_heap S') r = 1"
    proof (cases "r \<in> B")
      case False
      then have "r \<in> rs_roots S" using r H by (simp add: rs_roots_def)
      then show ?thesis using K(1) [of r] False opens_root(3,4,8) [OF S, of r] H by simp
    qed (use r br in simp)
  qed
  moreover have "queues_ok (rs_heap S') (rs_queues S')"
    unfolding queues_ok_def
  proof
    fix q assume q: "q \<in> rs_queues S'"
    show "bsize (rs_heap S') (cxl_ptr_page q) = 192 \<and> pg_is_msg_queue_page (h_page (rs_heap S') (cxl_ptr_page q)) \<and> ring_ok (rs_heap S') q"
    proof (cases "q \<in> B")
      case False
      then show ?thesis using K(2) Q(2) q by blast
    qed (use q bq in simp)
  qed
  ultimately show O: "opens S' sh St'" by (rule opens_step [OF S st eq])
  have "effect a q (queued (rs_heap S) q) (queued (rs_heap S') q)" if "q \<in> rs_queues S" for q
  proof (cases "q \<in> B")
    case False
    then show ?thesis using K(2) [OF that False] ef(1) by simp
  qed (use ef(2) that in simp)
  then show "good_step a S S'" using opens_inv [OF O] Q(1) by (simp add: good_step_def)
qed

text \<open>Which cells of a block are references.\<close>

lemma ref_cell_offset:
  assumes S: "opens S sh St" and b: "b \<in> st_live St" "d < bsize (rs_heap S) (cxl_ptr_page b)" and c: "b + of_nat d \<in> rs_cells S"
  shows "b \<in> rs_roots S \<and> d = 0 \<or> b \<in> rs_queues S \<and> (\<exists>i < 16. d = 40 + 8 * i)"
proof -
  note h = opensD(1) [OF S]
  have same: "c = b \<and> e = d" if "c \<in> st_live St" "e < bsize (rs_heap S) (cxl_ptr_page c)" "c + of_nat e = b + of_nat d" for c e
  proof -
    note bl = live_block [OF b(1), unfolded h] live_block [OF that(1), unfolded h]
    have "c = b" using blocks_apart [OF bl(2,1) _ that(2) b(2)] that(3) by blast
    then show ?thesis using same_block_offsets [OF bl(1) that(2) [unfolded \<open>c = b\<close>] b(2)] that(3) by simp
  qed
  from c consider "b + of_nat d \<in> rs_roots S" | q where "q \<in> rs_queues S" "b + of_nat d \<in> queue_cells q" by (auto simp: rs_cells_def)
  then show ?thesis
  proof cases
    case 1
    then show ?thesis using same [of "b + of_nat d" 0] opens_root(1,2) [OF S 1] by auto
  next
    case 2
    from 2(2) obtain i where i: "i < 16" "b + of_nat d = q + of_nat (40 + 8 * i)" by (rule queue_cellsE)
    then have "q = b \<and> 40 + 8 * i = d" using same [of q "40 + 8 * i"] opens_queue(1,2) [OF S 2(1)] by auto
    then show ?thesis using i(1) 2(1) by blast
  qed
qed

end
