(* ===== verification/Ref_Steps.thy ===== *)
theory Ref_Steps
  imports Ref_System
begin

text \<open>
  Entering, allocating, linking embedded references, and making, copying and dropping handles
  keep the invariant of the reference system and leave the message queues as they are. Dropping
  the last handle of a root reference frees what nothing leads to any more, and nothing else.
\<close>

section \<open>Allocation\<close>

lemma rs_allocate:
  assumes S: "rs_inv S" and sh: "sh \<in> set (rs_clients S)" and n: "n \<le> 1000" "8 * unat emb \<le> n"
    and m: "cxl_malloc (2 ^ 64) sh (of_nat n) emb (rs_heap S) = Inr (r, h)"
    and z: "\<forall>x \<in> slots h (ref_data r - sizeof_CXLObj). h_cell h x = 0"
  shows "good_step Allocate S (S\<lparr>rs_heap := h, rs_handles := (rs_handles S)(ref_tbr r := 1)\<rparr>)"
proof -
  obtain St where O: "opens S sh St" using rs_open [OF S sh] by blast
  note D = opensD [OF O]
  have inv: "client_inv sh (rs_heap S) (st_lists St) (st_pool St)" using D(1,2) by (simp add: store_inv_def)
  from malloc_step [OF inv order.refl n(1), of emb] m obtain t ob V' P' where
    r: "r = \<lparr>ref_tbr = t, ref_data = ob + sizeof_CXLObj\<rparr>" and M: "client_inv sh h V' P'" "t \<notin> st_live St" "ob \<notin> st_live St" "t \<noteq> ob"
    "live h V' = st_live St \<union> {t, ob}" "keeps (st_live St) (rs_heap S) h" "others_ok sh (rs_heap S) h" "bsize h (cxl_ptr_page t) = 16"
    "freeable h False (cxl_ptr_page ob)" "n + 24 \<le> bsize h (cxl_ptr_page ob)" "rr_pptr h t = ob" "rr_ref_cnt h t = 1"
    "rr_in_use h t = 1"
    "obj_ref_info h ob = pack_ref_info (ucast (shm_thread_id sh)) 1 (h_era (rs_heap S) (own_era sh))" "obj_embedded h ob = ucast emb"
    unfolding D(1) [symmetric] by (elim disjE exE conjE) auto
  let ?S = "S\<lparr>rs_heap := h, rs_handles := (rs_handles S)(t := 1)\<rparr>"
  let ?St = "\<lparr>st_heap = h, st_lists = V', st_pool = P', st_objs = st_objs St \<union> {ob}\<rparr>"
  have tb: "t + of_nat 0 = t" by simp
  have cells: "rs_cells ?S = rs_cells S \<union> {t}" by (auto simp: rs_cells_def rs_roots_def)
  have cnt: "obj_cnt h ob = 1" using pack_fields(2) [OF tid_fits [OF inv], of 1] by (simp add: obj_cnt_def M(14))
  have at: "object_at h ob" using M(9,10,15) n(2) by (simp add: object_at_def)
  have step: "step_ok sh {} St (rs_cells S \<union> {t}) ?St"
  proof (rule grow_ok [OF D(2,3) M(1), of "{t}" "{ob}"])
    show "others_ok sh (st_heap St) h" "keeps (st_live St) (st_heap St) h" using M(6,7) D(1) by simp_all
    show "live h V' = st_live St \<union> ({t} \<union> {ob})" "st_live St \<inter> ({t} \<union> {ob}) = {}" "{t} \<inter> {ob} = {}" using M(2-5) by auto
    show "\<exists>b \<in> {t}. \<exists>d < bsize h (cxl_ptr_page b). x = b + of_nat d" if "x \<in> {t}" for x
      using that M(8) tb by (intro bexI [of _ t] exI [of _ 0]) auto
    show "h_cell h x = 0 \<or> h_cell h x \<in> {ob}" if "x \<in> {t}" for x using that M(11) by (simp add: rr_pptr_def)
    have "{x \<in> {t}. h_cell h x = ob} = {t}" using M(11) by (auto simp: rr_pptr_def)
    then show "obj_cnt h y = card {x \<in> {t}. h_cell h x = y} \<and> {x \<in> {t}. h_cell h x = y} \<noteq> {}" if "y \<in> {ob}" for y
      using that cnt by simp
    show "object_at h y" if "y \<in> {ob}" for y using that at by simp
    show "h_cell h x = 0" if "y \<in> {ob}" "x \<in> slots h y" for x y using z that by (simp add: r)
  qed
  have plain: "st_plain ?St = rs_roots ?S \<union> rs_queues ?S"
  proof -
    have "st_objs St \<subseteq> st_live St" using graphD(1) [OF D(7)] D(1) by auto
    then have "st_plain ?St = st_plain St \<union> {t}" using M(2-5) by auto
    then show ?thesis using D(4) by (auto simp: rs_roots_def)
  qed
  have nq: "t \<notin> rs_queues S" using D(4) M(2) by blast
  have "good_step Allocate S ?S"
  proof (rule rs_step(2) [OF O step [folded cells], where B = "{t}"])
    show "st_plain ?St = rs_roots ?S \<union> rs_queues ?S" by (rule plain)
    show "bsize (rs_heap ?S) (cxl_ptr_page b) = 16 \<and> rr_pptr (rs_heap ?S) b \<noteq> 0 \<and> unat (rr_ref_cnt (rs_heap ?S) b) = rs_handles ?S b
        \<and> rr_in_use (rs_heap ?S) b = 1"
      if "b \<in> {t}" for b using M(5,8,11,12,13) object_at_nonzero [OF at, of V'] that by simp
  qed (use nq in auto)
  then show ?thesis by (simp add: r)
qed

section \<open>Entering\<close>

lemma live_block_kept:
  assumes "keeps (live h V) h h'" and "b \<in> live h V"
  shows "bsize h' (cxl_ptr_page b) = bsize h (cxl_ptr_page b)"
    "pg_is_msg_queue_page (h_page h' (cxl_ptr_page b)) = pg_is_msg_queue_page (h_page h (cxl_ptr_page b))"
    "d < bsize h (cxl_ptr_page b) \<Longrightarrow> h_cell h' (b + of_nat d) = h_cell h (b + of_nat d)"
  using keepsD(2-4) [OF assms(1,2)] by blast+

lemma rs_enter:
  assumes S: "rs_inv S" and fits: "region_fits (newcomer N)" and room: "length (rs_clients S) < MAX_THREAD"
    and id: "pack_machine_process_id mac pid \<noteq> 0" and t: "thread_init mac pid (newcomer N) (rs_heap S) = Some (sh, h)"
  shows "good_step Enter S (S\<lparr>rs_heap := h, rs_clients := rs_clients S @ [sh]\<rparr>)"
proof -
  let ?h = "rs_heap S"
  obtain V Ps O' where I: "pools_inv ?h V (rs_clients S) Ps" "graph ?h V (rs_cells S) O'"
    "no_leak ?h" "acyclic_objs \<lparr>st_heap = ?h, st_lists = V, st_pool = empty_pool, st_objs = O'\<rparr>"
    "live ?h V - O' = rs_roots S \<union> rs_queues S" "roots_ok ?h (rs_handles S)" "queues_ok ?h (rs_queues S)"
    using S unfolding rs_inv_def by blast
  from pools_enter [OF I(1) fits room id, of "live ?h V"] t have
    E: "pools_inv h V (rs_clients S @ [sh]) (Ps @ [empty_pool])" "live h V = live ?h V" "keeps (live ?h V) ?h h" "h_sas h = h_sas ?h" by auto
  have sub: "O' \<subseteq> live ?h V" using graphD(1) [OF I(2)] by blast
  note O = slots_keep [OF I(2) E(3) _ subsetD [OF sub]]
  have "graph h V (rs_cells S \<union> {}) (O' \<union> {})"
    by (rule graph_grow [OF I(2) _ _ _ E(3), where B = "{}" and N = "{}"]) (simp_all add: E(2))
  then have g: "graph h V (rs_cells S) O'" by simp
  have K: "bsize h (cxl_ptr_page b) = bsize ?h (cxl_ptr_page b)"
    "pg_is_msg_queue_page (h_page h (cxl_ptr_page b)) = pg_is_msg_queue_page (h_page ?h (cxl_ptr_page b))"
    "d < bsize ?h (cxl_ptr_page b) \<Longrightarrow> h_cell h (b + of_nat d) = h_cell ?h (b + of_nat d)"
    if "b \<in> rs_roots S \<union> rs_queues S" for b d
    using live_block_kept [OF E(3), of b] that I(5) by blast+
  have roots: "roots_ok h (rs_handles S)"
    unfolding roots_ok_def
  proof (intro allI impI)
    fix r assume r: "rs_handles S r \<noteq> 0"
    then have r': "r \<in> rs_roots S \<union> rs_queues S" by (simp add: rs_roots_def)
    show "bsize h (cxl_ptr_page r) = 16 \<and> rr_pptr h r \<noteq> 0 \<and> unat (rr_ref_cnt h r) = rs_handles S r \<and> rr_in_use h r = 1"
      using K(1) [OF r'] K(3) [OF r', of 0] K(3) [OF r', of 8] I(6) r by (simp add: roots_ok_def rr_pptr_def rr_ref_cnt_def rr_in_use_def)
  qed
  have q: "bsize h (cxl_ptr_page q) = 192 \<and> pg_is_msg_queue_page (h_page h (cxl_ptr_page q)) \<and> ring_ok h q \<and> queued h q = queued ?h q"
    if q: "q \<in> rs_queues S" for q
  proof -
    have q': "q \<in> rs_roots S \<union> rs_queues S" using q by simp
    have Q: "bsize ?h (cxl_ptr_page q) = 192" "pg_is_msg_queue_page (h_page ?h (cxl_ptr_page q))" "ring_ok ?h q"
      using I(7) q by (simp_all add: queues_ok_def)
    have e: "mq_start h q = mq_start ?h q" "mq_end h q = mq_end ?h q"
      using K(3) [OF q', of 0] K(3) [OF q', of 8] Q(1) by (simp_all add: mq_start_def mq_end_def)
    have s: "h_cell h (mq_slot q (of_nat i)) = h_cell ?h (mq_slot q (of_nat i))" if "i < 16" for i
      using K(3) [OF q', of "40 + 8 * i"] Q(1) that unfolding slot_offset by simp
    show ?thesis using K(1,2) [OF q'] Q queue_same [OF e s] by simp
  qed
  obtain rank where "ranked rank \<lparr>st_heap = ?h, st_lists = V, st_pool = empty_pool, st_objs = O'\<rparr>" using I(4) by (auto simp: acyclic_objs_def)
  then have "ranked rank \<lparr>st_heap = h, st_lists = V, st_pool = empty_pool, st_objs = O'\<rparr>"
    using O(1,2) by (auto simp: ranked_def)
  then have ac: "acyclic_objs \<lparr>st_heap = h, st_lists = V, st_pool = empty_pool, st_objs = O'\<rparr>" by (auto simp: acyclic_objs_def)
  let ?S = "S\<lparr>rs_heap := h, rs_clients := rs_clients S @ [sh]\<rparr>"
  have cells: "rs_cells ?S = rs_cells S" "rs_roots ?S = rs_roots S" by (simp_all add: rs_cells_def rs_roots_def)
  have "queues_ok h (rs_queues S)" using q by (simp add: queues_ok_def)
  then have "rs_inv ?S"
    unfolding rs_inv_def cells using E(1,2,4) g ac roots I(3,5)
    by (intro exI [of _ V] exI [of _ "Ps @ [empty_pool]"] exI [of _ O']) (simp add: no_leak_def)
  then show ?thesis using q by (simp add: good_step_def)
qed

section \<open>Embedded references\<close>

text \<open>A link from \<open>a\<close> to an object from which nothing leads back to \<open>a\<close> makes no cycle.\<close>

lemma acyclic_embed:
  assumes S: "store_inv sh R S" "acyclic_objs S" and a: "a \<in> st_objs S" "c \<in> slots (st_heap S) a" and b: "b \<in> st_objs S"
    and no: "\<not> leads (st_heap S) b a"
  shows "acyclic_objs (S\<lparr>st_heap := link_reference sh c b (st_heap S)\<rparr>)"
proof -
  let ?h = "st_heap S" and ?h' = "link_reference sh c b (st_heap S)"
  note g = store_graph [OF S(1)]
  obtain rank where r: "ranked rank S" using S(2) by (auto simp: acyclic_objs_def)
  define rank' where "rank' y = rank y + (if leads ?h y a then rank b + 1 else 0)" for y
  have cc: "c \<in> st_cells R S" using a by (auto simp: ref_cells_def)
  note L = link_cells [OF g b cc, where sh = sh]
  have "ranked rank' (S\<lparr>st_heap := ?h'\<rparr>)"
    unfolding ranked_def
  proof (intro ballI impI; simp)
    fix y x assume y: "y \<in> st_objs S" and x: "x \<in> slots ?h' y" and nz: "h_cell ?h' x \<noteq> 0"
    have x': "x \<in> slots ?h y" using x L(3) [OF y] by (simp add: slots_def)
    show "rank' (h_cell ?h' x) < rank' y"
    proof (cases "x = c")
      case True
      have "y = a" using slot_cells_apart(2) [OF g a(1,2) y] slot_inside [OF graphD(2) [OF g y] x'] True
        by (metis add_lessD1 less_add_same_cancel1 less_le_trans zero_less_numeral)
      moreover have "leads ?h a a" by (rule leads.here)
      ultimately show ?thesis using L(1) True no by (simp add: rank'_def)
    next
      case False
      have "x \<in> st_cells R S" using x' y by (auto simp: ref_cells_def)
      then have v: "h_cell ?h' x = h_cell ?h x" using L(4) False by blast
      then have "rank (h_cell ?h x) < rank y" using rankedD [OF r y x'] nz by simp
      moreover have "leads ?h (h_cell ?h x) a \<Longrightarrow> leads ?h y a" using leads.there [OF x'] nz v by simp
      ultimately show ?thesis by (simp add: rank'_def v)
    qed
  qed
  then show ?thesis by (auto simp: acyclic_objs_def)
qed

lemma rs_embed:
  assumes S: "rs_inv S" and sh: "sh \<in> set (rs_clients S)" and a: "a \<in> rs_objs S" "c \<in> slots (rs_heap S) a" "h_cell (rs_heap S) c = 0"
    and b: "b \<in> rs_objs S" "\<not> leads (rs_heap S) b a" "obj_cnt (rs_heap S) b < 65535"
  shows "good_step Embed S (S\<lparr>rs_heap := link_reference sh c b (rs_heap S)\<rparr>)"
proof -
  obtain St where O: "opens S sh St" using rs_open [OF S sh] by blast
  note D = opensD [OF O] and h = opensD(1) [OF O] and ob = opens_objs [OF O]
  let ?S = "S\<lparr>rs_heap := link_reference sh c b (rs_heap S)\<rparr>" and ?St = "St\<lparr>st_heap := link_reference sh c b (st_heap St)\<rparr>"
  have cells: "rs_cells ?S = rs_cells S" by (simp add: rs_cells_def rs_roots_def)
  have cc: "c \<in> st_cells (rs_cells S) St" using a ob by (auto simp: ref_cells_def h)
  have few: "card (st_holders (rs_cells S) St b) < 65535" using graphD(5) [OF D(7)] b(1,3) ob by (simp add: h)
  have ac: "acyclic_objs ?St" using acyclic_embed [OF D(2,3)] a b ob by (simp add: h)
  have "h_cell (st_heap St) c = 0" "b \<in> st_objs St" using a(3) b(1) ob by (simp_all add: h)
  note L = link_ok [OF D(2) cc this few ac]
  have "away St {} {c}"
    unfolding away_def
  proof (intro ballI allI impI)
    fix x d assume x: "x \<in> st_plain St - {}" and d: "d < bsize (st_heap St) (cxl_ptr_page x)"
    have "\<not> root_place (rs_heap S) (st_lists St) (st_objs St) c" using slot_cells_apart(1) [OF D(7)] a ob by simp
    then show "x + of_nat d \<notin> {c}" using root_placeI [of x "rs_heap S" "st_lists St" "st_objs St" d] x d by (auto simp: h)
  qed
  then show ?thesis
    by (intro rs_step(2) [OF O L(1) [folded cells], where B = "{}"]) (use L(2) D(4) in \<open>simp_all add: h rs_roots_def\<close>)
qed

section \<open>Handles\<close>

text \<open>A write to the count of a root reference.\<close>

lemma root_count_place:
  assumes O: "opens S sh St" and r: "r \<in> rs_roots S"
  shows "st_place St (r + 8)" "r + 8 \<notin> rs_cells S" "within (st_heap St) r {r + 8}" "within (st_heap St) r {r, r + 8}"
proof -
  note R = opens_root [OF O r] and h = opensD(1) [OF O]
  have e: "r + 8 = r + of_nat 8" by simp
  have d: "8 < bsize (rs_heap S) (cxl_ptr_page r)" using R(2) by simp
  show "st_place St (r + 8)" using root_placeI [of r "st_heap St" "st_lists St" "st_objs St" 8] R(1) d h by simp
  show "r + 8 \<notin> rs_cells S"
  proof
    assume "r + 8 \<in> rs_cells S"
    then have "r + of_nat 8 \<in> rs_cells S" by simp
    moreover have "r \<in> st_live St" using R(1) by blast
    ultimately have "r \<in> rs_queues S" using ref_cell_offset [OF O _ d] by fastforce
    then show False using opens_queue(2) [OF O] R(2) by simp
  qed
  show w: "within (st_heap St) r {r, r + 8}"
    unfolding within_def
  proof
    fix x assume "x \<in> {r, r + 8}"
    then have "x = r + of_nat 0 \<or> x = r + of_nat 8" by auto
    moreover have "0 < bsize (st_heap St) (cxl_ptr_page r)" "8 < bsize (st_heap St) (cxl_ptr_page r)" using R(2) h by simp_all
    ultimately show "\<exists>d < bsize (st_heap St) (cxl_ptr_page r). x = r + of_nat d" by blast
  qed
  show "within (st_heap St) r {r + 8}" using w by (simp add: within_def)
qed

lemma rs_recount:
  assumes O: "opens S sh St" and t: "t \<in> rs_roots S" and n: "unat v = n" "n \<noteq> 0" and a: "\<And>q xs. effect a q xs xs"
  shows "good_step a S (S\<lparr>rs_heap := set_rr_ref_cnt t v (rs_heap S), rs_handles := (rs_handles S)(t := n)\<rparr>)"
    and "rs_objs (S\<lparr>rs_heap := set_rr_ref_cnt t v (rs_heap S), rs_handles := (rs_handles S)(t := n)\<rparr>) = rs_objs S"
proof -
  note D = opensD [OF O] and h = opensD(1) [OF O] and R = opens_root [OF O t] and P = root_count_place [OF O t]
  define h' where "h' = set_rr_ref_cnt t v (rs_heap S)"
  let ?S = "S\<lparr>rs_heap := h', rs_handles := (rs_handles S)(t := n)\<rparr>"
  have roots: "rs_roots ?S = rs_roots S" using t n(2) by (auto simp: rs_roots_def)
  have cells: "rs_cells ?S = rs_cells S" unfolding rs_cells_def roots by simp
  have "log_only sh (st_heap St) h'" by (simp add: h'_def set_rr_ref_cnt_def h)
  then have W: "step_ok sh {t + 8} St (rs_cells S) (St\<lparr>st_heap := h'\<rparr>)" "live h' (st_lists St) = st_live St"
    using write_ok [OF D(2,3), of h' "{t + 8}"] P(1,2) by (auto simp: h'_def set_rr_ref_cnt_def h)
  have b: "bsize h' = bsize (rs_heap S)" by (simp add: h'_def set_rr_ref_cnt_def bsize_def fun_eq_iff)
  have aw: "away St {t} {t + 8}" using away_within [OF _ _ P(3)] R(1) by blast
  have pl: "st_plain (St\<lparr>st_heap := h'\<rparr>) = rs_roots ?S \<union> rs_queues ?S" unfolding roots using W(2) D(4) by simp
  have ct: "bsize h' (cxl_ptr_page t) = 16" "rr_pptr h' t \<noteq> 0" "unat (rr_ref_cnt h' t) = n" "rr_in_use h' t = 1"
    using R(2,3,8) n(1) b by (simp_all add: h'_def)
  have nq: "t \<notin> rs_queues S" using opens_queue(2) [OF O] R(2) by auto
  have G: "opens ?S sh (St\<lparr>st_heap := h'\<rparr>)" "good_step a S ?S"
    by (rule rs_step [OF O W(1) [folded cells] _ _ pl aw, where a = a]; use ct nq a in \<open>auto\<close>)+
  show "good_step a S (S\<lparr>rs_heap := set_rr_ref_cnt t v (rs_heap S), rs_handles := (rs_handles S)(t := n)\<rparr>)"
    using G(2) by (simp add: h'_def)
  show "rs_objs (S\<lparr>rs_heap := set_rr_ref_cnt t v (rs_heap S), rs_handles := (rs_handles S)(t := n)\<rparr>) = rs_objs S"
    using opens_objs [OF G(1)] opens_objs [OF O] by (simp add: h'_def)
qed

lemma rs_copy:
  assumes S: "rs_inv S" and sh: "sh \<in> set (rs_clients S)" and r: "ref_tbr r \<in> rs_roots S" "rs_handles S (ref_tbr r) < 65535"
    and c: "CXLRef_copy r (rs_heap S) = (r', h)"
  shows "good_step Copy S (S\<lparr>rs_heap := h, rs_handles := (rs_handles S)(ref_tbr r := rs_handles S (ref_tbr r) + 1)\<rparr>)"
proof -
  let ?t = "ref_tbr r"
  obtain St where O: "opens S sh St" using rs_open [OF S sh] by blast
  note R = opens_root [OF O r(1)]
  have h: "h = set_rr_ref_cnt ?t (rr_ref_cnt (rs_heap S) ?t + 1) (rs_heap S)" using c R(7) by (auto simp: CXLRef_copy_def)
  have "unat (rr_ref_cnt (rs_heap S) ?t + 1) = rs_handles S ?t + 1" using R(4) r(2) by (simp add: unat_word_ariths)
  from rs_recount [OF O r(1) this, of Copy] show ?thesis by (simp add: h)
qed

text \<open>The last handle: the object's reference is dropped and the root reference freed.\<close>

lemma reach_cong:
  assumes g: "graph h V R0 O'" and sub: "R \<subseteq> R0" and c: "\<And>x. x \<in> R \<Longrightarrow> h_cell h' x = h_cell h x"
    and s: "\<And>ob. ob \<in> O' \<Longrightarrow> slots h' ob = slots h ob" "\<And>ob x. ob \<in> O' \<Longrightarrow> x \<in> slots h ob \<Longrightarrow> h_cell h' x = h_cell h x"
  shows "reach h' R ob \<longleftrightarrow> reach h R ob"
proof -
  have O: "reach h R ob \<Longrightarrow> ob \<in> O'" for ob
  proof (induction rule: reach.induct)
    case (root x)
    then show ?case using graphD(4) [OF g, of x] sub by (auto simp: ref_cells_def)
  next
    case (embedded ob x)
    then show ?case using graphD(4) [OF g, of x] by (auto simp: ref_cells_def)
  qed
  show ?thesis
  proof
    assume "reach h' R ob"
    then show "reach h R ob"
    proof (induction rule: reach.induct)
      case (root x)
      then show ?case using reach.root [of x R h] c by simp
    next
      case (embedded y x)
      note y = O [OF embedded(4)]
      show ?case using reach.embedded [OF embedded(4), of x] embedded(2,3) s [OF y] by simp
    qed
  next
    assume "reach h R ob"
    then show "reach h' R ob"
    proof (induction rule: reach.induct)
      case (root x)
      then show ?case using reach.root [of x R h'] c by simp
    next
      case (embedded y x)
      note y = O [OF embedded(1)]
      show ?case using reach.embedded [OF embedded(4), of x] embedded(2,3) s [OF y] by simp
    qed
  qed
qed

lemma plain_dropped: "dropped True sh R X S S' \<Longrightarrow> graph (st_heap S) (st_lists S) R (st_objs S) \<Longrightarrow> st_plain S' = st_plain S"
  using droppedD(1) [of True sh R X S S'] dropped_live [of sh R X S S'] graphD(1) [of "st_heap S" "st_lists S" R "st_objs S"] by blast

lemma destroy_last:
  assumes O: "opens S sh St" and t: "t \<in> rs_roots S" "rs_handles S t = 1"
  shows "\<exists>h. CXLRef_destroy (2 ^ 64) sh \<lparr>ref_tbr = t, ref_data = d\<rparr> (rs_heap S) = Inr (\<lparr>ref_tbr = 0, ref_data = 0\<rparr>, h)
    \<and> good_step Destroy S (S\<lparr>rs_heap := h, rs_handles := (rs_handles S)(t := 0)\<rparr>)
    \<and> rs_objs (S\<lparr>rs_heap := h, rs_handles := (rs_handles S)(t := 0)\<rparr>) = {ob. reach (rs_heap S) (rs_cells S - {t}) ob}"
proof -
  let ?h = "rs_heap S" and ?R = "rs_cells S"
  note D = opensD [OF O] and h = opensD(1) [OF O] and R = opens_root [OF O t(1)] and P = root_count_place [OF O t(1)]
  have t8: "t + 8 = t + of_nat 8" by simp
  define h1 where "h1 = set_rr_ref_cnt t (rr_ref_cnt ?h t - 1) ?h"
  define S1 where "S1 = St\<lparr>st_heap := h1\<rparr>"
  have "unat (rr_ref_cnt ?h t) = 1" using R(4) t(2) by simp
  then have one: "rr_ref_cnt ?h t = 1" by (simp add: word_unat_eq_iff)
  have "log_only sh (st_heap St) h1" by (simp add: h1_def set_rr_ref_cnt_def h)
  then have W1: "step_ok sh {t + 8} St ?R S1" "st_live S1 = st_live St"
    using write_ok [OF D(2,3), of h1 "{t + 8}"] P(1,2) by (auto simp: h1_def set_rr_ref_cnt_def h S1_def)
  have b1: "bsize h1 = bsize ?h" by (simp add: h1_def set_rr_ref_cnt_def bsize_def fun_eq_iff)
  have c1: "t \<in> st_cells ?R S1" using R(6) by (simp add: ref_cells_def)
  obtain S2 where S2: "test_free (2 ^ 64) sh t h1 = Inr (st_heap S2)" "store_inv sh ?R S2" "acyclic_objs S2" "dropped True sh ?R {t} S1 S2"
    using drop_step [OF step_okD(1,2) [OF W1(1)] c1 order.refl] by (auto simp: S1_def)
  have W2: "step_ok sh {t} S1 ?R S2" by (rule step_dropped [OF step_okD(1,2) [OF W1(1)] S2(2,4)])
  have plain2: "st_plain S2 = st_plain St" using plain_dropped [OF S2(4) store_graph [OF step_okD(1) [OF W1(1)]]] W1(2) by (simp add: S1_def)
  have t2: "t \<in> st_plain S2" using R(1) plain2 by simp
  have b2: "bsize (st_heap S2) (cxl_ptr_page t) = 16" using droppedD(7) [OF S2(4), of t] t2 b1 R(2) by (simp add: S1_def)
  have z2: "h_cell (st_heap S2) t = 0" using droppedD(3) [OF S2(4), of t] R(6) by (simp add: ref_cells_def)
  define h3 where "h3 = set_rr_in_use t 0 (st_heap S2)"
  define S3 where "S3 = S2\<lparr>st_heap := h3\<rparr>"
  have p2: "st_place S2 (t + 8)" using root_placeI [OF t2, of 8] b2 by simp
  have "log_only sh (st_heap S2) h3" by (simp add: h3_def set_rr_in_use_def)
  then have W3: "step_ok sh {t + 8} S2 ?R S3" "st_live S3 = st_live S2"
    using write_ok [OF S2(2,3), of h3 "{t + 8}"] p2 P(2) by (auto simp: h3_def set_rr_in_use_def S3_def)
  have b3: "bsize h3 = bsize (st_heap S2)" by (simp add: h3_def set_rr_in_use_def bsize_def fun_eq_iff)
  have z3: "h_cell h3 t = 0" using z2 by (simp add: h3_def set_rr_in_use_def)
  have inv3: "client_inv sh h3 (st_lists S3) (st_pool S3)" "no_leak h3" using step_okD(1) [OF W3(1)] by (simp_all add: store_inv_def S3_def)
  have t3: "t \<in> live h3 (st_lists S3)" using t2 W3(2) by (auto simp: S3_def)
  have "freeable h3 True (cxl_ptr_page t)" using b2 b3 by (simp add: freeable_def)
  from free_step [OF inv3(1) t3 this] inv3(2) obtain h4 V4 P4 where F: "cxl_free sh True t h3 = Inr h4" "client_inv sh h4 V4 P4"
    "live h4 V4 = st_live S3 - {t}" "keeps (st_live S3 - {t}) h3 h4" "others_ok sh h3 h4"
    by (auto simp: no_leak_def S3_def)
  define S4 where "S4 = \<lparr>st_heap = h4, st_lists = V4, st_pool = P4, st_objs = st_objs S3\<rparr>"
  have W4: "step_ok sh {} S3 (?R - {t}) S4"
    unfolding S4_def
  proof (rule remove_ok [OF step_okD(1,2) [OF W3(1)] F(2) _ _ F(3)])
    show "others_ok sh (st_heap S3) h4" "keeps (st_live S3 - {t}) (st_heap S3) h4" using F(4,5) by (simp_all add: S3_def)
    show "t \<in> st_plain S3" using t2 W3(2) by (simp add: S3_def)
    show "h_cell (st_heap S3) x = 0" if "x \<in> {t}" for x using that z3 by (simp add: S3_def)
    show "x \<in> {t}" if x: "x \<in> ?R" "e < bsize (st_heap S3) (cxl_ptr_page t)" "x = t + of_nat e" for x e
    proof -
      have "e < bsize ?h (cxl_ptr_page t)" using x(2) b2 b3 R(2) by (simp add: S3_def)
      then have "e = 0 \<or> t \<in> rs_queues S" using ref_cell_offset [OF O _ _ x(1) [unfolded x(3)]] R(1) by blast
      then show ?thesis using opens_queue(2) [OF O, of t] R(2) x(3) by auto
    qed
  qed
  let ?S = "S\<lparr>rs_heap := h4, rs_handles := (rs_handles S)(t := 0)\<rparr>"
  have nq: "t \<notin> rs_queues S" using opens_queue(2) [OF O, of t] R(2) by auto
  have ncell: "t \<notin> queue_cells q" if "q \<in> rs_queues S" for q
  proof
    assume "t \<in> queue_cells q"
    then obtain i where i: "i < 16" "t = q + of_nat (40 + 8 * i)" by (rule queue_cellsE)
    note Q = opens_queue [OF O that]
    have l: "q \<in> st_live St" "t \<in> st_live St" "q \<noteq> t" using Q(1) R(1) nq that by blast+
    show False
      using blocks_apart [OF live_block [OF l(1)] live_block [OF l(2)] l(3), of "40 + 8 * i" 0] Q(2) R(2) i h by simp
  qed
  have roots: "rs_roots ?S = rs_roots S - {t}" by (auto simp: rs_roots_def)
  have cells: "rs_cells ?S = ?R - {t}" unfolding rs_cells_def roots using ncell by auto
  have plain3: "st_plain S3 = st_plain St" using W3(2) plain2 by (simp add: S3_def)
  have plain4: "st_plain S4 = st_plain St - {t}" using F(3) plain3 by (auto simp: S4_def S3_def)
  have step: "step_ok sh ({t + 8} \<union> {t} \<union> {t + 8} \<union> {}) St (rs_cells ?S) S4"
    unfolding cells
    by (rule step_ok_trans [OF step_ok_trans [OF step_ok_trans [OF W1(1) W2] W3(1)] W4])
      (use plain2 plain3 W1(2) in \<open>auto simp: S1_def\<close>)
  have pl: "st_plain S4 = rs_roots ?S \<union> rs_queues ?S" unfolding roots using plain4 D(4) nq by auto
  have "{t + 8} \<union> {t} \<union> {t + 8} \<union> {} = {t, t + 8}" by blast
  then have av: "away St {t} ({t + 8} \<union> {t} \<union> {t + 8} \<union> {})" using away_within [OF _ _ P(4)] R(1) by simp
  have G: "opens ?S sh S4" "good_step Destroy S ?S"
    by (rule rs_step [OF O step _ _ pl av, where a = Destroy]; use nq in \<open>auto simp: S4_def\<close>)+
  have "CXLRef_destroy (2 ^ 64) sh \<lparr>ref_tbr = t, ref_data = d\<rparr> ?h = Inr (\<lparr>ref_tbr = 0, ref_data = 0\<rparr>, h4)"
    using S2(1) F(1) R(7) one by (simp add: CXLRef_destroy_def Let_def h1_def h3_def)
  moreover have "rs_objs ?S = {ob. reach ?h (?R - {t}) ob}"
  proof -
    obtain rank where r: "ranked rank S1" using step_okD(2) [OF W1(1)] by (auto simp: acyclic_objs_def)
    then have r2: "ranked rank S2" by (rule ranked_dropped [OF step_okD(1) [OF W1(1)] _ S2(4)])
    have "rs_objs ?S = st_objs S2" using opens_objs [OF G(1)] by (simp add: S4_def S3_def)
    also have "\<dots> = {ob. reach (st_heap S2) ?R ob}" by (rule objects_reachable [OF S2(2) r2])
    also have "\<dots> = {ob. reach h1 (?R - {t}) ob}"
      using reach_dropped [OF step_okD(1) [OF W1(1)] S2(2,4) R(6)] by (simp add: S1_def)
    also have "\<dots> = {ob. reach ?h (?R - {t}) ob}"
    proof -
      have X: "\<And>x. x \<in> {t + 8} \<Longrightarrow> root_place ?h (st_lists St) (st_objs St) x" "{t + 8} \<inter> ?R = {}" using P(1,2) by (simp_all add: h)
      have w: "\<And>x. x \<notin> {t + 8} \<Longrightarrow> h_cell h1 x = h_cell ?h x" by (simp add: h1_def set_rr_ref_cnt_def)
      have pg: "h_page h1 = h_page ?h" by (simp add: h1_def set_rr_ref_cnt_def)
      have Gw: "slots h1 y = slots ?h y" "x \<in> slots ?h y \<Longrightarrow> h_cell h1 x = h_cell ?h x" if "y \<in> st_objs St" for x y
        using graph_write(2,3) [of ?h "st_lists St" ?R "st_objs St" h1 "{t + 8}"] D(7) pg X w that by blast+
      have old: "h_cell h1 x = h_cell ?h x" if "x \<in> ?R - {t}" for x using w [of x] X(2) that by blast
      have "reach h1 (?R - {t}) ob \<longleftrightarrow> reach ?h (?R - {t}) ob" for ob
        by (rule reach_cong [OF D(7)]; (fact old Gw | blast))
      then show ?thesis by simp
    qed
    finally show ?thesis .
  qed
  ultimately show ?thesis using G(2) by blast
qed

lemma destroy_total:
  assumes O: "opens S sh St" and t: "ref_tbr r \<in> rs_roots S"
  shows "\<exists>r' h. CXLRef_destroy (2 ^ 64) sh r (rs_heap S) = Inr (r', h)
    \<and> good_step Destroy S (S\<lparr>rs_heap := h, rs_handles := (rs_handles S)(ref_tbr r := rs_handles S (ref_tbr r) - 1)\<rparr>)
    \<and> rs_objs (S\<lparr>rs_heap := h, rs_handles := (rs_handles S)(ref_tbr r := rs_handles S (ref_tbr r) - 1)\<rparr>)
      = (if rs_handles S (ref_tbr r) = 1 then {ob. reach (rs_heap S) (rs_cells S - {ref_tbr r}) ob} else rs_objs S)"
proof (cases "rs_handles S (ref_tbr r) = 1")
  case True
  have "r = \<lparr>ref_tbr = ref_tbr r, ref_data = ref_data r\<rparr>" by simp
  with destroy_last [OF O t True, of "ref_data r"] True show ?thesis by auto
next
  case False
  let ?t = "ref_tbr r" and ?h = "rs_heap S"
  note R = opens_root [OF O t]
  have "rr_ref_cnt ?h ?t \<noteq> 0" using R(4) t by (auto simp: rs_roots_def)
  then have n: "unat (rr_ref_cnt ?h ?t - 1) = rs_handles S ?t - 1" "rs_handles S ?t - 1 \<noteq> 0"
    using R(4) t False unat_minus_one [of "rr_ref_cnt ?h ?t"] by (auto simp: rs_roots_def)
  then have "rr_ref_cnt ?h ?t - 1 \<noteq> 0" by (metis unat_0)
  then have "CXLRef_destroy (2 ^ 64) sh r ?h = Inr (r, set_rr_ref_cnt ?t (rr_ref_cnt ?h ?t - 1) ?h)"
    using R(7) by (simp add: CXLRef_destroy_def Let_def)
  moreover note rs_recount [OF O t n, of Destroy]
  ultimately show ?thesis using False by auto
qed

lemma rs_destroy:
  assumes S: "rs_inv S" and sh: "sh \<in> set (rs_clients S)" and t: "ref_tbr r \<in> rs_roots S"
    and d: "CXLRef_destroy (2 ^ 64) sh r (rs_heap S) = Inr (r', h)"
  shows "good_step Destroy S (S\<lparr>rs_heap := h, rs_handles := (rs_handles S)(ref_tbr r := rs_handles S (ref_tbr r) - 1)\<rparr>)"
proof -
  obtain St where O: "opens S sh St" using rs_open [OF S sh] by blast
  from destroy_total [OF O t] d show ?thesis by auto
qed

section \<open>Root references for objects that are there\<close>

lemma fresh_cell:
  assumes x: "root_place h V O' x" and t: "t \<notin> live h V" "t \<in> live h' V'" and sub: "live h V \<subseteq> live h' V'" and K: "keeps (live h V) h h'"
    and d: "d < bsize h' (cxl_ptr_page t)"
  shows "t + of_nat d \<noteq> x"
  using x unfolding root_place_def
proof (elim disjE bexE exE conjE)
  assume "x < SEGMENTS_AREA_START"
  then show ?thesis using block_high [OF live_block [OF t(2)] d] by auto
next
  fix b e assume b: "b \<in> live h V - O'" "e < bsize h (cxl_ptr_page b)" "x = b + of_nat e"
  then have "b \<in> live h' V'" "b \<noteq> t" "e < bsize h' (cxl_ptr_page b)" using sub t(1) keepsD(2) [OF K, of b] by auto
  then show ?thesis using blocks_apart [OF live_block [of b h' V'] live_block [OF t(2)] _ _ d, of e] b(3) by auto
qed

lemma new_root:
  assumes S: "store_inv sh R S" "acyclic_objs S" and b: "b \<in> st_objs S" "obj_cnt (st_heap S) b < 65535"
    and a: "thread_base_ref_alloc (2 ^ 64) sh (st_heap S) = Inr (Some t, h1)"
  defines "h2 \<equiv> link_reference sh t b h1"
  shows "\<exists>S3. st_heap S3 = set_rr_ref_cnt t (rr_ref_cnt h2 t + 1) h2 \<and> step_ok sh {t, t + 8} S (insert t R) S3
    \<and> t \<notin> st_live S \<and> st_plain S3 = insert t (st_plain S) \<and> st_objs S3 = st_objs S \<and> away S {} {t, t + 8}
    \<and> bsize (st_heap S3) (cxl_ptr_page t) = 16 \<and> rr_pptr (st_heap S3) t = b \<and> rr_ref_cnt (st_heap S3) t = 1
    \<and> rr_in_use (st_heap S3) t = 1 \<and> t \<noteq> 0"
proof -
  have inv: "client_inv sh (st_heap S) (st_lists S) (st_pool S)" and g: "graph (st_heap S) (st_lists S) R (st_objs S)"
    using S(1) by (simp_all add: store_inv_def)
  from tbr_step [OF inv order.refl] a obtain V1 P1 where T: "client_inv sh h1 V1 P1" "t \<notin> st_live S" "live h1 V1 = insert t (st_live S)"
    "keeps (st_live S) (st_heap S) h1" "others_ok sh (st_heap S) h1" "bsize h1 (cxl_ptr_page t) = 16" "rr_pptr h1 t = 0" "rr_ref_cnt h1 t = 0"
    "rr_in_use h1 t = 1" by auto
  define S1 where "S1 = \<lparr>st_heap = h1, st_lists = V1, st_pool = P1, st_objs = st_objs S \<union> {}\<rparr>"
  have sub: "st_objs S \<subseteq> st_live S" using graphD(1) [OF g] by blast
  have tb: "t = t + of_nat 0" by simp
  have W1: "step_ok sh {} S (R \<union> {t}) S1"
    unfolding S1_def
  proof (rule grow_ok [OF S T(1,5), of "{t}"])
    show "keeps (st_live S) (st_heap S) h1" by (rule T(4))
    show "\<exists>b \<in> {t}. \<exists>d < bsize h1 (cxl_ptr_page b). x = b + of_nat d" if "x \<in> {t}" for x
      using that T(6) tb by (metis singletonD singletonI zero_less_numeral)
  qed (use T(2,3,7) in \<open>auto simp: rr_pptr_def\<close>)
  have K: "h_cell h1 x = h_cell (st_heap S) x" if "st_place S x" for x using keeps_place [OF T(4) that] by blast
  have far: "t + of_nat d \<noteq> x" if "st_place S x" "d < 16" for x d
    using fresh_cell [OF that(1) T(2) _ _ T(4), of V1 d] T(3,6) that(2) by auto
  have far2: "t \<noteq> x" "t + 8 \<noteq> x" if "st_place S x" for x using far [OF that, of 0] far [OF that, of 8] by simp_all
  have tR: "t + 8 \<notin> R \<union> {t}" using far2 graphD(3) [OF g] by auto
  have S1: "store_inv sh (R \<union> {t}) S1" "acyclic_objs S1" "h_cell (st_heap S1) t = 0" "b \<in> st_objs S1"
    using step_okD [OF W1] T(7) b(1) by (simp_all add: S1_def rr_pptr_def)
  have "obj_cnt h1 b = obj_cnt (st_heap S) b" using slots_keep(4) [OF g T(4) b(1)] sub b(1) by blast
  then have few: "card (st_holders (R \<union> {t}) S1 b) < 65535" using graphD(5) [OF store_graph [OF S1(1)] S1(4)] b(2) by (simp add: S1_def)
  have tc: "t \<in> st_cells (R \<union> {t}) S1" by (simp add: ref_cells_def)
  define S2 where "S2 = S1\<lparr>st_heap := h2\<rparr>"
  have W2: "step_ok sh {t} S1 (R \<union> {t}) S2"
    using link_root_ok [OF S1(1,2) _ S1(3,4) few] by (simp add: S2_def h2_def S1_def)
  have L2: "h_cell h2 t = b" "st_place S1 x \<Longrightarrow> x \<noteq> t \<Longrightarrow> h_cell h2 x = h_cell h1 x" for x
    using link_cells(1,2) [OF store_graph [OF S1(1)] S1(4) tc, where sh = sh] by (simp_all add: h2_def S1_def)
  have ss2: "bsize h2 = bsize h1" "live h2 V1 = live h1 V1"
  proof -
    have "same_shape h1 h2" using link_heap(1) [of sh h1 t b] by (intro same_shape_page) (simp add: h2_def log_only_def)
    then show "bsize h2 = bsize h1" "live h2 V1 = live h1 V1" by (simp_all add: same_shapeD live_def)
  qed
  have tpl: "t \<in> st_plain S1" using T(2,3) sub by (auto simp: S1_def)
  have p8: "st_place S1 (t + 8)" using root_placeI [OF tpl, of 8] T(6) by (simp add: S1_def)
  define h3 where "h3 = set_rr_ref_cnt t (rr_ref_cnt h2 t + 1) h2"
  define S3 where "S3 = S2\<lparr>st_heap := h3\<rparr>"
  have l3: "log_only sh (st_heap S2) h3" by (simp add: h3_def set_rr_ref_cnt_def S2_def)
  have p8': "st_place S2 (t + 8)" using p8 ss2 by (simp add: S2_def S1_def root_place_def)
  have W3: "step_ok sh {t + 8} S2 (R \<union> {t}) S3" "live h3 V1 = live h2 V1"
    using write_ok [OF step_okD(1,2) [OF W2] l3, of "{t + 8}"] p8' tR by (auto simp: h3_def set_rr_ref_cnt_def S3_def S2_def S1_def)
  have b3: "bsize h3 = bsize h2" by (simp add: h3_def set_rr_ref_cnt_def bsize_def fun_eq_iff)
  have plain: "st_plain S3 = insert t (st_plain S)" "st_plain S2 = insert t (st_plain S)" "st_plain S1 = insert t (st_plain S)"
    using W3(2) ss2(2) T(2,3) sub by (auto simp: S3_def S2_def S1_def)
  have "step_ok sh ({} \<union> {t} \<union> {t + 8}) S (R \<union> {t}) S3"
    by (rule step_ok_trans [OF step_ok_trans [OF W1 W2] W3(1)]) (use plain in auto)
  moreover have "{} \<union> {t} \<union> {t + 8} = {t, t + 8}" "R \<union> {t} = insert t R" by blast+
  ultimately have "step_ok sh {t, t + 8} S (insert t R) S3" by simp
  moreover have "away S {} {t, t + 8}"
    unfolding away_def
  proof (intro ballI allI impI)
    fix c d assume "c \<in> st_plain S - {}" "d < bsize (st_heap S) (cxl_ptr_page c)"
    then have "st_place S (c + of_nat d)" by (intro root_placeI) simp_all
    then show "c + of_nat d \<notin> {t, t + 8}" using far2 [of "c + of_nat d"] by simp
  qed
  moreover have "rr_ref_cnt h2 t = 0" using L2(2) [OF p8] T(8) by (simp add: rr_ref_cnt_def)
  then have "rr_ref_cnt h3 t = 1" by (simp add: h3_def)
  moreover have "rr_in_use h2 t = 1" using L2(2) [OF p8] T(9) by (simp add: rr_in_use_def)
  then have "rr_in_use h3 t = 1" by (simp add: h3_def)
  moreover have "rr_pptr h3 t = b" using L2(1) by (simp add: h3_def rr_pptr_def set_rr_ref_cnt_def)
  moreover have "t \<noteq> 0" using block_high [OF live_block [of t h1 V1], of 0] T(3,6) by (auto simp: layout)
  ultimately show ?thesis
    using T(2,6) plain(1) b3 ss2(1) unfolding h3_def [symmetric]
    by (intro exI [of _ S3]) (simp add: S3_def S2_def S1_def)
qed

lemma rs_fetch:
  assumes S: "rs_inv S" and sh: "sh \<in> set (rs_clients S)" and b: "b \<in> rs_objs S" "obj_cnt (rs_heap S) b < 65535"
    and f: "get_ref (2 ^ 64) sh b (rs_heap S) = Inr (r, h)"
  shows "good_step Fetch S (S\<lparr>rs_heap := h, rs_handles := (rs_handles S)(ref_tbr r := 1)\<rparr>)"
proof -
  let ?h = "rs_heap S"
  obtain St where O: "opens S sh St" using rs_open [OF S sh] by blast
  note D = opensD [OF O] and hh = opensD(1) [OF O]
  from f obtain t h1 where a: "thread_base_ref_alloc (2 ^ 64) sh ?h = Inr (Some t, h1)"
    by (auto simp: get_ref_def bnd_Inr_iff)
  let ?h2 = "link_reference sh t b h1"
  have r: "ref_tbr r = t" and h: "h = set_rr_ref_cnt t (rr_ref_cnt ?h2 t + 1) ?h2"
    using f a by (auto simp: get_ref_def Let_def CXLRef_make_def)
  have "b \<in> st_objs St" "obj_cnt (st_heap St) b < 65535" "thread_base_ref_alloc (2 ^ 64) sh (st_heap St) = Inr (Some t, h1)"
    using b opens_objs [OF O] a hh by simp_all
  from new_root [OF D(2,3) this] obtain S3 where N: "st_heap S3 = h" "step_ok sh {t, t + 8} St (insert t (rs_cells S)) S3"
    "t \<notin> st_live St" "st_plain S3 = insert t (st_plain St)" "away St {} {t, t + 8}" "bsize h (cxl_ptr_page t) = 16"
    "rr_pptr h t = b" "rr_ref_cnt h t = 1" "rr_in_use h t = 1" unfolding h by metis
  let ?S = "S\<lparr>rs_heap := h, rs_handles := (rs_handles S)(t := 1)\<rparr>"
  have roots: "rs_roots ?S = insert t (rs_roots S)" by (auto simp: rs_roots_def)
  have cells: "rs_cells ?S = insert t (rs_cells S)" unfolding rs_cells_def roots by simp
  have nq: "t \<notin> rs_queues S" using D(4) N(3) by blast
  have "b \<noteq> 0" using object_nonzero [OF D(7)] b(1) opens_objs [OF O] by simp
  moreover have "away St {t} {t, t + 8}" using N(5) by (simp add: away_def)
  ultimately have "good_step Fetch S ?S"
    by (intro rs_step(2) [OF O N(2) [folded cells], where B = "{t}"])
      (use N nq D(4) roots in \<open>auto simp: hh\<close>)
  then show ?thesis by (simp add: r)
qed

end
