(* ===== verification/Ref_Messages.thy ===== *)
theory Ref_Messages
  imports Ref_Steps
begin

text \<open>
  Making a message queue, sending a reference and receiving it keep the invariant of the
  reference system and do to the queue what the label of the step says.
\<close>

section \<open>Queues of a client\<close>

text \<open>Registering with a queue and chaining a client's queues touch no reference.\<close>

lemma good_step_trans_left:
  assumes "good_step Idle S S1" and "good_step a S1 S2"
  shows "good_step a S S2"
proof -
  have "effect a q (queued (rs_heap S) q) (queued (rs_heap S2) q)" if "q \<in> rs_queues S" for q
  proof -
    have "queued (rs_heap S1) q = queued (rs_heap S) q" "q \<in> rs_queues S1" using assms(1) that by (auto simp: good_step_def)
    then show ?thesis using assms(2) unfolding good_step_def by metis
  qed
  then show ?thesis using assms unfolding good_step_def by blast
qed

lemma good_step_trans_right:
  assumes "good_step a S S1" and "good_step Idle S1 S2"
  shows "good_step a S S2"
proof -
  have "effect a q (queued (rs_heap S) q) (queued (rs_heap S2) q)" if "q \<in> rs_queues S" for q
  proof -
    have "q \<in> rs_queues S1" using assms(1) that by (auto simp: good_step_def)
    then have "queued (rs_heap S2) q = queued (rs_heap S1) q" using assms(2) by (simp add: good_step_def)
    then show ?thesis using assms(1) that unfolding good_step_def by metis
  qed
  then show ?thesis using assms unfolding good_step_def by blast
qed

lemma rs_admin:
  assumes S: "rs_inv S" and eq: "h_page h' = h_page (rs_heap S)" "h_sas h' = h_sas (rs_heap S)" "h_seg h' = h_seg (rs_heap S)"
    and tls: "\<And>a. tls_pages (h_tls h' a) = tls_pages (h_tls (rs_heap S) a) \<and> tls_free_page (h_tls h' a) = tls_free_page (h_tls (rs_heap S) a)
      \<and> tls_packed_id (h_tls h' a) = tls_packed_id (h_tls (rs_heap S) a)"
    and q: "q \<in> rs_queues S" and w: "\<And>x. x \<noteq> q + 16 \<Longrightarrow> x \<noteq> q + 24 \<Longrightarrow> x \<noteq> q + 32 \<Longrightarrow> h_cell h' x = h_cell (rs_heap S) x"
    and sh: "sh \<in> set (rs_clients S)"
  shows "good_step Idle S (S\<lparr>rs_heap := h'\<rparr>)" and "rs_objs (S\<lparr>rs_heap := h'\<rparr>) = rs_objs S"
    and "ob \<in> rs_objs S \<Longrightarrow> obj_cnt h' ob = obj_cnt (rs_heap S) ob"
    and "i < 16 \<Longrightarrow> h_cell h' (mq_slot q (of_nat i)) = h_cell (rs_heap S) (mq_slot q (of_nat i))"
    and "mq_start h' q = mq_start (rs_heap S) q" "mq_end h' q = mq_end (rs_heap S) q"
proof -
  let ?h = "rs_heap S" and ?S = "S\<lparr>rs_heap := h'\<rparr>"
  obtain St where O: "opens S sh St" using rs_open [OF S sh] by blast
  note D = opensD [OF O] and hh = opensD(1) [OF O] and Q = opens_queue [OF O q]
  obtain Ps where P: "pools_inv ?h (st_lists St) (rs_clients S) Ps" using O by (auto simp: opens_def)
  let ?X = "{q + of_nat 16, q + of_nat 24, q + of_nat 32}"
  have w': "h_cell h' x = h_cell ?h x" if "x \<notin> ?X" for x using w [of x] that by simp
  have mid: "x \<in> ?X \<Longrightarrow> \<exists>d. x = q + of_nat d \<and> (d = 16 \<or> d = 24 \<or> d = 32)" for x by blast
  have X: "root_place ?h (st_lists St) (st_objs St) x \<and> x \<notin> rs_cells S" if x: "x \<in> ?X" for x
  proof -
    obtain d where d: "x = q + of_nat d" "d = 16 \<or> d = 24 \<or> d = 32" using mid [OF x] by blast
    then have n: "d < bsize ?h (cxl_ptr_page q)" using Q(2) by auto
    have "x \<notin> rs_cells S"
    proof
      assume "x \<in> rs_cells S"
      then have "q \<in> rs_roots S \<and> d = 0 \<or> q \<in> rs_queues S \<and> (\<exists>i < 16. d = 40 + 8 * i)"
        using ref_cell_offset [OF O _ n] Q(1) d(1) by blast
      then show False using d(2) by auto
    qed
    then show ?thesis using root_placeI [OF Q(1) [unfolded hh] n] d(1) by simp
  qed
  have A: "alloc_inv ?h (st_lists St)" using P by (simp add: pools_inv_def)
  have keep: "h_cell h' x = h_cell ?h x" if "listed (st_lists St) x" for x
    using that root_place_unlisted [OF A] X w' by blast
  have P': "pools_inv h' (st_lists St) (rs_clients S) Ps" by (rule pools_same [OF P eq tls keep])
  have X': "\<And>x. x \<in> ?X \<Longrightarrow> root_place ?h (st_lists St) (st_objs St) x" "?X \<inter> rs_cells S = {}" using X by blast+
  have Gw: "graph h' (st_lists St) (rs_cells S) (st_objs St)"
    "\<And>y. y \<in> st_objs St \<Longrightarrow> slots h' y = slots ?h y" "\<And>x y. y \<in> st_objs St \<Longrightarrow> x \<in> slots ?h y \<Longrightarrow> h_cell h' x = h_cell ?h x"
    using graph_write [of ?h "st_lists St" "rs_cells S" "st_objs St" h' ?X] D(7) eq(1) X' w' by blast+
  obtain rank where r: "ranked rank St" using D(3) by (auto simp: acyclic_objs_def)
  then have "ranked rank \<lparr>st_heap = h', st_lists = st_lists St, st_pool = empty_pool, st_objs = st_objs St\<rparr>"
    using Gw(2,3) by (auto simp: ranked_def hh)
  then have ac: "acyclic_objs \<lparr>st_heap = h', st_lists = st_lists St, st_pool = empty_pool, st_objs = st_objs St\<rparr>"
    by (auto simp: acyclic_objs_def)
  have ss: "same_shape ?h h'" by (rule same_shape_page [OF eq(1)])
  have st: "stays ?X St (St\<lparr>st_heap := h'\<rparr>)"
    using w' by (auto simp: stays_def hh same_shapeD [OF ss])
  have plain: "st_plain (St\<lparr>st_heap := h'\<rparr>) = st_plain St" by (simp add: live_def hh same_shapeD [OF ss])
  have "within (st_heap St) q ?X"
    unfolding within_def
  proof
    fix x assume "x \<in> ?X"
    then obtain d where "x = q + of_nat d" "d = 16 \<or> d = 24 \<or> d = 32" using mid by blast
    then show "\<exists>d < bsize (st_heap St) (cxl_ptr_page q). x = q + of_nat d" using Q(2) hh by (intro exI [of _ d]) auto
  qed
  then have aw: "away St {q} ?X" using away_within Q(1) by blast
  have sub: "rs_roots S \<union> rs_queues S - {q} \<subseteq> st_plain (St\<lparr>st_heap := h'\<rparr>)" unfolding plain using D(4) by blast
  note K = rest_kept [OF O st aw sub]
  have off: "q + of_nat d \<notin> ?X" if "d \<noteq> 16" "d \<noteq> 24" "d \<noteq> 32" "d < 192" for d
  proof -
    have "(of_nat d :: u64) \<noteq> of_nat 16" "(of_nat d :: u64) \<noteq> of_nat 24" "(of_nat d :: u64) \<noteq> of_nat 32"
      using that by (subst of_nat_eq_64; simp)+
    then show ?thesis by simp
  qed
  show e: "mq_start h' q = mq_start ?h q" "mq_end h' q = mq_end ?h q"
    using w' [OF off [of 0]] w' [OF off [of 8]] by (simp_all add: mq_start_def mq_end_def)
  show s: "h_cell h' (mq_slot q (of_nat i)) = h_cell ?h (mq_slot q (of_nat i))" if "i < 16" for i
    using w' [OF off [of "40 + 8 * i"]] that unfolding slot_offset by simp
  have q1: "ring_ok h' q" "queued h' q = queued ?h q" using queue_same [OF e s] Q(4) by blast+
  have qs: "bsize h' (cxl_ptr_page p) = 192 \<and> pg_is_msg_queue_page (h_page h' (cxl_ptr_page p)) \<and> ring_ok h' p \<and> queued h' p = queued ?h p"
    if "p \<in> rs_queues S" for p
    using K(2) [OF that] q1 Q(2,3) eq(1) by (cases "p = q") (simp_all add: same_shapeD [OF ss])
  have roots: "roots_ok h' (rs_handles S)"
    unfolding roots_ok_def
  proof (intro allI impI)
    fix t assume "rs_handles S t \<noteq> 0"
    then have t: "t \<in> rs_roots S" by (simp add: rs_roots_def)
    have "t \<noteq> q" using opens_root(2) [OF O t] Q(2) by auto
    then show "bsize h' (cxl_ptr_page t) = 16 \<and> rr_pptr h' t \<noteq> 0 \<and> unat (rr_ref_cnt h' t) = rs_handles S t \<and> rr_in_use h' t = 1"
      using K(1) [OF t] opens_root(3,4,8) [OF O t] by simp
  qed
  have cells: "rs_cells ?S = rs_cells S" "rs_roots ?S = rs_roots S" by (simp_all add: rs_cells_def rs_roots_def)
  have nl: "no_leak h'" using D(1,2) eq(2) by (simp add: store_inv_def no_leak_def)
  have "queues_ok h' (rs_queues S)" using qs by (simp add: queues_ok_def)
  then have "rs_inv ?S"
    unfolding rs_inv_def cells using P' Gw(1) ac roots nl plain D(4)
    by (intro exI [of _ "st_lists St"] exI [of _ Ps] exI [of _ "st_objs St"]) simp
  then show "good_step Idle S ?S" using qs by (simp add: good_step_def)
  have "reach h' (rs_cells S) ob \<longleftrightarrow> reach ?h (rs_cells S) ob" for ob
  proof (rule reach_cong [OF D(7) order.refl])
    show "h_cell h' x = h_cell ?h x" if "x \<in> rs_cells S" for x using w' X that by blast
  qed (use Gw(2,3) in blast)+
  then show "rs_objs ?S = rs_objs S" by (simp add: rs_objs_def cells)
  show "obj_cnt h' ob = obj_cnt ?h ob" if ob: "ob \<in> rs_objs S"
  proof -
    have o: "ob \<in> st_objs St" using ob opens_objs [OF O] by simp
    have b: "block_in ?h (cxl_ptr_page ob) ob" "24 \<le> bsize ?h (cxl_ptr_page ob)"
      using graphD(1,2) [OF D(7) o] by (simp_all add: live_def object_at_def freeable_def)
    have "ob + 8 \<notin> ?X"
    proof
      assume "ob + 8 \<in> ?X"
      then obtain d where d: "ob + of_nat 8 = q + of_nat d" "d = 16 \<or> d = 24 \<or> d = 32" using mid [of "ob + 8"] by auto
      have "block_in ?h (cxl_ptr_page q) q" "ob \<noteq> q" using Q(1) live_block o hh by auto
      then show False using blocks_apart [OF b(1) _ _, of "cxl_ptr_page q" q 8 d] b(2) Q(2) d by auto
    qed
    then have "h_cell h' (ob + 8) = h_cell ?h (ob + 8)" by (rule w')
    then show ?thesis by (simp add: obj_cnt_def obj_ref_info_def)
  qed
qed

lemma rs_create:
  assumes S: "rs_inv S" and sh: "sh \<in> set (rs_clients S)" and c: "create_msg_queue (2 ^ 64) sh dst (rs_heap S) = Inr (q, h)"
  shows "good_step Create S (S\<lparr>rs_heap := h, rs_queues := insert q (rs_queues S)\<rparr>)" "queued h q = []"
    and "b \<in> rs_roots S \<union> rs_objs S \<Longrightarrow> d < bsize (rs_heap S) (cxl_ptr_page b)
      \<Longrightarrow> h_cell h (b + of_nat d) = h_cell (rs_heap S) (b + of_nat d)"
proof -
  let ?h = "rs_heap S"
  obtain St where O: "opens S sh St" using rs_open [OF S sh] by blast
  note D = opensD [OF O] and hh = opensD(1) [OF O]
  have inv: "client_inv sh ?h (st_lists St) (st_pool St)" using D(1,2) by (simp add: store_inv_def)
  from c obtain h1 where a: "msg_queue_alloc (2 ^ 64) sh (ucast (shm_thread_id sh)) dst ?h = Inr (Some q, h1)"
    by (auto simp: create_msg_queue_def bnd_Inr_iff Let_def)
  let ?L = "live ?h (st_lists St)"
  from queue_step [OF inv order.refl, of "ucast (shm_thread_id sh)" dst] a obtain V' P' where T: "client_inv sh h1 V' P'" "q \<notin> ?L"
    "live h1 V' = insert q ?L" "keeps ?L ?h h1" "others_ok sh ?h h1" "bsize h1 (cxl_ptr_page q) = 192"
    "pg_is_msg_queue_page (h_page h1 (cxl_ptr_page q))" "mq_start h1 q = 0" "mq_end h1 q = 0"
    "\<forall>i < 16. h_cell h1 (mq_slot q (of_nat i)) = 0" by auto
  let ?S1 = "S\<lparr>rs_heap := h1, rs_queues := insert q (rs_queues S)\<rparr>"
  let ?St = "\<lparr>st_heap = h1, st_lists = V', st_pool = P', st_objs = st_objs St \<union> {}\<rparr>"
  have sub: "st_objs St \<subseteq> st_live St" using graphD(1) [OF D(7)] hh by auto
  have roots: "rs_roots ?S1 = rs_roots S" by (simp add: rs_roots_def)
  have cells: "rs_cells ?S1 = rs_cells S \<union> queue_cells q" unfolding rs_cells_def roots by auto
  have step: "step_ok sh {} St (rs_cells S \<union> queue_cells q) ?St"
  proof (rule grow_ok [OF D(2,3) T(1), of "{q}"])
    show "others_ok sh (st_heap St) h1" "keeps (st_live St) (st_heap St) h1" using T(4,5) hh by simp_all
    show "\<exists>b \<in> {q}. \<exists>d < bsize h1 (cxl_ptr_page b). x = b + of_nat d" if x: "x \<in> queue_cells q" for x
    proof -
      from x obtain i where "i < 16" "x = q + of_nat (40 + 8 * i)" by (rule queue_cellsE)
      then show ?thesis using T(6) by (intro bexI [of _ q] exI [of _ "40 + 8 * i"]) simp_all
    qed
    show "h_cell h1 x = 0 \<or> h_cell h1 x \<in> {}" if x: "x \<in> queue_cells q" for x
      using x T(10) by (auto elim: queue_cellsE)
  qed (use T(2,3) hh in auto)
  have nr: "q \<notin> rs_roots S" "q \<notin> rs_queues S" using D(4) T(2) hh by auto
  have ring: "ring_ok h1 q" using T(8-10) by (simp add: ring_ok_def ring_idx_def)
  have G: "good_step Create S ?S1"
    by (rule rs_step(2) [OF O step [folded cells], where B = "{q}"])
      (use T nr D(4) hh roots sub ring in \<open>auto simp: rs_roots_def\<close>)
  have h: "h = upd_tls (shm_tls_offset sh) (\<lambda>t. t\<lparr>tls_sender_queue := q\<rparr>)
      (set_cell (q + 24) (tls_sender_queue (h_tls h1 (shm_tls_offset sh))) h1)"
    using c a by (simp add: create_msg_queue_def Let_def)
  have "rs_inv ?S1" using G by (simp add: good_step_def)
  then have "good_step Idle ?S1 (?S1\<lparr>rs_heap := h\<rparr>)"
    by (rule rs_admin(1) [where q = q and sh = sh]) (use sh in \<open>simp_all add: h\<close>)
  moreover have "?S1\<lparr>rs_heap := h\<rparr> = S\<lparr>rs_heap := h, rs_queues := insert q (rs_queues S)\<rparr>" by (cases S) simp
  ultimately have I: "good_step Idle ?S1 (S\<lparr>rs_heap := h, rs_queues := insert q (rs_queues S)\<rparr>)" by simp
  show "good_step Create S (S\<lparr>rs_heap := h, rs_queues := insert q (rs_queues S)\<rparr>)" by (rule good_step_trans_right [OF G I])
  have "queued h q = queued h1 q" using I by (simp add: good_step_def)
  then show "queued h q = []" using T(8,9) by (simp add: queued_def ring_idx_def)
  show "h_cell h (b + of_nat d) = h_cell ?h (b + of_nat d)" if b: "b \<in> rs_roots S \<union> rs_objs S" and d: "d < bsize ?h (cxl_ptr_page b)"
  proof -
    have "b \<in> ?L" using b opens_root(1) [OF O] opens_objs [OF O] graphD(1) [OF D(7)] hh by auto
    note K = keepsD(2,4) [OF T(4) this]
    have "within h1 q {q + of_nat 24}" using T(6) unfolding within_def by (intro ballI exI [of _ 24]) simp
    then have "b + of_nat d \<notin> {q + of_nat 24}"
      using within_other [of q h1 V' b "{q + of_nat 24}" d] \<open>b \<in> ?L\<close> T(2,3) K(1) d by auto
    then have "h_cell h (b + of_nat d) = h_cell h1 (b + of_nat d)" by (simp add: h)
    then show ?thesis using K(2) [OF d] by simp
  qed
qed

text \<open>The cells of a queue.\<close>

lemma queue_place:
  assumes O: "opens S sh St" and q: "q \<in> rs_queues S"
  shows "d < 192 \<Longrightarrow> st_place St (q + of_nat d)" "d < 40 \<Longrightarrow> q + of_nat d \<notin> rs_cells S"
    and "(\<And>x. x \<in> X \<Longrightarrow> \<exists>d < 192. x = q + of_nat d) \<Longrightarrow> away St {q} X"
    and "i < 16 \<Longrightarrow> mq_slot q (of_nat i) \<in> rs_cells S"
proof -
  note Q = opens_queue [OF O q] and hh = opensD(1) [OF O]
  show "st_place St (q + of_nat d)" if "d < 192" using root_placeI [OF Q(1), of d] Q(2) hh that by simp
  show "q + of_nat d \<notin> rs_cells S" if "d < 40"
  proof
    assume c: "q + of_nat d \<in> rs_cells S"
    have "q \<in> st_live St" "d < bsize (rs_heap S) (cxl_ptr_page q)" using Q(1,2) that by simp_all
    from ref_cell_offset [OF O this c] show False using opens_root(2) [OF O, of q] Q(2) that by auto
  qed
  show "away St {q} X" if "\<And>x. x \<in> X \<Longrightarrow> \<exists>d < 192. x = q + of_nat d"
  proof (rule away_within)
    show "within (st_heap St) q X" using that Q(2) hh by (simp add: within_def)
  qed (use Q(1) in auto)
  show "mq_slot q (of_nat i) \<in> rs_cells S" if "i < 16" using Q(5) that by (auto simp: queue_cells_def)
qed

lemma rs_send:
  assumes S: "rs_inv S" and sh: "sh \<in> set (rs_clients S)" and q: "q \<in> rs_queues S" and r: "ref_tbr r \<in> rs_roots S"
    and few: "obj_cnt (rs_heap S) (rr_pptr (rs_heap S) (ref_tbr r)) < 65535"
    and s: "sent_to sh q r (rs_heap S) = Inr (True, h)"
  shows "good_step (Send q (rr_pptr (rs_heap S) (ref_tbr r))) S (S\<lparr>rs_heap := h\<rparr>)"
proof -
  let ?h = "rs_heap S" and ?v = "rr_pptr (rs_heap S) (ref_tbr r)"
  obtain St where O: "opens S sh St" using rs_open [OF S sh] by blast
  note D = opensD [OF O] and hh = opensD(1) [OF O] and R = opens_root [OF O r] and Q = opens_queue [OF O q] and P = queue_place [OF O q]
  let ?e = "unat (mq_end ?h q)" and ?c = "mq_slot q (mq_end ?h q)"
  have b: "unat (mq_start ?h q) < 16" "?e < 16" using Q(4) by (simp_all add: ring_ok_def)
  have c: "?c = mq_slot q (of_nat ?e)" by simp
  have cR: "?c \<in> rs_cells S" using P(4) [OF b(2)] by simp
  then have cc: "?c \<in> st_cells (rs_cells S) St" by (simp add: ref_cells_def)
  have c0: "h_cell (st_heap St) ?c = 0" using Q(4) ring_idx_props(3) [OF b] b(2) hh by (auto simp: ring_ok_def)
  have vO: "?v \<in> st_objs St" by (rule R(5))
  have fw: "card (st_holders (rs_cells S) St ?v) < 65535" using graphD(5) [OF D(7)] vO few hh by simp
  define h1 where "h1 = link_reference sh ?c ?v ?h"
  define S1 where "S1 = St\<lparr>st_heap := h1\<rparr>"
  have W1: "step_ok sh {?c} St (rs_cells S) S1" using link_root_ok [OF D(2,3) cR c0 vO fw] by (simp add: S1_def h1_def hh)
  note L = link_cells(1,2) [OF store_graph [OF D(2)] vO cc, where sh = sh, unfolded hh, folded h1_def]
  have coff: "?c = q + of_nat (40 + 8 * ?e)" using slot_offset [of q ?e] by simp
  have ne: "q + of_nat d \<noteq> ?c" if "d < 40" for d
  proof -
    have "(of_nat d :: u64) \<noteq> of_nat (40 + 8 * ?e)" using that b(2) by (subst of_nat_eq_64) simp_all
    then show ?thesis unfolding coff by simp
  qed
  have se: "mq_start h1 q = mq_start ?h q" "mq_end h1 q = mq_end ?h q"
    using L(2) [OF P(1) [of 0, unfolded hh] ne [of 0]] L(2) [OF P(1) [of 8, unfolded hh] ne [of 8]] by (simp_all add: mq_start_def mq_end_def)
  have nf: "\<not> queue_full ?h q" and h: "h = set_cell (q + 8) ((mq_end ?h q + 1) mod MESSAGE_BUFFER_SIZE) h1"
    using s R(7) se by (auto simp: sent_to_def get_tbr_def get_data_at_addr_def queue_full_def Let_def h1_def split: if_splits)
  define S2 where "S2 = S1\<lparr>st_heap := h\<rparr>"
  have ss1: "same_shape ?h h1" using link_heap(1) [of sh ?h ?c ?v] by (intro same_shape_page) (simp add: h1_def log_only_def)
  have place1: "st_place S1 x \<longleftrightarrow> st_place St x" for x
    by (simp add: S1_def root_place_def live_def hh same_shapeD [OF ss1])
  have p8: "st_place S1 (q + 8)" "q + 8 \<notin> rs_cells S" using P(1) [of 8] P(2) [of 8] place1 by simp_all
  have W2: "step_ok sh {q + 8} S1 (rs_cells S) S2" "live h (st_lists St) = live h1 (st_lists St)"
    using write_ok [OF step_okD(1,2) [OF W1], of h "{q + 8}"] p8 by (simp_all add: S2_def S1_def h)
  let ?S = "S\<lparr>rs_heap := h\<rparr>"
  have roots: "rs_roots ?S = rs_roots S" by (simp add: rs_roots_def)
  have cells: "rs_cells ?S = rs_cells S" unfolding rs_cells_def roots by simp
  have plain: "st_plain S1 = st_plain St" "st_plain S2 = st_plain St"
    using W2(2) by (simp_all add: S2_def S1_def live_def hh same_shapeD [OF ss1])
  have step: "step_ok sh ({?c} \<union> {q + 8}) St (rs_cells ?S) S2"
    unfolding cells by (rule step_ok_trans [OF W1 W2(1)]) (simp add: plain)
  have aw: "away St {q} ({?c} \<union> {q + 8})"
  proof (rule P(3))
    fix x assume "x \<in> {?c} \<union> {q + 8}"
    then have "x = q + of_nat (40 + 8 * ?e) \<or> x = q + of_nat 8" using coff by auto
    moreover have "40 + 8 * ?e < 192" "8 < (192 :: nat)" using b(2) by simp_all
    ultimately show "\<exists>d < 192. x = q + of_nat d" by blast
  qed
  have old: "h_cell h (mq_slot q (of_nat i)) = h_cell ?h (mq_slot q (of_nat i))" if "i < 16" "of_nat i \<noteq> mq_end ?h q" for i
  proof -
    have "i \<noteq> ?e" using that(2) by auto
    then have "mq_slot q (of_nat i) \<noteq> ?c" using slot_inj [OF that(1) b(2), of q] by simp
    moreover have "q + of_nat 8 \<noteq> mq_slot q (of_nat i)" unfolding slot_offset add_left_cancel using that(1) by (subst of_nat_eq_64) simp_all
    moreover have "st_place St (mq_slot q (of_nat i))" unfolding slot_offset using that(1) by (intro P(1)) simp
    ultimately show ?thesis using L(2) [of "mq_slot q (of_nat i)"] hh by (simp add: h)
  qed
  have "mq_start h q = mq_start ?h q" using se(1) by (simp add: h mq_start_def)
  moreover have "mq_end h q = (mq_end ?h q + 1) mod MESSAGE_BUFFER_SIZE" by (simp add: h mq_end_def)
  moreover have "h_cell h ?c = ?v" using L(1) ne [of 8] by (auto simp: h)
  ultimately have A: "ring_ok h q" "queued h q = queued ?h q @ [?v]"
    by (rule queue_append [OF Q(4) nf R(3)]; use old in blast)+
  have b2: "bsize h = bsize ?h" "h_page h = h_page ?h"
    using same_shapeD(1) [OF ss1] link_heap(1) [of sh ?h ?c ?v] by (simp_all add: h h1_def log_only_def bsize_def fun_eq_iff)
  have nr: "q \<notin> rs_roots S" using opens_root(2) [OF O] Q(2) by auto
  show ?thesis
    by (rule rs_step(2) [OF O step _ _ _ aw])
      (use A b2 Q plain D(4) roots nr q in \<open>auto simp: S2_def rs_roots_def\<close>)
qed

lemma rs_refuse:
  assumes "rs_inv S" and "ref_tbr r \<in> rs_roots S" and "sent_to sh q r (rs_heap S) = Inr (False, h)"
  shows "good_step Refuse S (S\<lparr>rs_heap := h\<rparr>)"
proof -
  have "h = rs_heap S" using assms(3) by (auto simp: sent_to_def bnd_Inr_iff Let_def split: if_splits)
  then show ?thesis using assms(1) by (simp add: good_step_def)
qed

text \<open>Receiving: the receiver registers, makes a root reference for the first message, and takes it out.\<close>

lemma registered:
  assumes S: "rs_inv S" and sh: "sh \<in> set (rs_clients S)" and q: "q \<in> rs_queues S"
  defines "h0 \<equiv> register_receiver sh q (rs_heap S)"
  shows "good_step Idle S (S\<lparr>rs_heap := h0\<rparr>)" and "rs_objs (S\<lparr>rs_heap := h0\<rparr>) = rs_objs S"
    and "ob \<in> rs_objs S \<Longrightarrow> obj_cnt h0 ob = obj_cnt (rs_heap S) ob"
    and "i < 16 \<Longrightarrow> h_cell h0 (mq_slot q (of_nat i)) = h_cell (rs_heap S) (mq_slot q (of_nat i))"
    and "mq_start h0 q = mq_start (rs_heap S) q" "mq_end h0 q = mq_end (rs_heap S) q"
  by (rule rs_admin [OF S _ _ _ _ q _ sh]; simp add: h0_def register_receiver_def set_mq_receiver_id_def Let_def)+

lemma root_alloc_nonzero:
  assumes "client_inv sh h V P" and "thread_base_ref_alloc (2 ^ 64) sh h = Inr (Some t, h1)"
  shows "t \<noteq> 0" and "b \<in> live h V \<Longrightarrow> d < bsize h (cxl_ptr_page b) \<Longrightarrow> h_cell h1 (b + of_nat d) = h_cell h (b + of_nat d)"
proof -
  from tbr_step [OF assms(1) order.refl] assms(2) obtain V1 where T: "live h1 V1 = insert t (live h V)" "keeps (live h V) h h1"
    "bsize h1 (cxl_ptr_page t) = 16" by auto
  show "t \<noteq> 0" using block_high [OF live_block [of t h1 V1], of 0] T(1,3) by (auto simp: layout)
  show "b \<in> live h V \<Longrightarrow> d < bsize h (cxl_ptr_page b) \<Longrightarrow> h_cell h1 (b + of_nat d) = h_cell h (b + of_nat d)"
    by (rule keepsD(4) [OF T(2)])
qed

lemma take_message:
  assumes S: "rs_inv S" and sh: "sh \<in> set (rs_clients S)" and q: "q \<in> rs_queues S" and nonempty: "queued (rs_heap S) q \<noteq> []"
    and few: "obj_cnt (rs_heap S) (mq_buffer (rs_heap S) q (mq_start (rs_heap S) q)) < 65535"
    and a: "thread_base_ref_alloc (2 ^ 64) sh (rs_heap S) = Inr (Some t, h1)"
  defines "v \<equiv> mq_buffer (rs_heap S) q (mq_start (rs_heap S) q)"
  defines "h3 \<equiv> set_rr_ref_cnt t (rr_ref_cnt (link_reference sh t v h1) t + 1) (link_reference sh t v h1)"
  shows "mq_buffer h1 q (mq_start h1 q) = v" and "t \<noteq> 0"
    and "\<exists>h4. unlink_reference sh (mq_slot q (mq_start h3 q)) (mq_buffer h3 q (mq_start h3 q)) h3 = Inr h4
      \<and> (let h5 = set_cell q ((mq_start h4 q + 1) mod MESSAGE_BUFFER_SIZE) h4 in rr_pptr h5 t = v
          \<and> good_step (Receive q v) S (S\<lparr>rs_heap := h5, rs_handles := (rs_handles S)(t := 1)\<rparr>))"
proof -
  let ?h = "rs_heap S"
  obtain St where O: "opens S sh St" using rs_open [OF S sh] by blast
  note D = opensD [OF O] and hh = opensD(1) [OF O] and Q = opens_queue [OF O q] and P = queue_place [OF O q]
  let ?s = "unat (mq_start ?h q)" and ?c = "mq_slot q (mq_start ?h q)"
  have b: "?s < 16" "unat (mq_end ?h q) < 16" using Q(4) by (simp_all add: ring_ok_def)
  have coff: "?c = q + of_nat (40 + 8 * ?s)" using slot_offset [of q ?s] by simp
  have cR: "?c \<in> rs_cells S" using P(4) [OF b(1)] by simp
  have v: "v = h_cell ?h ?c" by (simp add: v_def mq_buffer_def)
  have v0: "v \<noteq> 0" using queue_empty [OF Q(4)] nonempty by (auto simp: v_def)
  have "?c \<in> ref_cells ?h (rs_cells S) (st_objs St)" using cR by (simp add: ref_cells_def)
  then have vO: "v \<in> st_objs St" using graphD(4) [OF D(7)] v v0 by simp
  have inv: "client_inv sh ?h (st_lists St) (st_pool St)" using D(1,2) by (simp add: store_inv_def)
  note al = root_alloc_nonzero [OF inv a]
  show "t \<noteq> 0" by (rule al)
  have ql: "q \<in> live ?h (st_lists St)" using Q(1) hh by simp
  have q1: "h_cell h1 (q + of_nat d) = h_cell ?h (q + of_nat d)" if "d < 192" for d using al(2) [OF ql] Q(2) that by simp
  then show "mq_buffer h1 q (mq_start h1 q) = v"
    using q1 [of 0] q1 [of "40 + 8 * ?s"] b(1) by (simp add: mq_start_def mq_buffer_def v coff [unfolded mq_start_def])
  have "obj_cnt (st_heap St) v < 65535" "thread_base_ref_alloc (2 ^ 64) sh (st_heap St) = Inr (Some t, h1)"
    using few a hh by (simp_all add: v_def)
  from new_root [OF D(2,3) vO this] obtain S3 where N: "st_heap S3 = h3" "step_ok sh {t, t + 8} St (insert t (rs_cells S)) S3"
    "t \<notin> st_live St" "st_plain S3 = insert t (st_plain St)" "st_objs S3 = st_objs St" "away St {} {t, t + 8}"
    "bsize h3 (cxl_ptr_page t) = 16" "rr_pptr h3 t = v" "rr_ref_cnt h3 t = 1"
    "rr_in_use h3 t = 1" unfolding h3_def by metis
  have out: "q + of_nat d \<noteq> t" "q + of_nat d \<noteq> t + 8" if "d < 192" for d
    using N(6) Q(1,2) that hh unfolding away_def by auto
  have qp3: "q \<in> st_plain S3" using Q(1) N(4) by blast
  note K3 = staysD(2-4) [OF step_okD(4) [OF N(2)] Q(1) qp3]
  have q3: "h_cell h3 (q + of_nat d) = h_cell ?h (q + of_nat d)" if "d < 192" for d
    using K3(3) [of d] Q(2) N(1) hh out [OF that] that by simp
  have b3: "bsize h3 (cxl_ptr_page q) = 192" "pg_is_msg_queue_page (h_page h3 (cxl_ptr_page q))"
    using K3(1,2) Q(2,3) N(1) hh by simp_all
  have st3: "mq_start h3 q = mq_start ?h q" using q3 [of 0] by (simp add: mq_start_def)
  have c3: "h_cell h3 ?c = v" unfolding v coff using q3 [of "40 + 8 * ?s"] b(1) by simp
  have tc: "t \<noteq> ?c" using out(1) [of "40 + 8 * ?s"] b(1) coff by auto
  note S3 = step_okD(1,2) [OF N(2)]
  have cc: "?c \<in> st_cells (insert t (rs_cells S)) S3" "t \<in> st_cells (insert t (rs_cells S)) S3" using cR by (simp_all add: ref_cells_def)
  have "{t, ?c} \<subseteq> st_holders (insert t (rs_cells S)) S3 v"
    using cc c3 N(1,8) by (simp add: holders_def rr_pptr_def)
  then have "card {t, ?c} \<le> card (st_holders (insert t (rs_cells S)) S3 v)" by (intro card_mono) simp_all
  then have many: "1 < card (st_holders (insert t (rs_cells S)) S3 v)" using tc by simp
  obtain h4 where U: "unlink_reference sh ?c v h3 = Inr h4" "store_inv sh (insert t (rs_cells S)) (S3\<lparr>st_heap := h4\<rparr>)"
    "dropped True sh (insert t (rs_cells S)) {?c} S3 (S3\<lparr>st_heap := h4\<rparr>)"
    using unlink_kept [OF S3(1) cc(1) _ v0 many] c3 N(1) by auto
  define S4 where "S4 = S3\<lparr>st_heap := h4\<rparr>"
  have W4: "step_ok sh {?c} S3 (insert t (rs_cells S)) S4" using step_dropped [OF S3 U(2,3)] by (simp add: S4_def)
  have plain4: "st_plain S4 = st_plain S3" using plain_dropped [OF U(3) store_graph [OF S3(1)]] by (simp add: S4_def)
  have qp4: "q \<in> st_plain S4" using qp3 plain4 by simp
  note K4 = staysD(2-4) [OF step_okD(4) [OF W4] qp3 qp4]
  have h4S: "st_heap S4 = h4" by (simp add: S4_def)
  have q4: "h_cell h4 (q + of_nat d) = h_cell h3 (q + of_nat d)" if "d < 192" "q + of_nat d \<noteq> ?c" for d
    using K4(3) [of d] N(1) b3(1) that h4S by simp
  have b4: "bsize h4 (cxl_ptr_page q) = 192" "pg_is_msg_queue_page (h_page h4 (cxl_ptr_page q))"
    using K4(1,2) N(1) b3 h4S by simp_all
  have c4: "h_cell h4 ?c = 0" using droppedD(3) [OF U(3), of ?c] cR by (simp add: ref_cells_def)
  have ne: "q + of_nat d \<noteq> ?c" if "d < 40" for d
  proof -
    have "(of_nat d :: u64) \<noteq> of_nat (40 + 8 * ?s)" using that b(1) by (subst of_nat_eq_64) simp_all
    then show ?thesis unfolding coff by simp
  qed
  have st4: "mq_start h4 q = mq_start ?h q" using q4 [OF _ ne [of 0]] st3 by (simp add: mq_start_def)
  define h5 where "h5 = set_cell q ((mq_start h4 q + 1) mod MESSAGE_BUFFER_SIZE) h4"
  define S5 where "S5 = S4\<lparr>st_heap := h5\<rparr>"
  have qp: "st_place S4 q" using root_placeI [OF qp4, of 0] b4(1) h4S by simp
  have qR: "q \<notin> insert t (rs_cells S)" using P(2) [of 0] out(1) [of 0] by simp
  have W5: "step_ok sh {q} S4 (insert t (rs_cells S)) S5" "st_live S5 = st_live S4"
    using write_ok [OF step_okD(1,2) [OF W4], of h5 "{q}"] qp qR by (auto simp: S5_def S4_def h5_def)
  have plain5: "st_plain S5 = st_plain S3" using W5(2) plain4 by (simp add: S5_def)
  let ?S = "S\<lparr>rs_heap := h5, rs_handles := (rs_handles S)(t := 1)\<rparr>"
  have roots: "rs_roots ?S = insert t (rs_roots S)" by (auto simp: rs_roots_def)
  have cells: "rs_cells ?S = insert t (rs_cells S)" unfolding rs_cells_def roots by simp
  have W45: "step_ok sh ({?c} \<union> {q}) S3 (insert t (rs_cells S)) S5"
    by (rule step_ok_trans [OF W4 W5(1)]) (simp add: plain4 plain5)
  have step: "step_ok sh ({t, t + 8} \<union> ({?c} \<union> {q})) St (rs_cells ?S) S5"
    unfolding cells by (rule step_ok_trans [OF N(2) W45]) (use plain5 N(4) in auto)
  have "away St {q} ({?c} \<union> {q})"
  proof (rule P(3))
    fix x assume "x \<in> {?c} \<union> {q}"
    then have "x = q + of_nat (40 + 8 * ?s) \<or> x = q + of_nat 0" using coff by auto
    moreover have "40 + 8 * ?s < 192" "0 < (192 :: nat)" using b(1) by simp_all
    ultimately show "\<exists>d < 192. x = q + of_nat d" by blast
  qed
  then have aw: "away St {t, q} ({t, t + 8} \<union> ({?c} \<union> {q}))"
    by (intro away_Un) (use N(6) in \<open>auto simp: away_def\<close>)
  have t5: "bsize h5 (cxl_ptr_page t) = 16" "rr_pptr h5 t = v" "rr_ref_cnt h5 t = 1" "rr_in_use h5 t = 1"
  proof -
    have tp: "t \<in> st_plain S3" "t \<in> st_plain S5" using N(4) plain5 by simp_all
    note K = staysD [OF step_okD(4) [OF W45], of t]
    have h5S: "st_heap S5 = h5" by (simp add: S5_def)
    show "bsize h5 (cxl_ptr_page t) = 16" using K(2) tp N(1,7) h5S by simp
    have "t \<noteq> q" "t + 8 \<noteq> q" "t + 8 \<noteq> ?c" using out [of 0] out(2) [of "40 + 8 * ?s"] b(1) coff by auto
    then show "rr_pptr h5 t = v" "rr_ref_cnt h5 t = 1" "rr_in_use h5 t = 1"
      using K(4) [OF tp, of 0] K(4) [OF tp, of 8] N(1,7-10) tc h5S by (simp_all add: rr_pptr_def rr_ref_cnt_def rr_in_use_def)
  qed
  have old: "h_cell h5 (mq_slot q (of_nat i)) = h_cell ?h (mq_slot q (of_nat i))" if "i < 16" "of_nat i \<noteq> mq_start ?h q" for i
  proof -
    have "i \<noteq> ?s" using that(2) by auto
    then have 1: "mq_slot q (of_nat i) \<noteq> ?c" using slot_inj [OF that(1) b(1), of q] by simp
    have 2: "40 + 8 * i < 192" using that(1) by simp
    have 3: "q \<noteq> q + of_nat (40 + 8 * i)"
    proof -
      have "(of_nat (40 + 8 * i) :: u64) \<noteq> of_nat 0" using that(1) by (subst of_nat_eq_64) simp_all
      then show ?thesis by simp
    qed
    show ?thesis using 1 3 q4 [OF 2] q3 [OF 2] unfolding slot_offset by (simp add: h5_def)
  qed
  have e: "mq_end h5 q = mq_end ?h q" using q4 [OF _ ne [of 8]] q3 [of 8] by (simp add: h5_def mq_end_def)
  have s5: "mq_start h5 q = (mq_start ?h q + 1) mod MESSAGE_BUFFER_SIZE" by (simp add: h5_def st4) (simp add: mq_start_def)
  have c5: "h_cell h5 ?c = 0" using c4 ne [of 0] by (auto simp: h5_def)
  have T: "ring_ok h5 q" "queued ?h q = v # queued h5 q"
    unfolding v_def by (rule queue_take [OF Q(4) nonempty e s5 c5]; use old in blast)+
  have b5: "bsize h5 (cxl_ptr_page q) = 192" "pg_is_msg_queue_page (h_page h5 (cxl_ptr_page q))"
    using b4 by (simp_all add: h5_def bsize_def)
  have nr: "t \<notin> rs_queues S" "q \<notin> rs_roots S" "t \<noteq> q" using D(4) N(3) Q(1,2) opens_root(2) [OF O, of q] by auto
  have "good_step (Receive q v) S ?S"
  proof (rule rs_step(2) [OF O step _ _ _ aw])
    show "st_plain S5 = rs_roots ?S \<union> rs_queues ?S" unfolding roots plain5 N(4) D(4) by simp
    show "rs_heap ?S = st_heap S5" by (simp add: S5_def)
    show "bsize (rs_heap ?S) (cxl_ptr_page b) = 16 \<and> rr_pptr (rs_heap ?S) b \<noteq> 0 \<and> unat (rr_ref_cnt (rs_heap ?S) b) = rs_handles ?S b
        \<and> rr_in_use (rs_heap ?S) b = 1"
      if "b \<in> {t, q}" "rs_handles ?S b \<noteq> 0" for b
      using that t5 v0 nr(2,3) by (auto simp: rs_roots_def)
    show "bsize (rs_heap ?S) (cxl_ptr_page b) = 192 \<and> pg_is_msg_queue_page (h_page (rs_heap ?S) (cxl_ptr_page b)) \<and> ring_ok (rs_heap ?S) b"
      if "b \<in> {t, q}" "b \<in> rs_queues ?S" for b
      using that b5 T(1) nr(1) by auto
    show "effect (Receive q v) b (queued ?h b) (queued (rs_heap ?S) b)" if "b \<in> {t, q}" "b \<in> rs_queues S" for b
      using that T(2) nr(1) by auto
  qed auto
  moreover have "unlink_reference sh (mq_slot q (mq_start h3 q)) (mq_buffer h3 q (mq_start h3 q)) h3 = Inr h4"
    using U(1) c3 unfolding st3 by (simp add: mq_buffer_def)
  ultimately show "\<exists>h4. unlink_reference sh (mq_slot q (mq_start h3 q)) (mq_buffer h3 q (mq_start h3 q)) h3 = Inr h4
      \<and> (let h5 = set_cell q ((mq_start h4 q + 1) mod MESSAGE_BUFFER_SIZE) h4 in rr_pptr h5 t = v
          \<and> good_step (Receive q v) S (S\<lparr>rs_heap := h5, rs_handles := (rs_handles S)(t := 1)\<rparr>))"
    using t5(2) unfolding Let_def h5_def by blast
qed

lemma rs_unwrap:
  assumes S: "rs_inv S" and sh: "sh \<in> set (rs_clients S)" and q: "q \<in> rs_queues S"
    and u: "cxl_unwrap (2 ^ 64) sh q (rs_heap S) = Inr (r, h)"
  shows "ref_tbr r = 0 \<Longrightarrow> good_step Idle S (S\<lparr>rs_heap := h\<rparr>)"
    and "ref_tbr r \<noteq> 0 \<Longrightarrow> obj_cnt (rs_heap S) (mq_buffer (rs_heap S) q (mq_start (rs_heap S) q)) < 65535
      \<Longrightarrow> good_step (Receive q (ref_data r - sizeof_CXLObj)) S (S\<lparr>rs_heap := h, rs_handles := (rs_handles S)(ref_tbr r := 1)\<rparr>)"
proof -
  define h0 where "h0 = register_receiver sh q (rs_heap S)"
  let ?S0 = "S\<lparr>rs_heap := h0\<rparr>"
  note G = registered [OF S sh q, folded h0_def]
  have S0: "rs_inv ?S0" "sh \<in> set (rs_clients ?S0)" "q \<in> rs_queues ?S0" using G(1) sh q by (simp_all add: good_step_def)
  obtain St where O: "opens ?S0 sh St" using rs_open [OF S0(1,2)] by blast
  note E = queue_empty(2) [OF opens_queue(4) [OF O S0(3)]]
  have inv: "client_inv sh h0 (st_lists St) (st_pool St)" using opensD(1,2) [OF O] by (simp add: store_inv_def)
  show "good_step Idle S (S\<lparr>rs_heap := h\<rparr>)" if z: "ref_tbr r = 0"
  proof (cases "queued h0 q = []")
    case True
    then have "h = h0" using u E by (simp add: cxl_unwrap_def h0_def [symmetric] Let_def)
    then show ?thesis using G(1) by simp
  next
    case False
    then obtain t h1 where a: "thread_base_ref_alloc (2 ^ 64) sh h0 = Inr (Some t, h1)" "ref_tbr r = t"
      using u E by (auto simp: cxl_unwrap_def h0_def [symmetric] Let_def bnd_Inr_iff CXLRef_make_def)
    then show ?thesis using root_alloc_nonzero(1) [OF inv] z by blast
  qed
  assume nz: "ref_tbr r \<noteq> 0" and few: "obj_cnt (rs_heap S) (mq_buffer (rs_heap S) q (mq_start (rs_heap S) q)) < 65535"
  have ne: "queued h0 q \<noteq> []"
  proof
    assume "queued h0 q = []"
    then have "r = CXLRef_make 0 0" using u E by (simp add: cxl_unwrap_def h0_def [symmetric] Let_def)
    then show False using nz by (simp add: CXLRef_make_def)
  qed
  let ?v = "mq_buffer h0 q (mq_start h0 q)"
  obtain t h1 where a: "thread_base_ref_alloc (2 ^ 64) sh h0 = Inr (Some t, h1)" "ref_tbr r = t"
    using u E ne by (auto simp: cxl_unwrap_def h0_def [symmetric] Let_def bnd_Inr_iff CXLRef_make_def)
  have "unat (mq_start h0 q) < 16" using opens_queue(4) [OF O S0(3)] by (simp add: ring_ok_def)
  then have v: "?v = mq_buffer (rs_heap S) q (mq_start (rs_heap S) q)"
    using G(4) [of "unat (mq_start h0 q)"] by (simp add: mq_buffer_def G(5))
  have "?v \<in> rs_objs S"
  proof -
    have "mq_slot q (of_nat (unat (mq_start h0 q))) \<in> rs_cells ?S0"
      using queue_place(4) [OF O S0(3)] \<open>unat (mq_start h0 q) < 16\<close> by blast
    moreover have "?v \<noteq> 0" using E ne by simp
    ultimately have "reach h0 (rs_cells ?S0) ?v" using reach.root [of "mq_slot q (mq_start h0 q)" "rs_cells ?S0" h0] by (simp add: mq_buffer_def)
    then have "?v \<in> rs_objs ?S0" by (simp add: rs_objs_def)
    then show ?thesis using G(2) by simp
  qed
  then have few0: "obj_cnt (rs_heap ?S0) (mq_buffer (rs_heap ?S0) q (mq_start (rs_heap ?S0) q)) < 65535" using G(3) few v by simp
  have "queued (rs_heap ?S0) q \<noteq> []" "thread_base_ref_alloc (2 ^ 64) sh (rs_heap ?S0) = Inr (Some t, h1)" using ne a(1) by simp_all
  note M = take_message [OF S0 this(1) few0 this(2), simplified]
  let ?h3 = "set_rr_ref_cnt t (rr_ref_cnt (link_reference sh t ?v h1) t + 1) (link_reference sh t ?v h1)"
  from M(3) obtain h4 where U: "unlink_reference sh (mq_slot q (mq_start ?h3 q)) (mq_buffer ?h3 q (mq_start ?h3 q)) ?h3 = Inr h4"
    and R: "rr_pptr (set_cell q ((mq_start h4 q + 1) mod MESSAGE_BUFFER_SIZE) h4) t = ?v"
      "good_step (Receive q ?v) ?S0 (S\<lparr>rs_heap := set_cell q ((mq_start h4 q + 1) mod MESSAGE_BUFFER_SIZE) h4, rs_handles := (rs_handles S)(t := 1)\<rparr>)"
    unfolding Let_def by auto
  have res: "r = CXLRef_make t (?v + sizeof_CXLObj)" "h = set_cell q ((mq_start h4 q + 1) mod MESSAGE_BUFFER_SIZE) h4"
    using u E ne a(1) U M(1) R(1) by (simp_all add: cxl_unwrap_def h0_def [symmetric] Let_def)
  show "good_step (Receive q (ref_data r - sizeof_CXLObj)) S (S\<lparr>rs_heap := h, rs_handles := (rs_handles S)(ref_tbr r := 1)\<rparr>)"
    using good_step_trans_left [OF G(1) R(2)] by (simp add: res CXLRef_make_def)
qed

end
