(* ===== verification/Ref_Runs.thy ===== *)
theory Ref_Runs
  imports Ref_Messages
begin

text \<open>
  Runs of the reference system: what holds in every state that any clients can bring about, in
  any order of their operations.
\<close>

section \<open>Reachable states\<close>

lemma rs_inv_start: "rs_inv rs_start"
proof -
  have "pools_inv zero_heap empty_lists [] []"
    using zero_region by (simp add: pools_inv_def slots_taken_def zero_defs)
  moreover have "graph zero_heap empty_lists {} {}" by (simp add: graph_def ref_cells_def)
  moreover have "no_leak zero_heap" by (simp add: no_leak_def zero_defs)
  ultimately show ?thesis
    unfolding rs_inv_def
    by (intro exI [of _ empty_lists] exI [of _ "[]"] exI [of _ "{}"])
      (simp add: rs_start_def rs_cells_def rs_roots_def zero_region(3) acyclic_objs_def ranked_def roots_ok_def queues_ok_def)
qed

lemma ref_step_good:
  assumes "ref_step N a S S'" and S: "rs_inv S" and fits: "region_fits (newcomer N)"
  shows "good_step a S S'"
  using assms(1)
proof (cases rule: ref_step.cases)
  case (enter mac pid sh h)
  then show ?thesis using rs_enter [OF S fits] by blast
next
  case (allocate sh n emb r h)
  then show ?thesis using rs_allocate [OF S] by blast
next
  case (embed sh a c b)
  then show ?thesis using rs_embed [OF S] by blast
next
  case (copy sh r r' h)
  then show ?thesis using rs_copy [OF S] by blast
next
  case (destroy sh r r' h)
  then show ?thesis using rs_destroy [OF S] by blast
next
  case (fetch sh b r h)
  then show ?thesis using rs_fetch [OF S] by blast
next
  case (create sh dst q h)
  then show ?thesis using rs_create(1) [OF S] by blast
next
  case (send sh q r h)
  then show ?thesis using rs_send [OF S] by blast
next
  case (refuse sh q r h)
  then show ?thesis using rs_refuse [OF S] by blast
next
  case (receive sh q r h)
  then show ?thesis using rs_unwrap(2) [OF S] by blast
next
  case (idle sh q r h)
  then show ?thesis using rs_unwrap(1) [OF S] by blast
qed

interpretation rs: kept "\<lambda>S. region_fits (newcomer N) \<and> rs_inv S" "ref_step N" for N
  by unfold_locales (auto dest: ref_step_good simp: good_step_def)

lemma reachable_inv: "runs (ref_step N) rs_start as S \<Longrightarrow> region_fits (newcomer N) \<Longrightarrow> rs_inv S"
  using rs.run_ok rs_inv_start by blast

section \<open>What is allocated\<close>

lemma rs_shape:
  assumes "rs_inv S"
  shows "\<exists>V. alloc_inv (rs_heap S) V \<and> graph (rs_heap S) V (rs_cells S) (rs_objs S)
    \<and> live (rs_heap S) V = rs_roots S \<union> rs_queues S \<union> rs_objs S \<and> (rs_roots S \<union> rs_queues S) \<inter> rs_objs S = {}
    \<and> rs_roots S \<inter> rs_queues S = {}"
proof -
  from assms obtain V Ps O' where I: "pools_inv (rs_heap S) V (rs_clients S) Ps" "graph (rs_heap S) V (rs_cells S) O'"
    "acyclic_objs \<lparr>st_heap = rs_heap S, st_lists = V, st_pool = empty_pool, st_objs = O'\<rparr>"
    "live (rs_heap S) V - O' = rs_roots S \<union> rs_queues S" "roots_ok (rs_heap S) (rs_handles S)" "queues_ok (rs_heap S) (rs_queues S)"
    unfolding rs_inv_def by blast
  have "O' = rs_objs S"
    using reach_object [OF _ I(2)] object_reach [OF I(2)] I(3) unfolding acyclic_objs_def ranked_def rs_objs_def store.simps by blast
  moreover have "r \<notin> rs_queues S" if "r \<in> rs_roots S" for r
    using I(5,6) that by (force simp: roots_ok_def rs_roots_def queues_ok_def)
  moreover have "alloc_inv (rs_heap S) V" using I(1) by (simp add: pools_inv_def)
  moreover have "O' \<subseteq> live (rs_heap S) V" using graphD(1) [OF I(2)] by blast
  ultimately show ?thesis using I(2,4) by (intro exI [of _ V]) blast
qed

lemma roots_in_order:
  assumes "rs_inv S" and "r \<in> rs_roots S"
  shows "rr_pptr (rs_heap S) r \<in> rs_objs S" "unat (rr_ref_cnt (rs_heap S) r) = rs_handles S r"
proof -
  obtain V where "graph (rs_heap S) V (rs_cells S) (rs_objs S)" using rs_shape [OF assms(1)] by blast
  from graphD(4) [OF this, of r] assms(2) have *: "rr_pptr (rs_heap S) r \<noteq> 0 \<Longrightarrow> rr_pptr (rs_heap S) r \<in> rs_objs S"
    by (simp add: ref_cells_def rs_cells_def rr_pptr_def)
  have ok: "roots_ok (rs_heap S) (rs_handles S)" using assms(1) unfolding rs_inv_def by blast
  show "unat (rr_ref_cnt (rs_heap S) r) = rs_handles S r" using ok assms(2) by (simp add: roots_ok_def rs_roots_def)
  show "rr_pptr (rs_heap S) r \<in> rs_objs S" using * ok assms(2) by (simp add: roots_ok_def rs_roots_def)
qed

lemma queues_in_order: "rs_inv S \<Longrightarrow> q \<in> rs_queues S \<Longrightarrow> ring_ok (rs_heap S) q"
  by (auto simp: rs_inv_def queues_ok_def)

lemma queued_bound:
  assumes "ring_ok h q"
  shows "length (queued h q) \<le> 15"
proof -
  have b: "unat (mq_start h q) < 16" "unat (mq_end h q) < 16" using assms by (simp_all add: ring_ok_def)
  show ?thesis using b unfolding queued_def length_map ring_idx_props(5) [OF b] by auto
qed

lemma no_handles_no_objects:
  assumes "rs_inv S" and "\<forall>r. rs_handles S r = 0" and "\<forall>q \<in> rs_queues S. queued (rs_heap S) q = []"
  shows "rs_objs S = {}"
proof -
  have z: "h_cell (rs_heap S) x = 0" if x: "x \<in> rs_cells S" for x
  proof -
    from x assms(2) obtain q i where q: "q \<in> rs_queues S" "i < 16" "x = mq_slot q (of_nat i)"
      by (auto simp: rs_cells_def rs_roots_def queue_cells_def)
    have "ring_of (rs_heap S) q = []" using assms(3) q(1) by (simp add: queued_def)
    then show ?thesis using queues_in_order [OF assms(1) q(1)] q(2,3) by (simp add: ring_ok_def)
  qed
  have "\<not> reach (rs_heap S) (rs_cells S) ob" for ob
  proof
    assume "reach (rs_heap S) (rs_cells S) ob"
    then show False by (induction rule: reach.induct) (use z in auto)
  qed
  then show ?thesis by (simp add: rs_objs_def)
qed

section \<open>The message queues are channels\<close>

fun event_at :: "u64 \<Rightarrow> action \<Rightarrow> u64 event" where
  "event_at q (Send p v) = (if p = q then Sent v else Silent)"
| "event_at q (Receive p v) = (if p = q then Received v else Silent)"
| "event_at _ _ = Silent"

definition in_transit :: "u64 \<Rightarrow> ref_system \<Rightarrow> u64 list" where
  "in_transit q S = (if q \<in> rs_queues S then queued (rs_heap S) q else [])"

definition queue_event :: "u64 \<Rightarrow> u64 \<Rightarrow> u64 event \<Rightarrow> ref_system \<Rightarrow> ref_system \<Rightarrow> bool" where
  "queue_event N q e S S' \<longleftrightarrow> (\<exists>a. ref_step N a S S' \<and> event_at q a = e)"

lemma effect_event: "effect a q xs ys \<longleftrightarrow> (case event_at q a of Sent v \<Rightarrow> ys = xs @ [v] | Received v \<Rightarrow> xs = v # ys | Silent \<Rightarrow> ys = xs)"
  by (cases a) auto

lemma new_queue:
  assumes "ref_step N a S S'" and S: "rs_inv S" and q: "q \<notin> rs_queues S"
  shows "event_at q a = Silent" "in_transit q S' = []"
proof -
  have "event_at q a = Silent \<and> in_transit q S' = []"
    using assms(1)
  proof (cases rule: ref_step.cases)
    case (create sh dst p h)
    then show ?thesis using rs_create(2) [OF S create(3,4)] q by (simp add: in_transit_def)
  qed (use q in \<open>auto simp: in_transit_def\<close>)
  then show "event_at q a = Silent" "in_transit q S' = []" by simp_all
qed

lemma transit_step:
  assumes st: "ref_step N a S S'" and S: "rs_inv S" and fits: "region_fits (newcomer N)"
  shows "effect a q (in_transit q S) (in_transit q S')"
proof (cases "q \<in> rs_queues S")
  case True
  then show ?thesis using ref_step_good [OF st S fits] by (auto simp: good_step_def in_transit_def)
next
  case False
  then show ?thesis unfolding effect_event using new_queue [OF st S False] by (simp add: in_transit_def)
qed

interpretation mq: fifo_channel "\<lambda>S. region_fits (newcomer N) \<and> rs_inv S" "queue_event N q" "in_transit q" 15
  for N q
proof
  fix e S S' assume S: "region_fits (newcomer N) \<and> rs_inv S"
  show "region_fits (newcomer N) \<and> rs_inv S'" if "queue_event N q e S S'"
    using that S ref_step_good by (auto simp: queue_event_def good_step_def)
  have eff: "case e of Sent v \<Rightarrow> in_transit q S' = in_transit q S @ [v] | Received v \<Rightarrow> in_transit q S = v # in_transit q S'
      | Silent \<Rightarrow> in_transit q S' = in_transit q S" if "queue_event N q e S S'" for e S'
    using that S transit_step unfolding queue_event_def effect_event [symmetric] by (auto simp: effect_event [symmetric])
  show "in_transit q S' = in_transit q S @ [v]" if "queue_event N q (Sent v) S S'" for v using eff [OF that] by simp
  show "in_transit q S = v # in_transit q S'" if "queue_event N q (Received v) S S'" for v using eff [OF that] by simp
  show "in_transit q S' = in_transit q S" if "queue_event N q Silent S S'" using eff [OF that] by simp
  show "length (in_transit q S) \<le> 15" using S queued_bound queues_in_order by (simp add: in_transit_def)
qed

lemma runs_events: "runs (ref_step N) S as S' \<Longrightarrow> runs (queue_event N q) S (map (event_at q) as) S'"
proof (induction rule: runs.induct)
  case (go a S S1 as S2)
  have "queue_event N q (event_at q a) S S1" using go.hyps(1) by (auto simp: queue_event_def)
  then show ?case using runs.go [OF _ go.IH] by simp
qed simp

section \<open>Operations that return\<close>

lemma send_returns:
  assumes S: "rs_inv S" and sh: "sh \<in> set (rs_clients S)" and q: "q \<in> rs_queues S" and r: "ref_tbr r \<in> rs_roots S"
  shows "\<exists>h. sent_to sh q r (rs_heap S) = Inr (length (queued (rs_heap S) q) < 15, h)"
proof -
  obtain St where O: "opens S sh St" using rs_open [OF S sh] by blast
  have "ref_tbr r \<noteq> 0" by (rule opens_root(7) [OF O r])
  moreover note ring = queues_in_order [OF S q]
  have "mq_end (rs_heap S) q + 1 = mq_start (rs_heap S) q
      \<or> mq_end (rs_heap S) q - mq_start (rs_heap S) q = MESSAGE_BUFFER_SIZE - 1 \<longleftrightarrow> \<not> length (queued (rs_heap S) q) < 15"
    using full_iff(2) [OF ring] queued_bound [OF ring] unfolding queue_full_def by auto
  ultimately show ?thesis by (simp add: sent_to_def get_tbr_def Let_def)
qed

lemma destroy_returns:
  assumes S: "rs_inv S" and sh: "sh \<in> set (rs_clients S)" and t: "ref_tbr r \<in> rs_roots S"
  defines "S' \<equiv> \<lambda>h. S\<lparr>rs_heap := h, rs_handles := (rs_handles S)(ref_tbr r := rs_handles S (ref_tbr r) - 1)\<rparr>"
  shows "\<exists>r' h. CXLRef_destroy (2 ^ 64) sh r (rs_heap S) = Inr (r', h) \<and> rs_inv (S' h)
    \<and> rs_objs (S' h) = (if rs_handles S (ref_tbr r) = 1 then {ob. reach (rs_heap S) (rs_cells S - {ref_tbr r}) ob} else rs_objs S)"
proof -
  obtain St where O: "opens S sh St" using rs_open [OF S sh] by blast
  from destroy_total [OF O t] show ?thesis unfolding S'_def good_step_def by blast
qed

section \<open>A run\<close>

text \<open>A client enters, allocates an object, makes a queue and sends itself the object.\<close>

lemma demo_send:
  assumes run: "runs (ref_step N) S as S'" and good: "rs_inv S'" "sh \<in> set (rs_clients S')" "q \<in> rs_queues S'" "t \<in> rs_roots S'"
    and few: "obj_cnt (rs_heap S') (rr_pptr (rs_heap S') t) < 65535" and room: "length (queued (rs_heap S') q) < 15"
  shows "\<exists>h. sent_to sh q \<lparr>ref_tbr = t, ref_data = d\<rparr> (rs_heap S') = Inr (True, h)
    \<and> ref_step N (Send q (rr_pptr (rs_heap S') t)) S' (S'\<lparr>rs_heap := h\<rparr>)"
proof -
  from send_returns [OF good(1-3), of "\<lparr>ref_tbr = t, ref_data = d\<rparr>"] good(4) room
  obtain h where s: "sent_to sh q \<lparr>ref_tbr = t, ref_data = d\<rparr> (rs_heap S') = Inr (True, h)" by auto
  then show ?thesis using ref_step.send [of sh S' q "\<lparr>ref_tbr = t, ref_data = d\<rparr>" h N] good few by simp
qed

text \<open>The state after a client has entered and allocated an object of 40 bytes.\<close>

abbreviation demo_state :: "cxl_shm \<Rightarrow> u64 \<Rightarrow> shm_heap \<Rightarrow> ref_system" where
  "demo_state sh t h \<equiv> \<lparr>rs_heap = h, rs_clients = [sh], rs_handles = (\<lambda>_. 0)(t := 1), rs_queues = {}\<rparr>"

lemma demo_fits: "region_fits (newcomer (2 ^ 28))"
  by (simp add: region_fits_def newcomer_def layout)

lemma demo_start:
  "\<exists>sh t ob h V P w. runs (ref_step (2 ^ 28)) rs_start [Enter, Allocate] (demo_state sh t h) \<and> client_inv sh h V P \<and> room sh h P 1
    \<and> rr_pptr h t = ob \<and> obj_ref_info h ob = pack_ref_info (ucast (shm_thread_id sh)) 1 w \<and> cxl_ptr_page ob \<in> pool_pages P"
proof -
  let ?N = "2 ^ 28 :: u64"
  have z: "0 < MAX_THREAD" by (simp add: layout)
  have id: "pack_machine_process_id 1 7 \<noteq> 0" by (simp add: pack_machine_process_id_def)
  from thread_init_client [OF zero_region(1,2) demo_fits z, of 1 7 "{}"] obtain sh h where
    t: "thread_init 1 7 (newcomer ?N) zero_heap = Some (sh, h)" "client_inv sh h empty_lists empty_pool"
    "live h empty_lists = {}" "h_sas h = h_sas zero_heap"
    using zero_region(3) by (auto simp: zero_defs)
  have size: "shm_size sh = 2 ^ 28"
    using t(1) by (auto simp: thread_init_def Let_def newcomer_def split: option.splits)
  have "claim_segment sh h 0 = Some (0 + 1)"
    by (rule claim_segment_first) (simp_all add: t(4) size zero_defs)
  then have room: "room sh h empty_pool k" for k by (auto simp: room_def layout)
  let ?S1 = "rs_start\<lparr>rs_heap := h, rs_clients := [sh]\<rparr>"
  have 1: "ref_step ?N Enter rs_start ?S1"
    using ref_step.enter [of 1 7 ?N rs_start sh h] t(1) id z by (simp add: rs_start_def)
  from malloc_step [OF t(2) order.refl, of 40 0] room obtain r ob h2 V2 P2 where
    m: "cxl_malloc (2 ^ 64) sh (of_nat 40) 0 h = Inr (\<lparr>ref_tbr = r, ref_data = ob + sizeof_CXLObj\<rparr>, h2)" "client_inv sh h2 V2 P2"
      "obj_embedded h2 ob = 0" "room sh h2 P2 1" "rr_pptr h2 r = ob"
      "obj_ref_info h2 ob = pack_ref_info (ucast (shm_thread_id sh)) 1 (h_era h (own_era sh))"
      "cxl_ptr_page ob \<in> pool_pages P2" by auto
  have 2: "ref_step ?N Allocate ?S1 (demo_state sh r h2)"
    using ref_step.allocate [of sh ?S1 40 0 _ h2 ?N] m(1,3) by (simp add: slots_def rs_start_def)
  have "runs (ref_step ?N) rs_start [Enter, Allocate] (demo_state sh r h2)" using 1 2 by (blast intro: runs.intros)
  then show ?thesis using m(2,4-7) by blast
qed

lemma demo_run:
  "\<exists>S sh q t ob. runs (ref_step (2 ^ 28)) rs_start [Enter, Allocate, Create, Send q ob] S \<and> sh \<in> set (rs_clients S)
    \<and> q \<in> rs_queues S \<and> t \<in> rs_roots S \<and> rs_handles S t = 1"
proof -
  let ?N = "2 ^ 28 :: u64"
  obtain sh r ob h2 V2 P2 w where run2: "runs (ref_step ?N) rs_start [Enter, Allocate] (demo_state sh r h2)"
    and m: "client_inv sh h2 V2 P2" "room sh h2 P2 1" "rr_pptr h2 r = ob" "obj_ref_info h2 ob = pack_ref_info (ucast (shm_thread_id sh)) 1 w"
    using demo_start by blast
  let ?S2 = "demo_state sh r h2"
  have S2: "rs_inv ?S2" by (rule reachable_inv [OF run2 demo_fits])
  from queue_step [OF m(1) order.refl, of "ucast (shm_thread_id sh)" 0] m(2) obtain q h3 where
    c: "msg_queue_alloc (2 ^ 64) sh (ucast (shm_thread_id sh)) 0 h2 = Inr (Some q, h3)" by auto
  then obtain h4 where c4: "create_msg_queue (2 ^ 64) sh 0 (rs_heap ?S2) = Inr (q, h4)" by (simp add: create_msg_queue_def Let_def)
  let ?S3 = "?S2\<lparr>rs_heap := h4, rs_queues := insert q (rs_queues ?S2)\<rparr>"
  have 3: "ref_step ?N Create ?S2 ?S3"
    using ref_step.create [of sh ?S2 0 q h4 ?N] c4 by simp
  have S3: "rs_inv ?S3" using ref_step_good [OF 3 S2 demo_fits] by (simp add: good_step_def)
  have r2: "r \<in> rs_roots ?S2" by (simp add: rs_roots_def)
  note C = rs_create(2,3) [OF S2 _ c4]
  obtain V where V: "graph h2 V (rs_cells ?S2) (rs_objs ?S2)" using rs_shape [OF S2] by auto
  have ob: "ob \<in> rs_objs ?S2" using roots_in_order(1) [OF S2 r2] m(3) by simp
  have "bsize h2 (cxl_ptr_page r) = 16" using S2 by (auto simp: rs_inv_def roots_ok_def)
  then have p: "rr_pptr h4 r = ob" using C(2) [of r 0] r2 m(3) by (simp add: rr_pptr_def)
  have "24 \<le> bsize h2 (cxl_ptr_page ob)" using graphD(2) [OF V ob] by (simp add: object_at_def)
  then have "obj_ref_info h4 ob = obj_ref_info h2 ob" using C(2) [of ob 8] ob by (simp add: obj_ref_info_def)
  then have few: "obj_cnt h4 ob = 1" using pack_fields(2) [OF tid_fits [OF m(1)], of 1] by (simp add: obj_cnt_def m(4))
  have run: "runs (ref_step ?N) rs_start ([Enter, Allocate] @ [Create]) ?S3" by (rule runs_snoc [OF run2]) (rule 3)
  obtain h5 where 4: "ref_step ?N (Send q ob) ?S3 (?S3\<lparr>rs_heap := h5\<rparr>)"
    using demo_send [OF run S3, of sh q r] p C(1) few by (auto simp: rs_roots_def)
  have "runs (ref_step ?N) rs_start (([Enter, Allocate] @ [Create]) @ [Send q ob]) (?S3\<lparr>rs_heap := h5\<rparr>)"
    by (rule runs_snoc [OF run]) (rule 4)
  then show ?thesis
    by (intro exI [of _ "?S3\<lparr>rs_heap := h5\<rparr>"] exI [of _ sh] exI [of _ q] exI [of _ r] exI [of _ ob]) (simp add: rs_roots_def)
qed

lemma demo_destroy:
  "\<exists>S sh. runs (ref_step (2 ^ 28)) rs_start [Enter, Allocate, Destroy] S \<and> rs_clients S = [sh] \<and> (\<forall>t. rs_handles S t = 0) \<and> rs_queues S = {}"
proof -
  let ?N = "2 ^ 28 :: u64"
  obtain sh t h where run: "runs (ref_step ?N) rs_start [Enter, Allocate] (demo_state sh t h)" using demo_start by blast
  let ?r = "\<lparr>ref_tbr = t, ref_data = 0\<rparr>" and ?S = "demo_state sh t h"
  have t: "sh \<in> set (rs_clients ?S)" "ref_tbr ?r \<in> rs_roots ?S" by (simp_all add: rs_roots_def)
  obtain r' h' where d: "CXLRef_destroy (2 ^ 64) sh ?r (rs_heap ?S) = Inr (r', h')"
    using destroy_returns [OF reachable_inv [OF run demo_fits] t] by blast
  let ?S' = "?S\<lparr>rs_heap := h', rs_handles := (rs_handles ?S)(ref_tbr ?r := rs_handles ?S (ref_tbr ?r) - 1)\<rparr>"
  have "ref_step ?N Destroy ?S ?S'" by (rule ref_step.destroy [OF t d])
  then have "runs (ref_step ?N) rs_start ([Enter, Allocate] @ [Destroy]) ?S'" by (rule runs_snoc [OF run])
  then show ?thesis by (intro exI [of _ ?S'] exI [of _ sh]) simp
qed

section \<open>Properties\<close>

text \<open>
  C1. Nothing leaks and nothing dangles. After any sequence of operations of any clients, the
  blocks in use are exactly: the root references that handles hold, the message queues, and the
  objects that references lead to from these, directly or through embedded references. Each
  root reference counts its handles, and each object's count is the number of references to it.
\<close>

theorem live_blocks_are_reachable:
  assumes "runs (ref_step N) rs_start as S" and "region_fits (newcomer N)"
  shows "(\<exists>V. alloc_inv (rs_heap S) V \<and> live (rs_heap S) V = rs_roots S \<union> rs_queues S \<union> rs_objs S)
    \<and> (\<forall>r \<in> rs_roots S. rr_pptr (rs_heap S) r \<in> rs_objs S \<and> unat (rr_ref_cnt (rs_heap S) r) = rs_handles S r)
    \<and> (\<forall>ob \<in> rs_objs S. obj_cnt (rs_heap S) ob = card (holders (rs_heap S) (rs_cells S) (rs_objs S) ob))"
proof -
  note I = reachable_inv [OF assms]
  from rs_shape [OF I] obtain V where "alloc_inv (rs_heap S) V" "graph (rs_heap S) V (rs_cells S) (rs_objs S)"
    "live (rs_heap S) V = rs_roots S \<union> rs_queues S \<union> rs_objs S" by blast
  then show ?thesis using graphD(5) roots_in_order [OF I] by blast
qed

text \<open>
  C7. Memory comes back. Once no client holds a handle and every queue is empty, only the
  queues' own blocks are in use, whatever was allocated, shared and embedded before.
\<close>

theorem all_memory_returns:
  assumes "runs (ref_step N) rs_start as S" and "region_fits (newcomer N)"
    and "\<forall>r. rs_handles S r = 0" and "\<forall>q \<in> rs_queues S. queued (rs_heap S) q = []"
  shows "\<exists>V. alloc_inv (rs_heap S) V \<and> live (rs_heap S) V = rs_queues S"
proof -
  note I = reachable_inv [OF assms(1,2)]
  have "rs_roots S = {}" using assms(3) by (simp add: rs_roots_def)
  then show ?thesis using rs_shape [OF I] no_handles_no_objects [OF I assms(3,4)] by auto
qed

text \<open>
  C5. Dropping a handle always returns, cascades through embedded references included, and
  frees exactly what it must. With the last handle of a root reference, the allocator has back
  the root reference's own block and those of the objects that no other root reference and no
  message led to when it was dropped; every other block stays in use. With another handle left,
  no block is freed and the root reference counts one handle less.
\<close>

theorem destroy_frees_the_unreachable:
  assumes "runs (ref_step N) rs_start as S" and "region_fits (newcomer N)"
    and "sh \<in> set (rs_clients S)" and "ref_tbr r \<in> rs_roots S"
  shows "\<exists>r' h V V'. CXLRef_destroy (2 ^ 64) sh r (rs_heap S) = Inr (r', h)
    \<and> alloc_inv (rs_heap S) V \<and> live (rs_heap S) V = rs_roots S \<union> rs_queues S \<union> {ob. reach (rs_heap S) (rs_cells S) ob}
    \<and> alloc_inv h V' \<and> (if rs_handles S (ref_tbr r) = 1
        then live h V' = live (rs_heap S) V - insert (ref_tbr r) {ob. \<not> reach (rs_heap S) (rs_cells S - {ref_tbr r}) ob
               \<and> reach (rs_heap S) (rs_cells S) ob}
        else live h V' = live (rs_heap S) V \<and> unat (rr_ref_cnt h (ref_tbr r)) = rs_handles S (ref_tbr r) - 1)"
proof -
  let ?t = "ref_tbr r"
  note I = reachable_inv [OF assms(1,2)]
  let ?S' = "\<lambda>h. S\<lparr>rs_heap := h, rs_handles := (rs_handles S)(?t := rs_handles S ?t - 1)\<rparr>"
  from destroy_returns [OF I assms(3,4)] obtain r' h where
    d: "CXLRef_destroy (2 ^ 64) sh r (rs_heap S) = Inr (r', h)" and S': "rs_inv (?S' h)" "rs_objs (?S' h) = (if rs_handles S ?t = 1 then {ob. reach (rs_heap S) (rs_cells S - {?t}) ob} else rs_objs S)" by blast
  from rs_shape [OF I] rs_shape [OF S'(1)] obtain V V' where
    V: "alloc_inv (rs_heap S) V" "live (rs_heap S) V = rs_roots S \<union> rs_queues S \<union> rs_objs S"
      "(rs_roots S \<union> rs_queues S) \<inter> rs_objs S = {}" "rs_roots S \<inter> rs_queues S = {}"
    and V': "alloc_inv h V'" "live h V' = rs_roots (?S' h) \<union> rs_queues S \<union> rs_objs (?S' h)" by auto
  have roots: "rs_roots (?S' h) = (if rs_handles S ?t = 1 then rs_roots S - {?t} else rs_roots S)"
    using assms(4) by (auto simp: rs_roots_def)
  have less: "reach (rs_heap S) (rs_cells S) ob" if "reach (rs_heap S) (rs_cells S - {?t}) ob" for ob
    using reach_mono [OF that, of "rs_cells S"] by blast
  have "unat (rr_ref_cnt h ?t) = rs_handles S ?t - 1" if "rs_handles S ?t \<noteq> 1"
    using roots_in_order(2) [OF S'(1), of ?t] roots that assms(4) by simp
  moreover have "live h V' = live (rs_heap S) V" if "rs_handles S ?t \<noteq> 1"
    using V(2) V'(2) S'(2) roots that by simp
  moreover have "live h V' = live (rs_heap S) V - insert ?t {ob. \<not> reach (rs_heap S) (rs_cells S - {?t}) ob
      \<and> reach (rs_heap S) (rs_cells S) ob}" if "rs_handles S ?t = 1"
    using V(2-4) V'(2) S'(2) roots that assms(4) less unfolding rs_objs_def by auto
  ultimately show ?thesis
    using d V(1,2) V'(1) unfolding rs_objs_def by (intro exI [of _ r'] exI [of _ h] exI [of _ V] exI [of _ V']) simp
qed

text \<open>
  C6. A message queue delivers in order, whatever else goes on: over any run, what was sent
  to it is what was received from it followed by what is still in it, and no more than 15
  messages are.
\<close>

theorem queue_delivers_in_order:
  assumes "runs (ref_step N) rs_start as S" and "region_fits (newcomer N)" and "q \<in> rs_queues S"
  shows "sent (map (event_at q) as) = received (map (event_at q) as) @ queued (rs_heap S) q
    \<and> length (sent (map (event_at q) as)) \<le> length (received (map (event_at q) as)) + 15"
proof -
  note r = runs_events [OF assms(1), of q]
  have ok: "region_fits (newcomer N) \<and> rs_inv rs_start" using assms(2) rs_inv_start by blast
  have "in_transit q rs_start = []" by (simp add: in_transit_def rs_start_def)
  then show ?thesis using mq.in_order [OF r ok] mq.backlog [OF r ok] assms(3) by (simp add: in_transit_def)
qed

text \<open>
  C23. Sending is refused exactly when 15 messages wait: one of the ring's 16 slots stays
  unused, and no state of the indices, wrapped or not, is taken for another.
\<close>

theorem send_refused_when_full:
  assumes "runs (ref_step N) rs_start as S" and "region_fits (newcomer N)"
    and "sh \<in> set (rs_clients S)" and "q \<in> rs_queues S" and "ref_tbr r \<in> rs_roots S"
  shows "\<exists>h. sent_to sh q r (rs_heap S) = Inr (length (queued (rs_heap S) q) < 15, h)"
  using send_returns [OF reachable_inv [OF assms(1,2)] assms(3-5)] .

text \<open>
  C10. Memory stays typed. In every reachable state each root reference lies in a block of 16
  bytes, each queue in a block of 192 bytes of a page of queues with its indices in range, each
  object in a block of an object page that holds its header and its embedded references, and
  every cell that is a reference is null or refers to an object in use.
\<close>

theorem memory_is_typed:
  assumes "runs (ref_step N) rs_start as S" and "region_fits (newcomer N)"
  shows "(\<forall>r \<in> rs_roots S. bsize (rs_heap S) (cxl_ptr_page r) = 16)
    \<and> (\<forall>q \<in> rs_queues S. bsize (rs_heap S) (cxl_ptr_page q) = 192 \<and> pg_is_msg_queue_page (h_page (rs_heap S) (cxl_ptr_page q))
        \<and> unat (mq_start (rs_heap S) q) < 16 \<and> unat (mq_end (rs_heap S) q) < 16)
    \<and> (\<forall>ob \<in> rs_objs S. object_at (rs_heap S) ob)
    \<and> (\<forall>x \<in> ref_cells (rs_heap S) (rs_cells S) (rs_objs S). h_cell (rs_heap S) x = 0 \<or> h_cell (rs_heap S) x \<in> rs_objs S)"
proof -
  note I = reachable_inv [OF assms]
  have "roots_ok (rs_heap S) (rs_handles S)" "queues_ok (rs_heap S) (rs_queues S)" using I unfolding rs_inv_def by blast+
  moreover obtain V where g: "graph (rs_heap S) V (rs_cells S) (rs_objs S)" using rs_shape [OF I] by blast
  moreover have "h_cell (rs_heap S) x = 0 \<or> h_cell (rs_heap S) x \<in> rs_objs S" if "x \<in> ref_cells (rs_heap S) (rs_cells S) (rs_objs S)" for x
    using graphD(4) [OF g that] by blast
  ultimately show ?thesis using graphD(2) [OF g]
    by (simp add: roots_ok_def queues_ok_def rs_roots_def ring_ok_def)
qed

section \<open>At a concrete run\<close>

theorem live_blocks_are_reachable_witness:
  "\<exists>S r. runs (ref_step (2 ^ 28)) rs_start [Enter, Allocate, Create, Send (fst r) (snd r)] S
    \<and> (\<exists>V t. live (rs_heap S) V = rs_roots S \<union> rs_queues S \<union> rs_objs S \<and> t \<in> rs_roots S \<and> unat (rr_ref_cnt (rs_heap S) t) = 1)"
proof -
  from demo_run obtain S sh q t ob where r: "runs (ref_step (2 ^ 28)) rs_start [Enter, Allocate, Create, Send q ob] S"
    "t \<in> rs_roots S" "rs_handles S t = 1" by blast
  from live_blocks_are_reachable [OF r(1) demo_fits] r show ?thesis
    by (intro exI [of _ S] exI [of _ "(q, ob)"]) auto
qed

theorem memory_is_typed_witness:
  "\<exists>S q t ob. runs (ref_step (2 ^ 28)) rs_start [Enter, Allocate, Create, Send q ob] S \<and> t \<in> rs_roots S \<and> q \<in> rs_queues S
    \<and> bsize (rs_heap S) (cxl_ptr_page t) = 16 \<and> bsize (rs_heap S) (cxl_ptr_page q) = 192"
proof -
  from demo_run obtain S sh q t ob where r: "runs (ref_step (2 ^ 28)) rs_start [Enter, Allocate, Create, Send q ob] S"
    "q \<in> rs_queues S" "t \<in> rs_roots S" by blast
  from memory_is_typed [OF r(1) demo_fits] r(2,3) have "bsize (rs_heap S) (cxl_ptr_page t) = 16" "bsize (rs_heap S) (cxl_ptr_page q) = 192" by blast+
  then show ?thesis using r by blast
qed

theorem all_memory_returns_witness:
  "\<exists>S sh V. runs (ref_step (2 ^ 28)) rs_start [Enter, Allocate, Destroy] S \<and> rs_clients S = [sh] \<and> live (rs_heap S) V = {}"
proof -
  obtain S sh where r: "runs (ref_step (2 ^ 28)) rs_start [Enter, Allocate, Destroy] S" "rs_clients S = [sh]"
    "\<forall>t. rs_handles S t = 0" "rs_queues S = {}" using demo_destroy by blast
  from all_memory_returns [OF r(1) demo_fits r(3)] r(4) obtain V where "live (rs_heap S) V = {}" by auto
  then show ?thesis using r(1,2) by blast
qed

theorem destroy_frees_the_unreachable_witness:
  "\<exists>S sh q t ob r' h V V'. runs (ref_step (2 ^ 28)) rs_start [Enter, Allocate, Create, Send q ob] S \<and> t \<in> rs_roots S
    \<and> CXLRef_destroy (2 ^ 64) sh \<lparr>ref_tbr = t, ref_data = 0\<rparr> (rs_heap S) = Inr (r', h)
    \<and> t \<in> live (rs_heap S) V \<and> alloc_inv h V' \<and> t \<notin> live h V'"
proof -
  from demo_run obtain S sh q t ob where r: "runs (ref_step (2 ^ 28)) rs_start [Enter, Allocate, Create, Send q ob] S"
    "sh \<in> set (rs_clients S)" "t \<in> rs_roots S" "rs_handles S t = 1" by blast
  from destroy_frees_the_unreachable [OF r(1) demo_fits r(2), of "\<lparr>ref_tbr = t, ref_data = 0\<rparr>"] r(3,4)
  obtain r' h V V' where "CXLRef_destroy (2 ^ 64) sh \<lparr>ref_tbr = t, ref_data = 0\<rparr> (rs_heap S) = Inr (r', h)"
    "live (rs_heap S) V = rs_roots S \<union> rs_queues S \<union> {ob. reach (rs_heap S) (rs_cells S) ob}" "alloc_inv h V'" "t \<notin> live h V'" by auto
  then show ?thesis using r(1,3) by blast
qed

theorem queue_delivers_in_order_witness:
  "\<exists>S q ob. runs (ref_step (2 ^ 28)) rs_start [Enter, Allocate, Create, Send q ob] S \<and> queued (rs_heap S) q = [ob]"
proof -
  from demo_run obtain S sh q t ob where r: "runs (ref_step (2 ^ 28)) rs_start [Enter, Allocate, Create, Send q ob] S"
    "q \<in> rs_queues S" by blast
  from queue_delivers_in_order [OF r(1) demo_fits r(2)] have "queued (rs_heap S) q = [ob]" by simp
  then show ?thesis using r(1) by blast
qed

theorem send_refused_when_full_witness:
  "\<exists>S sh q t ob h. runs (ref_step (2 ^ 28)) rs_start [Enter, Allocate, Create, Send q ob] S
    \<and> sent_to sh q \<lparr>ref_tbr = t, ref_data = 0\<rparr> (rs_heap S) = Inr (length (queued (rs_heap S) q) < 15, h)"
proof -
  from demo_run obtain S sh q t ob where r: "runs (ref_step (2 ^ 28)) rs_start [Enter, Allocate, Create, Send q ob] S"
    "sh \<in> set (rs_clients S)" "q \<in> rs_queues S" "t \<in> rs_roots S" by blast
  from send_refused_when_full [OF r(1) demo_fits r(2,3), of "\<lparr>ref_tbr = t, ref_data = 0\<rparr>"] r(4)
  obtain h where "sent_to sh q \<lparr>ref_tbr = t, ref_data = 0\<rparr> (rs_heap S) = Inr (length (queued (rs_heap S) q) < 15, h)" by auto
  then show ?thesis using r(1) by blast
qed

end
