(* ===== verification/Index_Map.thy ===== *)
theory Index_Map
  imports Ref_Runs Hash_Index
begin

text \<open>
  The key-value index stands for one map per client: the list of nodes in a key's bucket is an
  association list, which \<open>put\<close> updates or extends and \<open>get\<close> searches. The nodes are blocks
  nobody else uses, so what the clients do with other blocks leaves the maps alone.
\<close>

section \<open>A bucket\<close>

definition node_link :: "u64 \<Rightarrow> u64" where "node_link n = node_data n + 16"

definition node_key :: "shm_heap \<Rightarrow> u64 \<Rightarrow> u64" where "node_key h n = h_cell h (node_data n)"

definition node_val :: "shm_heap \<Rightarrow> u64 \<Rightarrow> u64" where "node_val h n = h_cell h (node_data n + 8)"

definition contents :: "shm_heap \<Rightarrow> u64 list \<Rightarrow> (u64 \<times> u64) list" where
  "contents h ns = map (\<lambda>n. (node_key h n, node_val h n)) ns"

definition links :: "shm_heap \<Rightarrow> u64 \<Rightarrow> u64 list \<Rightarrow> bool" where
  "links h e ns \<longleftrightarrow> chain (\<lambda>n. h_cell h (node_link n)) (h_cell h e) ns"

fun entry_of :: "shm_heap \<Rightarrow> u64 \<Rightarrow> u64 \<Rightarrow> u64 list \<Rightarrow> u64" where
  "entry_of h key e [] = e"
| "entry_of h key e (n # ns) = (if node_key h n = key then e else entry_of h key (node_link n) ns)"

lemma links_simps [simp]:
  "links h e [] \<longleftrightarrow> h_cell h e = 0"
  "links h e (n # ns) \<longleftrightarrow> n \<noteq> 0 \<and> h_cell h e = n \<and> links h (node_link n) ns"
  by (auto simp: links_def)

lemma links_distinct: "links h e ns \<Longrightarrow> distinct ns" "links h e ns \<Longrightarrow> length ns < 2 ^ 64"
  unfolding links_def by (rule chain_distinct, assumption) (rule chain_length_less)

lemma node_offsets:
  "node_key h n = h_cell h (n + of_nat 24)" "node_val h n = h_cell h (n + of_nat 32)" "node_link n = n + of_nat 40"
  "node_data n + 8 = n + of_nat 32"
  by (simp_all add: node_key_def node_val_def node_data_def node_link_def layout add.commute add.left_commute)

lemma contents_simps [simp]: "contents h [] = []" "contents h (n # ns) = (node_key h n, node_val h n) # contents h ns"
  by (simp_all add: contents_def)

lemma find_entry_links:
  "links h e ns \<Longrightarrow> length ns < fuel \<Longrightarrow> find_entry fuel key e h = Inr (entry_of h key e ns, key \<in> node_key h ` set ns)"
proof (induction ns arbitrary: e fuel)
  case Nil
  then show ?case by (cases fuel) simp_all
next
  case (Cons n ns)
  then show ?case by (cases fuel) (auto simp: node_key_def node_link_def Let_def)
qed

lemma entry_found:
  assumes "links h e ns" and "key \<in> node_key h ` set ns"
  shows "h_cell h (entry_of h key e ns) \<in> set ns" "node_key h (h_cell h (entry_of h key e ns)) = key"
    and "map_of (contents h ns) key = Some (node_val h (h_cell h (entry_of h key e ns)))"
  using assms by (induction ns arbitrary: e) auto

lemma entry_missing:
  assumes "key \<notin> node_key h ` set ns"
  shows "entry_of h key e ns = last (e # map node_link ns)" "map_of (contents h ns) key = None"
proof -
  show "entry_of h key e ns = last (e # map node_link ns)"
    using assms by (induction ns arbitrary: e) auto
  show "map_of (contents h ns) key = None" using assms by (induction ns) auto
qed

lemma links_cong:
  assumes "h_cell h' e = h_cell h e" and "\<And>n. n \<in> set ns \<Longrightarrow> h_cell h' (node_link n) = h_cell h (node_link n)"
  shows "links h' e ns \<longleftrightarrow> links h e ns"
  using assms by (induction ns arbitrary: e) auto

lemma links_snoc:
  assumes "links h e ns" and "distinct (e # map node_link ns)" and "n \<noteq> 0" "h_cell h' (node_link n) = 0"
    and "\<And>x. x \<in> set (e # map node_link ns) \<Longrightarrow> h_cell h' x = (if x = last (e # map node_link ns) then n else h_cell h x)"
  shows "links h' e (ns @ [n])"
  using assms
proof (induction ns arbitrary: e)
  case (Cons m ms)
  have "links h' (node_link m) (ms @ [n])" by (rule Cons.IH) (use Cons.prems in auto)
  moreover have "e \<noteq> last (node_link m # map node_link ms)" using Cons.prems(2) last_in_set [of "node_link m # map node_link ms"] by auto
  ultimately show ?case using Cons.prems(1) Cons.prems(5) [of e] by simp
qed simp

lemma contents_cong:
  assumes "\<And>n. n \<in> set ns \<Longrightarrow> node_key h' n = node_key h n" "\<And>n. n \<in> set ns \<Longrightarrow> node_val h' n = node_val h n"
  shows "contents h' ns = contents h ns"
  using assms by (simp add: contents_def)

section \<open>The tables\<close>

definition bucket :: "u64 \<Rightarrow> u64 \<Rightarrow> u64" where
  "bucket p key = HASH_TABLE_START + p * HASH_TABLE_SIZE + 8 * (key AND (push_bit 17 1 - 1))"

definition buckets :: "u64 set" where "buckets = {bucket p key | p key. p < 64}"

lemma bucket_nat:
  assumes "unat p < 1024"
  shows "unat (bucket p key) = 2 ^ 26 + unat p * 2 ^ 20 + 8 * (unat key mod 2 ^ 17)"
proof -
  have k: "unat (key AND (push_bit 17 1 - 1)) = unat key mod 2 ^ 17"
  proof -
    have "key AND (push_bit 17 1 - 1) = take_bit 17 key" by (simp add: take_bit_eq_mask mask_eq_exp_minus_1 push_bit_eq_mult)
    then show ?thesis by (simp add: take_bit_eq_mod unat_mod_distrib)
  qed
  have "unat key mod 2 ^ 17 < 2 ^ 17" by simp
  then have "unat p * 2 ^ 20 + 8 * (unat key mod 2 ^ 17) < 2 ^ 31" using assms by simp
  then show ?thesis using k by (simp add: bucket_def unat_word_ariths layout)
qed

lemma bucket_place:
  assumes "unat p < 1024"
  shows "HASH_TABLE_START \<le> bucket p key \<and> (bucket p key < SEGMENTS_AREA_START \<longleftrightarrow> unat p < 64)"
proof -
  have "8 * (unat key mod 2 ^ 17) < 2 ^ 20" by simp
  then have "unat p < 64 \<longleftrightarrow> 2 ^ 26 + unat p * 2 ^ 20 + 8 * (unat key mod 2 ^ 17) < (2 ^ 27 :: nat)" by auto
  then show ?thesis using bucket_nat [OF assms, of key] by (simp add: word_less_nat_alt word_le_nat_alt layout)
qed

lemma bucket_low: "p < 64 \<Longrightarrow> bucket p key < SEGMENTS_AREA_START"
  using bucket_place [of p key] by (simp add: word_less_nat_alt)

lemma bucket_table: "p < 64 \<Longrightarrow> p' < 64 \<Longrightarrow> bucket p key = bucket p' key' \<Longrightarrow> p = p'"
proof -
  assume p: "p < 64" "p' < 64" and "bucket p key = bucket p' key'"
  then have e: "unat p * 2 ^ 20 + 8 * (unat key mod 2 ^ 17) = unat p' * 2 ^ 20 + 8 * (unat key' mod 2 ^ 17)"
    using bucket_nat [of p key] bucket_nat [of p' key'] p by (simp add: word_less_nat_alt)
  have "8 * (unat key mod 2 ^ 17) < 2 ^ 20" "8 * (unat key' mod 2 ^ 17) < 2 ^ 20" by simp_all
  then have "unat p = unat p'" using e digit_div by metis
  then show "p = p'" by (simp add: word_unat_eq_iff)
qed

lemma bucket_in: "p < 64 \<Longrightarrow> bucket p key \<in> buckets" by (auto simp: buckets_def)

lemma buckets_low: "b \<in> buckets \<Longrightarrow> b < SEGMENTS_AREA_START" by (auto simp: buckets_def bucket_low)

lemma bucket_eqs:
  "put_bucket sh key = bucket (ucast (shm_thread_id sh - 1)) key" "get_bucket key = bucket (drop_bit 56 key) key"
  by (simp_all add: put_bucket_def get_bucket_def bucket_def)

definition index_get :: "shm_heap \<Rightarrow> u64 \<Rightarrow> u64 \<Rightarrow> u64 option" where
  "index_get h p key = (case find_entry (2 ^ 64) key (bucket p key) h of
     Inr (e, found) \<Rightarrow> if found then Some (h_cell h (node_data (h_cell h e) + 8)) else None | Inl f \<Rightarrow> None)"

definition node_at :: "shm_heap \<Rightarrow> u64 set \<Rightarrow> u64 \<Rightarrow> bool" where
  "node_at h L n \<longleftrightarrow> n \<in> L \<and> 48 \<le> bsize h (cxl_ptr_page n)"

definition index_ok :: "shm_heap \<Rightarrow> u64 set \<Rightarrow> (u64 \<Rightarrow> u64 list) \<Rightarrow> bool" where
  "index_ok h L T \<longleftrightarrow> (\<forall>b \<in> buckets. links h b (T b) \<and> (\<forall>n \<in> set (T b). node_at h L n))
     \<and> (\<forall>b \<in> buckets. \<forall>b' \<in> buckets. b \<noteq> b' \<longrightarrow> set (T b) \<inter> set (T b') = {})"

lemma index_okD:
  assumes "index_ok h L T" and "b \<in> buckets"
  shows "links h b (T b)" "n \<in> set (T b) \<Longrightarrow> node_at h L n" "b' \<in> buckets \<Longrightarrow> b \<noteq> b' \<Longrightarrow> set (T b) \<inter> set (T b') = {}"
  using assms unfolding index_ok_def by blast+

lemma index_get_map:
  assumes I: "index_ok h L T" and p: "p < 64"
  shows "index_get h p key = map_of (contents h (T (bucket p key))) key"
    and "find_entry (2 ^ 64) key (bucket p key) h
      = Inr (entry_of h key (bucket p key) (T (bucket p key)), key \<in> node_key h ` set (T (bucket p key)))"
proof -
  let ?b = "bucket p key"
  note b = index_okD(1) [OF I bucket_in [OF p], of key]
  show f: "find_entry (2 ^ 64) key ?b h = Inr (entry_of h key ?b (T ?b), key \<in> node_key h ` set (T ?b))"
    by (rule find_entry_links [OF b links_distinct(2) [OF b]])
  show "index_get h p key = map_of (contents h (T ?b)) key"
  proof (cases "key \<in> node_key h ` set (T ?b)")
    case True
    then show ?thesis unfolding index_get_def f using entry_found(3) [OF b True] by (simp add: node_val_def)
  next
    case False
    then show ?thesis unfolding index_get_def f by (simp add: entry_missing(2))
  qed
qed

lemma index_get_known:
  assumes "index_ok h L T" and "p < 64"
  shows "index_get h p key = None \<longleftrightarrow> key \<notin> node_key h ` set (T (bucket p key))"
  unfolding index_get_map(1) [OF assms] by (force simp: map_of_eq_None_iff contents_def)

text \<open>The cells of nodes, and what leaves them alone.\<close>

lemma node_cells:
  assumes "node_at h (live h V) n" "node_at h (live h V) m" "d < 48" "e < 48"
  shows "n + of_nat d = m + of_nat e \<longleftrightarrow> n = m \<and> d = e"
proof -
  have b: "block_in h (cxl_ptr_page n) n" "block_in h (cxl_ptr_page m) m" "d < bsize h (cxl_ptr_page n)" "e < bsize h (cxl_ptr_page m)"
    using assms by (simp_all add: node_at_def live_def)
  show ?thesis
  proof (cases "n = m")
    case True
    then show ?thesis using same_block_offsets [OF b(1,3), of e] b(4) by blast
  next
    case False
    then show ?thesis using blocks_apart [OF b(1,2) _ b(3,4)] by blast
  qed
qed

lemma node_at_mono: "node_at h L n \<Longrightarrow> L \<subseteq> L' \<Longrightarrow> node_at h L' n"
  by (auto simp: node_at_def)

lemma node_high: "node_at h (live h V) n \<Longrightarrow> d < 48 \<Longrightarrow> \<not> n + of_nat d < SEGMENTS_AREA_START"
  using block_high [of h "cxl_ptr_page n" n d] by (simp add: node_at_def live_def)

lemma node_unlisted: "alloc_inv h V \<Longrightarrow> node_at h (live h V) n \<Longrightarrow> d < 48 \<Longrightarrow> \<not> listed V (n + of_nat d)"
  using live_cell_unlisted [of h V n d] by (simp add: node_at_def)

lemma index_frame:
  assumes I: "index_ok h L T" and K: "keeps L h h'" and L: "L \<subseteq> L'"
  shows "index_ok h' L' T" and "b \<in> buckets \<Longrightarrow> contents h' (T b) = contents h (T b)"
proof -
  have c: "h_cell h' (n + of_nat d) = h_cell h (n + of_nat d)" if "b \<in> buckets" "n \<in> set (T b)" "d < 48" for b n d
    using keepsD(4) [OF K, of n d] index_okD(2) [OF I that(1,2)] that(3) by (simp add: node_at_def)
  have "node_at h' L' n" if "b \<in> buckets" "n \<in> set (T b)" for b n
    using keepsD(2) [OF K, of n] index_okD(2) [OF I that] L by (auto simp: node_at_def)
  moreover have "links h' b (T b)" if "b \<in> buckets" for b
    using links_cong [of h' b h "T b"] index_okD(1) [OF I that] keepsD(1) [OF K buckets_low [OF that]] c [OF that, of _ 40]
    by (simp add: node_offsets)
  ultimately show "index_ok h' L' T" using I by (simp add: index_ok_def)
  show "contents h' (T b) = contents h (T b)" if "b \<in> buckets"
    by (rule contents_cong) (use c [OF that, of _ 24] c [OF that, of _ 32] in \<open>simp_all add: node_offsets\<close>)
qed

lemma index_get_frame:
  assumes I: "index_ok h L T" and K: "keeps L h h'" and p: "p < 64"
  shows "index_get h' p key = index_get h p key"
  using index_get_map(1) [OF I p] index_get_map(1) [OF index_frame(1) [OF I K order.refl] p]
    index_frame(2) [OF I K order.refl bucket_in [OF p]] by simp

section \<open>Putting\<close>

text \<open>The contents of the blocks \<open>L\<close> stay.\<close>

definition spares :: "u64 set \<Rightarrow> shm_heap \<Rightarrow> shm_heap \<Rightarrow> bool" where
  "spares L h h' \<longleftrightarrow> (\<forall>b \<in> L. \<forall>d < bsize h (cxl_ptr_page b). h_cell h' (b + of_nat d) = h_cell h (b + of_nat d))"

lemma other_block:
  assumes n: "node_at h (live h V) n" "e < 48" and b: "b \<in> live h V" "b \<noteq> n" "d < bsize h (cxl_ptr_page b)"
  shows "b + of_nat d \<noteq> n + of_nat e"
  using blocks_apart [OF live_block [OF b(1)] live_block _ b(3), of n V e] n b(2) by (simp add: node_at_def)

lemma map_of_overwrite:
  assumes "links h e ns" and "key \<in> node_key h ` set ns" and "n = h_cell h (entry_of h key e ns)"
  shows "map_of (map (\<lambda>m. (node_key h m, if m = n then v else node_val h m)) ns) = (map_of (contents h ns))(key \<mapsto> v)"
  using assms
proof (induction ns arbitrary: e)
  case (Cons m ms)
  have d: "m \<notin> set ms" using links_distinct(1) [OF Cons.prems(1)] by simp
  show ?case
  proof (cases "node_key h m = key")
    case True
    then have "n = m" using Cons.prems(1,3) by simp
    then have "map (\<lambda>m. (node_key h m, if m = n then v else node_val h m)) ms = contents h ms"
      using d by (auto simp: contents_def)
    then show ?thesis using True \<open>n = m\<close> by (simp add: fun_upd_def fun_eq_iff)
  next
    case False
    have k: "links h (node_link m) ms" "key \<in> node_key h ` set ms" "n = h_cell h (entry_of h key (node_link m) ms)"
      using Cons.prems False by auto
    have "n \<noteq> m" using entry_found(1) [OF k(1,2)] k(3) d by auto
    then show ?thesis using Cons.IH [OF k] False by (auto simp: fun_upd_twist)
  qed
qed simp

lemma put_found:
  fixes val :: u64
  assumes inv: "client_inv sh h V P" and I: "index_ok h M T" and M: "M \<subseteq> live h V" and b: "b \<in> buckets" and k: "key \<in> node_key h ` set (T b)"
  defines "h' \<equiv> set_cell (node_data (h_cell h (entry_of h key b (T b))) + 8) val h"
  shows "client_inv sh h' V P" "live h' V = live h V" "others_ok sh h h'" "index_ok h' M T"
    and "map_of (contents h' (T b)) = (map_of (contents h (T b)))(key \<mapsto> val)"
    and "b' \<in> buckets \<Longrightarrow> b' \<noteq> b \<Longrightarrow> contents h' (T b') = contents h (T b')"
proof -
  let ?n = "h_cell h (entry_of h key b (T b))"
  note n = entry_found(1,2) [OF index_okD(1) [OF I b] k]
  have at: "node_at h (live h V) m" if "c \<in> buckets" "m \<in> set (T c)" for c m by (rule node_at_mono [OF index_okD(2) [OF I that] M])
  note N = at [OF b n(1)]
  have A: "alloc_inv h V" using inv by (simp add: client_inv_def)
  have h': "h' = set_cell (?n + of_nat 32) val h" unfolding h'_def node_offsets(4) ..
  have "h_cell h' x = h_cell h x" if "listed V x" for x
    using node_unlisted [OF A N, of 32] that by (auto simp: h')
  moreover have "log_only sh h h'" by (simp add: h')
  ultimately show C: "client_inv sh h' V P" "live h' V = live h V" "others_ok sh h h'"
    using log_only_client(1-3) [OF inv] by blast+
  have cell: "h_cell h' (m + of_nat d) = (if m = ?n \<and> d = 32 then val else h_cell h (m + of_nat d))"
    if "c \<in> buckets" "m \<in> set (T c)" "d < 48" for c m d
    using node_cells [OF at [OF that(1,2)] N that(3), of 32] by (simp add: h' fun_upd_def)
  have low: "h_cell h' c = h_cell h c" if "c \<in> buckets" for c
    using node_high [OF N, of 32] buckets_low [OF that] by (auto simp: h')
  have "bsize h' = bsize h" by (simp add: h' bsize_def fun_eq_iff)
  moreover have "links h' c (T c)" if "c \<in> buckets" for c
    using links_cong [of h' c h "T c"] index_okD(1) [OF I that] low [OF that] cell [OF that, of _ 40] by (simp add: node_offsets)
  ultimately show "index_ok h' M T" using I by (simp add: index_ok_def node_at_def)
  have "contents h' (T b) = map (\<lambda>m. (node_key h m, if m = ?n then val else node_val h m)) (T b)"
    using cell [OF b, of _ 24] cell [OF b, of _ 32] by (simp add: contents_def node_offsets)
  then show "map_of (contents h' (T b)) = (map_of (contents h (T b)))(key \<mapsto> val)"
    using map_of_overwrite [OF index_okD(1) [OF I b] k refl] by simp
  show "contents h' (T b') = contents h (T b')" if b': "b' \<in> buckets" "b' \<noteq> b"
  proof (rule contents_cong)
    fix m assume m: "m \<in> set (T b')"
    then have "m \<noteq> ?n" using index_okD(3) [OF I b'(1) b b'(2)] n(1) by blast
    then show "node_key h' m = node_key h m" "node_val h' m = node_val h m"
      using cell [OF b'(1) m, of 24] cell [OF b'(1) m, of 32] by (simp_all add: node_offsets)
  qed
qed

text \<open>A new node: null link, its key and value, in a block nobody uses.\<close>

lemma put_node_cells:
  assumes "cxl_ptr_page b = p" and "h' = put_node sh b p key val h"
  shows "h_page h' = h_page (take_block b p h)" "h_tls h' = h_tls h" "h_seg h' = h_seg h" "h_sas h' = h_sas h" "h_era h' = h_era h"
    "node_key h' b = key" "node_val h' b = val" "h_cell h' (node_link b) = 0"
    "(\<And>e. e < 48 \<Longrightarrow> c \<noteq> b + of_nat e) \<Longrightarrow> h_cell h' c = h_cell h c"
proof -
  show "h_page h' = h_page (take_block b p h)" "h_tls h' = h_tls h" "h_seg h' = h_seg h" "h_sas h' = h_sas h" "h_era h' = h_era h"
    "node_key h' b = key" "node_val h' b = val" "h_cell h' (node_link b) = 0"
    using assms(2) by (simp_all add: put_node_def node_key_def node_val_def node_link_def node_data_def Let_def layout)
  show "h_cell h' c = h_cell h c" if c: "\<And>e. e < 48 \<Longrightarrow> c \<noteq> b + of_nat e"
    using c [of 8] c [of 16] c [of 24] c [of 32] c [of 40] assms(2)
    by (simp add: put_node_def node_data_def Let_def layout add.assoc)
qed

lemma index_extend:
  assumes I: "index_ok h L T" and L: "L \<subseteq> live h V" and b: "b \<in> buckets" and n: "node_at h L n" "\<And>c. c \<in> buckets \<Longrightarrow> n \<notin> set (T c)" "n \<noteq> 0"
    and z: "h_cell h (node_link n) = 0" and pg: "h_page h' = h_page h"
    and new: "h_cell h' = (h_cell h)(n + 8 := w, last (b # map node_link (T b)) := n)"
  shows "index_ok h' L (T(b := T b @ [n]))" "c \<in> buckets \<Longrightarrow> contents h' (T c) = contents h (T c)"
    "node_key h' n = node_key h n" "node_val h' n = node_val h n"
proof -
  define e where "e = last (b # map node_link (T b))"
  have new': "h_cell h' x = (if x = e then n else if x = n + of_nat 8 then w else h_cell h x)" for x
    by (simp add: new e_def)
  have e: "e = b \<or> (\<exists>m \<in> set (T b). e = m + of_nat 40)"
    using last_in_set [of "b # map node_link (T b)"] by (auto simp: e_def node_offsets)
  have at: "node_at h (live h V) m" if "c \<in> buckets" "m \<in> set (T c)" for c m by (rule node_at_mono [OF index_okD(2) [OF I that] L])
  have nn: "node_at h (live h V) n" by (rule node_at_mono [OF n(1) L])
  have low: "h_cell h' c = (if c = e then n else h_cell h c)" if "c < SEGMENTS_AREA_START" for c
    using node_high [OF nn, of 8] that unfolding new' by fastforce
  have cell: "h_cell h' (m + of_nat d) = (if m + of_nat d = e then n else h_cell h (m + of_nat d))"
    if "c \<in> buckets" "m \<in> set (T c)" "d < 48" for c m d
  proof -
    have "m \<noteq> n" using n(2) [OF that(1)] that(2) by blast
    then have "m + of_nat d \<noteq> n + of_nat 8" using node_cells [OF at [OF that(1,2)] nn that(3), of 8] by simp
    then show ?thesis by (simp only: new' if_False)
  qed
  have own: "n + of_nat d \<noteq> e" if "d < 48" for d
    using e
  proof
    assume "\<exists>m \<in> set (T b). e = m + of_nat 40"
    then obtain m where m: "m \<in> set (T b)" "e = m + of_nat 40" by blast
    then have "m \<noteq> n" using n(2) [OF b] by blast
    then show ?thesis using node_cells [OF nn at [OF b m(1)] that, of 40] m(2) by simp
  qed (use node_high [OF nn that] buckets_low [OF b] in blast)
  have owncell: "h_cell h' (n + of_nat d) = h_cell h (n + of_nat d)" if "d < 48" "d \<noteq> 8" for d
    using own [OF that(1)] node_cells [OF nn nn that(1), of 8] that(2) by (simp add: new')
  show "node_key h' n = node_key h n" "node_val h' n = node_val h n"
    using owncell [of 24] owncell [of 32] by (simp_all add: node_offsets)
  have data: "m + of_nat d \<noteq> e" if "c \<in> buckets" "m \<in> set (T c)" "d < 40" for c m d
    using e
  proof
    assume "\<exists>m \<in> set (T b). e = m + of_nat 40"
    then obtain k where k: "k \<in> set (T b)" "e = k + of_nat 40" by blast
    then show ?thesis using node_cells [OF at [OF that(1,2)] at [OF b k(1)], of d 40] that(3) by simp
  qed (use node_high [OF at [OF that(1,2)], of d] that(3) buckets_low [OF b] in auto)
  show "contents h' (T c) = contents h (T c)" if c: "c \<in> buckets"
    by (rule contents_cong)
      (use cell [OF c, of _ 24] cell [OF c, of _ 32] data [OF c, of _ 24] data [OF c, of _ 32] in \<open>simp_all add: node_offsets\<close>)
  have "links h' c (T c)" if c: "c \<in> buckets" "c \<noteq> b" for c
  proof -
    have "c \<noteq> e" using e c(2) buckets_low [OF c(1)] node_high [OF at [OF b], of _ 40] by auto
    moreover have "m + of_nat 40 \<noteq> e" if m: "m \<in> set (T c)" for m
      using e
    proof
      assume "\<exists>k \<in> set (T b). e = k + of_nat 40"
      then obtain k where k: "k \<in> set (T b)" "e = k + of_nat 40" by blast
      then have "m \<noteq> k" using index_okD(3) [OF I c(1) b c(2)] m by blast
      then show ?thesis using node_cells [OF at [OF c(1) m] at [OF b k(1)], of 40 40] k(2) by simp
    qed (use node_high [OF at [OF c(1) m], of 40] buckets_low [OF b] in auto)
    ultimately show ?thesis
      using links_cong [of h' c h "T c"] index_okD(1) [OF I c(1)] low [OF buckets_low [OF c(1)]] cell [OF c(1), of _ 40]
      by (simp add: node_offsets)
  qed
  moreover have "links h' b (T b @ [n])"
  proof (rule links_snoc [OF index_okD(1) [OF I b] _ n(3)])
    have blink: "b \<notin> node_link ` set (T b)"
    proof
      assume "b \<in> node_link ` set (T b)"
      then obtain m where m: "m \<in> set (T b)" "b = m + of_nat 40" by (auto simp: node_offsets)
      then show False using node_high [OF at [OF b m(1)], of 40] buckets_low [OF b] by simp
    qed
    have "inj_on node_link (set (T b))" by (auto simp: inj_on_def node_offsets)
    with blink show "distinct (b # map node_link (T b))"
      using links_distinct(1) [OF index_okD(1) [OF I b]] blink by (simp add: distinct_map)
    show "h_cell h' (node_link n) = 0" using owncell [of 40] z by (simp add: node_offsets)
    show "h_cell h' x = (if x = last (b # map node_link (T b)) then n else h_cell h x)" if "x \<in> set (b # map node_link (T b))" for x
      unfolding e_def [symmetric] using that low [OF buckets_low [OF b]] cell [OF b _, of _ 40] unfolding node_offsets(3) by auto
  qed
  moreover have "bsize h' = bsize h" by (simp add: pg bsize_def fun_eq_iff)
  ultimately show "index_ok h' L (T(b := T b @ [n]))"
    using I n(1,2) b unfolding index_ok_def by (auto simp: node_at_def)
qed

section \<open>The maps\<close>

lemma get_after:
  assumes I: "index_ok h L T" and I': "index_ok h' L' T'" and p: "p < 64" and q: "q < 64"
    and same: "\<And>c. c \<in> buckets \<Longrightarrow> c \<noteq> bucket p key \<Longrightarrow> contents h' (T' c) = contents h (T c)"
    and new: "map_of (contents h' (T' (bucket p key))) = (map_of (contents h (T (bucket p key))))(key \<mapsto> val)"
  shows "index_get h' q k = (if q = p \<and> k = key then Some val else index_get h q k)"
proof (cases "bucket q k = bucket p key")
  case True
  then have "q = p" by (rule bucket_table [OF q p])
  then show ?thesis using True new index_get_map(1) [OF I q, of k] index_get_map(1) [OF I' q, of k] by simp
next
  case False
  then show ?thesis using same [OF bucket_in [OF q] False] index_get_map(1) [OF I q, of k] index_get_map(1) [OF I' q, of k] by auto
qed

lemma map_of_snoc: "map_of xs k = None \<Longrightarrow> map_of (xs @ [(k, v)]) = (map_of xs)(k \<mapsto> v)"
  by (auto simp: map_add_def fun_eq_iff split: option.splits)

text \<open>The last cell of a bucket.\<close>

lemma last_cell:
  assumes "e = last (b # map node_link ns)"
  shows "e = b \<or> (\<exists>m \<in> set ns. e = m + of_nat 40)"
  using last_in_set [of "b # map node_link ns"] assms by (auto simp: node_offsets)

lemma put_node_links:
  assumes inv: "client_inv sh h V P" and I: "index_ok h M T" and M: "M \<subseteq> live h V" and p: "p < 64"
    and n: "node_at h (live h V) n" "n \<notin> M" "h_cell h (node_link n) = 0" "node_key h n = key" "node_val h n = val"
    and k: "key \<notin> node_key h ` set (T (bucket p key))"
  defines "e \<equiv> last (bucket p key # map node_link (T (bucket p key)))"
  defines "h' \<equiv> link_reference sh e n h"
  shows "client_inv sh h' V P" "live h' V = live h V" "others_ok sh h h'" "\<exists>T'. index_ok h' (insert n M) T'
      \<and> (\<forall>q < 64. \<forall>k. index_get h' q k = (if q = p \<and> k = key then Some val else index_get h q k))"
    and "spares (live h V - insert n M) h h'"
proof -
  let ?b = "bucket p key" and ?L = "insert n M"
  have b: "?b \<in> buckets" by (rule bucket_in [OF p])
  have sub: "?L \<subseteq> live h V" using M n(1) by (simp add: node_at_def)
  have IL: "index_ok h ?L T" by (rule index_frame(1) [OF I keeps_refl]) blast
  have nT: "n \<notin> set (T c)" if "c \<in> buckets" for c using index_okD(2) [OF I that, of n] n(2) by (auto simp: node_at_def)
  have n0: "n \<noteq> 0" using node_high [OF n(1), of 0] by (auto simp: layout)
  have nL: "node_at h ?L n" using n(1) by (simp add: node_at_def)
  note LH = link_heap(2) [of sh e n h, folded h'_def] and lo = link_heap(1) [of sh h e n, folded h'_def]
  have pg: "h_page h' = h_page h" using lo by (simp add: log_only_def)
  have E: "index_ok h' ?L (T(?b := T ?b @ [n]))" "\<And>c. c \<in> buckets \<Longrightarrow> contents h' (T c) = contents h (T c)"
    "node_key h' n = node_key h n" "node_val h' n = node_val h n"
    by (rule index_extend [OF IL sub b nL _ n0 n(3) pg LH [unfolded e_def]]; use nT in blast)+
  have A: "alloc_inv h V" using inv by (simp add: client_inv_def)
  note e = last_cell [OF meta_eq_to_obj_eq [OF e_def]]
  have at: "node_at h (live h V) m" if "m \<in> set (T ?b)" for m by (rule node_at_mono [OF index_okD(2) [OF I b that] M])
  have "\<not> listed V e" using e low_unlisted [OF A buckets_low [OF b]] node_unlisted [OF A at, of _ 40] by auto
  then have "h_cell h' x = h_cell h x" if "listed V x" for x
    using node_unlisted [OF A n(1), of 8] that by (auto simp: LH)
  note C = log_only_client(1-3) [OF inv lo this]
  show "client_inv sh h' V P" "live h' V = live h V" "others_ok sh h h'" using C by blast+
  have "index_get h' q k = (if q = p \<and> k = key then Some val else index_get h q k)" if "q < 64" for q k
  proof (rule get_after [OF I E(1) p that])
    show "contents h' ((T(?b := T ?b @ [n])) c) = contents h (T c)" if "c \<in> buckets" "c \<noteq> ?b" for c
      using E(2) [OF that(1)] that(2) by simp
    have "contents h' ((T(?b := T ?b @ [n])) ?b) = contents h (T ?b) @ [(key, val)]"
      using E(2) [OF b] E(3,4) n(4,5) by (simp add: contents_def)
    then show "map_of (contents h' ((T(?b := T ?b @ [n])) ?b)) = (map_of (contents h (T ?b)))(key \<mapsto> val)"
      using map_of_snoc [OF entry_missing(2) [OF k]] by simp
  qed
  then show "\<exists>T'. index_ok h' ?L T' \<and> (\<forall>q < 64. \<forall>k. index_get h' q k = (if q = p \<and> k = key then Some val else index_get h q k))"
    using E(1) by blast
  show "spares (live h V - ?L) h h'"
    unfolding spares_def
  proof (intro ballI allI impI)
    fix c d assume c: "c \<in> live h V - ?L" and d: "d < bsize h (cxl_ptr_page c)"
    have other: "c + of_nat d \<noteq> m + of_nat x" if "node_at h (live h V) m" "x < 48" "m \<in> ?L" for m x
      using other_block [OF that(1,2) _ _ d] c that(3) by blast
    have "c + of_nat d \<noteq> n + of_nat 8" using other [OF n(1), of 8] by simp
    moreover have "c + of_nat d \<noteq> e"
      using e
    proof
      assume "\<exists>m \<in> set (T ?b). e = m + of_nat 40"
      then obtain m where m: "m \<in> set (T ?b)" "e = m + of_nat 40" by blast
      then show ?thesis using other [OF at [OF m(1)], of 40] index_okD(2) [OF I b m(1)] by (simp add: node_at_def)
    qed (use block_high [of h "cxl_ptr_page c" c d] live_block c d buckets_low [OF b] in auto)
    ultimately show "h_cell h' (c + of_nat d) = h_cell h (c + of_nat d)" by (simp add: LH)
  qed
qed

abbreviation put_done :: "cxl_shm \<Rightarrow> shm_heap \<Rightarrow> block_lists \<Rightarrow> u64 set \<Rightarrow> u64 \<Rightarrow> u64 \<Rightarrow> u64 \<Rightarrow> bool" where
  "put_done sh h V M p key val \<equiv> \<exists>h' V' P' M' T'. put (2 ^ 64) sh key val h = Inr h' \<and> client_inv sh h' V' P' \<and> others_ok sh h h'
      \<and> live h' V' = live h V \<union> M' \<and> (if index_get h p key = None then \<exists>n. n \<notin> live h V \<and> M' = insert n M else M' = M) \<and> spares (live h V - M) h h' \<and> index_ok h' M' T'
      \<and> (\<forall>q < 64. \<forall>k. index_get h' q k = (if q = p \<and> k = key then Some val else index_get h q k))"

lemma put_overwrites:
  assumes inv: "client_inv sh h V P" and I: "index_ok h M T" and M: "M \<subseteq> live h V" and p: "p = ucast (shm_thread_id sh - 1)" "p < 64"
    and k: "key \<in> node_key h ` set (T (bucket p key))"
  shows "put_done sh h V M p key val"
proof -
  let ?b = "bucket p key"
  have b: "?b \<in> buckets" by (rule bucket_in [OF p(2)])
  note F = put_found [OF inv I M b k, where val = val]
  define n where "n = h_cell h (entry_of h key ?b (T ?b))"
  let ?h = "set_cell (node_data n + 8) val h"
  have "put (2 ^ 64) sh key val h = Inr ?h"
    unfolding put_def bucket_eqs p(1) [symmetric] index_get_map(2) [OF I p(2)] using k by (simp add: n_def)
  moreover have "index_get ?h q k = (if q = p \<and> k = key then Some val else index_get h q k)" if "q < 64" for q k
    unfolding n_def by (rule get_after [OF I F(4) p(2) that _ F(5)]) (rule F(6))
  moreover have "spares (live h V - M) h ?h"
    unfolding spares_def
  proof (intro ballI allI impI)
    fix c d assume c: "c \<in> live h V - M" and d: "d < bsize h (cxl_ptr_page c)"
    have n: "node_at h M n" using index_okD(2) [OF I b entry_found(1) [OF index_okD(1) [OF I b] k]] by (simp add: n_def)
    then have "c + of_nat d \<noteq> n + of_nat 32"
      using other_block [OF node_at_mono [OF n M], of 32 c d] c d by (auto simp: node_at_def)
    then show "h_cell ?h (c + of_nat d) = h_cell h (c + of_nat d)" unfolding node_offsets(4) by simp
  qed
  moreover have "live ?h V = live h V \<union> M" using F(2) M by (auto simp: n_def)
  moreover obtain v where "index_get h p key = Some v" using index_get_known [OF I p(2)] k by fastforce
  ultimately show ?thesis using F(1,3,4)
    by (intro exI [of _ ?h] exI [of _ V] exI [of _ P] exI [of _ M] exI [of _ T]) (simp add: n_def)
qed

lemma put_extends:
  assumes inv: "client_inv sh h V P" and I: "index_ok h M T" and M: "M \<subseteq> live h V" and p: "p = ucast (shm_thread_id sh - 1)" "p < 64"
    and k: "key \<notin> node_key h ` set (T (bucket p key))"
  shows "put_done sh h V M p key val \<or> put (2 ^ 64) sh key val h = Inl Null_Deref \<and> \<not> room sh h P 1 \<and> index_get h p key = None"
proof -
  define e where "e = last (bucket p key # map node_link (T (bucket p key)))"
  have new: "index_get h p key = None" using index_get_known [OF I p(2)] k by simp
  obtain i where i: "cxl_page_queue False (of_nat 24 + sizeof_CXLObj) = Inr i" "3 \<le> i" "i < CXL_BIN_SIZE" "24 + 24 \<le> bin_bytes i"
    using object_bin [of 24] by auto
  have run: "put (2 ^ 64) sh key val h = bnd (cxl_page_malloc (2 ^ 64) sh i (cxl_find_page sh i h) h) (\<lambda>(block, page, h).
      bnd (deref page) (\<lambda>page. bnd (deref block) (\<lambda>block. Inr (link_reference sh e block (put_node sh block page key val h)))))"
    unfolding put_def bucket_eqs p(1) [symmetric] index_get_map(2) [OF I p(2)]
    using k i(1) entry_missing(1) [OF k] by (simp add: Let_def e_def)
  have i2: "i \<noteq> 2" using i(2) by simp
  from pool_block [OF inv order.refl i(3) i2] show ?thesis
  proof (elim disjE exE conjE)
    fix n pg h1 V1 P1
    assume 1: "cxl_page_malloc (2 ^ 64) sh i (cxl_find_page sh i h) h = Inr (Some n, Some pg, h1)" "steady sh h V P h1 V1 P1"
      "pg \<in> set (po_bin P1 i)" "bl_free V1 pg = n # tl (bl_free V1 pg)"
    define h2 where "h2 = put_node sh n pg key val h1"
    let ?V = "drop_free pg V1" and ?h = "link_reference sh e n h2"
    have live1: "live h1 V1 = live h V" "keeps (live h V) h h1" "others_ok sh h h1"
      using 1(2) by (simp_all add: steady_def)
    have I1: "client_inv sh h1 V1 P1" by (rule steady_inv [OF 1(2)])
    then have A: "alloc_inv h1 V1" and pi: "pool_inv sh h1 P1" by (simp_all add: client_inv_def)
    have pg: "cxl_ptr_page n = pg" by (rule block_in_ptr_page [OF alloc_inv_take(3) [OF A 1(4)]])
    have sz: "48 \<le> bsize h1 pg" using pool_bin_size [OF pi 1(3) i(3)] i(4) by simp
    note Q = put_node_cells [OF pg h2_def]
    have T: "client_inv sh h2 ?V P1" "live h2 ?V = insert n (live h1 V1)" "n \<notin> live h1 V1"
      "keeps (live h1 V1) h1 h2" "bsize h2 (cxl_ptr_page n) = bin_bytes i" "others_ok sh h1 h2"
      by (rule take_client [OF I1 1(3) i(3) 1(4) Q(1-4) Q(9)]; use sz in simp)+
    have L: "live h2 ?V = insert n (live h V)" "n \<notin> live h V" using T(2,3) live1(1) by simp_all
    have K: "keeps (live h V) h h2" using keeps_trans [OF live1(2)] T(4) live1(1) by simp
    note I2 = index_frame [OF I keeps_mono [OF K M] order.refl]
    have same: "node_key h2 ` set (T (bucket p key)) = node_key h ` set (T (bucket p key))"
      using arg_cong [OF I2(2) [OF bucket_in [OF p(2), of key]], of "\<lambda>xs. fst ` set xs"] by (simp add: contents_def image_image)
    have n: "node_at h2 (live h2 ?V) n" "n \<notin> M" using T(5) i(4) L M by (auto simp: node_at_def)
    have M2: "M \<subseteq> live h2 ?V" using M L(1) by blast
    note R = put_node_links [OF T(1) I2(1) M2 p(2) n Q(8) Q(6,7) k [folded same], folded e_def]
    obtain T' where T': "index_ok ?h (insert n M) T'"
      "\<forall>q < 64. \<forall>k. index_get ?h q k = (if q = p \<and> k = key then Some val else index_get h2 q k)" using R(4) by blast
    have g: "index_get h2 q k = index_get h q k" if "q < 64" for q k by (rule index_get_frame [OF I keeps_mono [OF K M] that])
    have "spares (live h V - M) h ?h"
      using R(5) L keepsD(2,4) [OF K] unfolding spares_def by auto
    moreover have "put (2 ^ 64) sh key val h = Inr ?h" unfolding run 1(1) by (simp add: h2_def)
    moreover have "others_ok sh h ?h" by (rule others_ok_trans [OF others_ok_trans [OF live1(3) T(6)] R(3)])
    ultimately have "put_done sh h V M p key val"
      using R(1,2) T' g L M new
      by (intro exI [of _ ?h] exI [of _ ?V] exI [of _ P1] exI [of _ "insert n M"] exI [of _ T']) auto
    then show ?thesis ..
  next
    assume f: "cxl_page_malloc (2 ^ 64) sh i (cxl_find_page sh i h) h = Inl Null_Deref" and no: "\<not> room sh h P 1"
    have "put (2 ^ 64) sh key val h = Inl Null_Deref" unfolding run f by simp
    then show ?thesis using no new by (intro disjI2 conjI)
  qed
qed

lemma put_step:
  assumes "client_inv sh h V P" and "index_ok h M T" and "M \<subseteq> live h V" and "p = ucast (shm_thread_id sh - 1)" "p < 64"
  shows "put_done sh h V M p key val \<or> put (2 ^ 64) sh key val h = Inl Null_Deref \<and> \<not> room sh h P 1 \<and> index_get h p key = None"
proof (cases "key \<in> node_key h ` set (T (bucket p key))")
  case True
  show ?thesis by (rule disjI1) (rule put_overwrites [OF assms True])
next
  case False
  show ?thesis by (rule put_extends [OF assms False])
qed

lemma get_index: "index_ok h M T \<Longrightarrow> drop_bit 56 key < (64 :: u64) \<Longrightarrow> get (2 ^ 64) key h = Inr (index_get h (drop_bit 56 key) key)"
  using index_get_map(2) [of h M T "drop_bit 56 key" key] unfolding get_def bucket_eqs index_get_def by auto

section \<open>Any number of clients\<close>

text \<open>
  Clients enter, allocate and free as before, and put; a put is labelled with the table, the
  key and the value. Tables exist for the first 64 thread ids.
\<close>

inductive index_step :: "u64 \<Rightarrow> (u64 \<times> u64 \<times> u64) option \<Rightarrow> system \<Rightarrow> system \<Rightarrow> bool" for N :: u64 where
  other: "client_step N S S' \<Longrightarrow> index_step N None S S'"
| put: "sh \<in> set (sy_clients S) \<Longrightarrow> p = ucast (shm_thread_id sh - 1) \<Longrightarrow> p < 64
    \<Longrightarrow> put (2 ^ 64) sh key val (sy_heap S) = Inr h \<Longrightarrow> index_step N (Some (p, key, val)) S (S\<lparr>sy_heap := h\<rparr>)"

inductive_cases index_otherE: "index_step N None S S'"

inductive_cases index_putE: "index_step N (Some (p, key, val)) S S'"

definition with_nodes :: "u64 set \<Rightarrow> system \<Rightarrow> system" where
  "with_nodes M S = S\<lparr>sy_out := sy_out S \<union> M\<rparr>"

definition idx_inv :: "system \<Rightarrow> bool" where
  "idx_inv S \<longleftrightarrow> (\<exists>M T. sys_inv (with_nodes M S) \<and> sy_out S \<inter> M = {} \<and> index_ok (sy_heap S) M T)"

definition table_find :: "system \<Rightarrow> u64 \<Rightarrow> u64 \<Rightarrow> u64 option" where
  "table_find S p key = (if p < 64 then index_get (sy_heap S) p key else None)"

lemma idx_inv_start: "idx_inv start" "table_find start p key = None"
proof -
  have ok: "index_ok (sy_heap start) {} (\<lambda>_. [])" by (simp add: index_ok_def start_def zero_defs)
  then show "idx_inv start" unfolding idx_inv_def using sys_inv_start by (intro exI [of _ "{}"] exI [of _ "\<lambda>_. []"]) (simp add: with_nodes_def)
  show "table_find start p key = None" using index_get_map(1) [OF ok, of p key] by (simp add: table_find_def)
qed

lemma client_step_nodes:
  assumes st: "client_step N S S'" and inv: "sys_inv (with_nodes M S)" and M: "sy_out S \<inter> M = {}"
  shows "client_step N (with_nodes M S) (with_nodes M S')" "sy_out S' \<inter> M = {}"
proof -
  have "client_step N (with_nodes M S) (with_nodes M S') \<and> sy_out S' \<inter> M = {}"
    using st
  proof (cases rule: client_step.cases)
    case (enter mac pid sh h)
    have "client_step N (with_nodes M S) (with_nodes M S\<lparr>sy_heap := h, sy_clients := sy_clients (with_nodes M S) @ [sh]\<rparr>)"
      by (rule client_step.enter) (use enter in \<open>simp_all add: with_nodes_def\<close>)
    moreover have "with_nodes M S\<lparr>sy_heap := h, sy_clients := sy_clients (with_nodes M S) @ [sh]\<rparr> = with_nodes M S'"
      unfolding enter(1) with_nodes_def by (cases S) simp
    ultimately show ?thesis using M by (simp add: enter(1))
  next
    case (malloc sh n emb r h)
    have "{ref_tbr r, ref_data r - sizeof_CXLObj} \<inter> sy_out (with_nodes M S) = {}"
      using sys_malloc [OF inv _ malloc(3), of sh emb] malloc(2,4) by (auto simp: with_nodes_def)
    moreover have "client_step N (with_nodes M S) (with_nodes M S\<lparr>sy_heap := h, sy_out := sy_out (with_nodes M S) \<union> {ref_tbr r, ref_data r - sizeof_CXLObj}\<rparr>)"
      by (rule client_step.malloc) (use malloc in \<open>simp_all add: with_nodes_def\<close>)
    moreover have "with_nodes M S\<lparr>sy_heap := h, sy_out := sy_out (with_nodes M S) \<union> {ref_tbr r, ref_data r - sizeof_CXLObj}\<rparr> = with_nodes M S'"
      unfolding malloc(1) with_nodes_def by (cases S) (simp add: Un_ac)
    ultimately show ?thesis using M by (auto simp: malloc(1) with_nodes_def)
  next
    case (free sh b special h)
    have "client_step N (with_nodes M S) (with_nodes M S\<lparr>sy_heap := h, sy_out := sy_out (with_nodes M S) - {b}\<rparr>)"
      by (rule client_step.free) (use free in \<open>simp_all add: with_nodes_def\<close>)
    moreover have "sy_out S \<union> M - {b} = sy_out S - {b} \<union> M" using free(3) M by blast
    then have "with_nodes M S\<lparr>sy_heap := h, sy_out := sy_out (with_nodes M S) - {b}\<rparr> = with_nodes M S'"
      unfolding free(1) with_nodes_def by (cases S) simp
    ultimately show ?thesis using M by (auto simp: free(1) with_nodes_def)
  qed
  then show "client_step N (with_nodes M S) (with_nodes M S')" "sy_out S' \<inter> M = {}" by blast+
qed

lemma idx_other:
  assumes st: "client_step N S S'" and inv: "idx_inv S" and fits: "region_fits (newcomer N)"
  shows "idx_inv S'" "table_find S' p key = table_find S p key"
proof -
  from inv obtain M T where I: "sys_inv (with_nodes M S)" "sy_out S \<inter> M = {}" "index_ok (sy_heap S) M T" unfolding idx_inv_def by blast
  note N = client_step_nodes [OF st I(1,2)]
  have "keeps (sy_out (with_nodes M S) \<inter> sy_out (with_nodes M S')) (sy_heap (with_nodes M S)) (sy_heap (with_nodes M S'))"
    by (rule step_keeps [OF I(1) fits N(1)])
  then have K: "keeps M (sy_heap S) (sy_heap S')" using keeps_mono [where L' = M] by (auto simp: with_nodes_def)
  show "idx_inv S'" unfolding idx_inv_def using sys_inv_step [OF N(1) I(1) fits] N(2) index_frame(1) [OF I(3) K order.refl] by blast
  show "table_find S' p key = table_find S p key" using index_get_frame [OF I(3) K] by (simp add: table_find_def)
qed

lemma idx_put:
  assumes sh: "sh \<in> set (sy_clients S)" and p: "p = ucast (shm_thread_id sh - 1)" "p < 64" and inv: "idx_inv S"
    and put: "put (2 ^ 64) sh key val (sy_heap S) = Inr h"
  shows "idx_inv (S\<lparr>sy_heap := h\<rparr>)" "table_find (S\<lparr>sy_heap := h\<rparr>) q k = (if q = p \<and> k = key then Some val else table_find S q k)"
proof -
  from inv obtain M T where I: "sys_inv (with_nodes M S)" "sy_out S \<inter> M = {}" "index_ok (sy_heap S) M T" unfolding idx_inv_def by blast
  obtain V Ps where P: "pools_inv (sy_heap S) V (sy_clients S) Ps" "live (sy_heap S) V = sy_out S \<union> M"
    using I(1) by (auto simp: sys_inv_def with_nodes_def)
  from pools_client [OF P(1) sh] obtain i where i: "i < length (sy_clients S)" "sy_clients S ! i = sh" "client_inv sh (sy_heap S) V (Ps ! i)" by blast
  have M: "M \<subseteq> live (sy_heap S) V" using P(2) by blast
  from put_step [OF i(3) I(3) M p, of key val] put obtain V' P' M' T' where R: "client_inv sh h V' P'" "others_ok sh (sy_heap S) h"
    "live h V' = live (sy_heap S) V \<union> M'"
    "if index_get (sy_heap S) p key = None then \<exists>n. n \<notin> live (sy_heap S) V \<and> M' = insert n M else M' = M" "index_ok h M' T'"
    "\<forall>q < 64. \<forall>k. index_get h q k = (if q = p \<and> k = key then Some val else index_get (sy_heap S) q k)" by auto
  have M': "M \<subseteq> M'" "M' \<inter> live (sy_heap S) V = M" using R(4) M by (auto split: if_splits)
  have "pools_inv h V' (sy_clients S) (Ps[i := P'])" using pools_turn [OF P(1) i(1)] R(1,2) i(2) by simp
  moreover have "live h V' = sy_out S \<union> M'" "sy_out S \<inter> M' = {}" using R(3) M' P(2) I(2) by auto
  ultimately have "sys_inv (with_nodes M' (S\<lparr>sy_heap := h\<rparr>))" by (auto simp: sys_inv_def with_nodes_def)
  then show "idx_inv (S\<lparr>sy_heap := h\<rparr>)" unfolding idx_inv_def using \<open>sy_out S \<inter> M' = {}\<close> R(5) by auto
  show "table_find (S\<lparr>sy_heap := h\<rparr>) q k = (if q = p \<and> k = key then Some val else table_find S q k)"
    using R(6) p(2) by (simp add: table_find_def)
qed

section \<open>What a store of keys and values promises\<close>

fun last_put :: "('p \<times> 'k \<times> 'v) option list \<Rightarrow> 'p \<Rightarrow> 'k \<Rightarrow> 'v option \<Rightarrow> 'v option" where
  "last_put [] q j r = r"
| "last_put (None # es) q j r = last_put es q j r"
| "last_put (Some (p, k, v) # es) q j r = last_put es q j (if q = p \<and> j = k then Some v else r)"

locale key_value_store = kept ok step
  for ok :: "'s \<Rightarrow> bool" and step :: "('p \<times> 'k \<times> 'v) option \<Rightarrow> 's \<Rightarrow> 's \<Rightarrow> bool" +
  fixes find :: "'s \<Rightarrow> 'p \<Rightarrow> 'k \<Rightarrow> 'v option"
  assumes puts: "ok s \<Longrightarrow> step (Some (p, k, v)) s s' \<Longrightarrow> find s' q j = (if q = p \<and> j = k then Some v else find s q j)"
    and others: "ok s \<Longrightarrow> step None s s' \<Longrightarrow> find s' q j = find s q j"
begin

lemma run_find: "runs step s es s' \<Longrightarrow> ok s \<Longrightarrow> find s' q j = last_put es q j (find s q j)"
proof (induction rule: runs.induct)
  case (go e s s1 es s2)
  have "find s2 q j = last_put es q j (find s1 q j)" using go.IH stays_ok [OF go.prems go.hyps(1)] .
  moreover have "last_put es q j (find s1 q j) = last_put (e # es) q j (find s q j)"
  proof (cases e)
    case None
    then show ?thesis using others [OF go.prems] go.hyps(1) by simp
  next
    case (Some x)
    then show ?thesis using puts [OF go.prems] go.hyps(1) by (cases x) auto
  qed
  ultimately show ?case by simp
qed simp

end

interpretation idx: key_value_store "\<lambda>S. region_fits (newcomer N) \<and> idx_inv S" "index_step N" table_find for N
proof
  fix S S' e assume S: "region_fits (newcomer N) \<and> idx_inv S"
  show "region_fits (newcomer N) \<and> idx_inv S'" if "index_step N e S S'"
    using that S idx_other(1) idx_put(1) by (cases rule: index_step.cases) auto
  show "table_find S' q j = (if q = p \<and> j = k then Some v else table_find S q j)" if "index_step N (Some (p, k, v)) S S'" for p k v q j
    using that S idx_put(2) by (auto elim!: index_putE)
  show "table_find S' q j = table_find S q j" if "index_step N None S S'" for q j
    using that S idx_other(2) by (auto elim!: index_otherE)
qed

section \<open>Properties\<close>

text \<open>
  C11. The index is a map per client, for the 64 clients that have a table. Whatever clients do
  (any number enter, allocate and free, those with thread ids up to 64 put, in any order, with any
  collisions of keys in a bucket), \<open>get\<close> of a key whose upper byte is below 64 returns the value
  last put under it by the client that byte names, and nothing if there was none. (Beyond 64 the
  code computes a bucket outside the tables: \<open>buckets_of_64_clients\<close>.)
\<close>

theorem get_returns_last_put:
  assumes "runs (index_step N) start es S" and "region_fits (newcomer N)" and "drop_bit 56 key < (64 :: u64)"
  shows "get (2 ^ 64) key (sy_heap S) = Inr (last_put es (drop_bit 56 key) key None)"
proof -
  have ok: "region_fits (newcomer N) \<and> idx_inv start" using assms(2) idx_inv_start(1) by blast
  have "idx_inv S" using idx.run_ok [OF assms(1) ok] by blast
  then obtain M T where "index_ok (sy_heap S) M T" unfolding idx_inv_def by blast
  then have "get (2 ^ 64) key (sy_heap S) = Inr (table_find S (drop_bit 56 key) key)"
    using get_index assms(3) by (simp add: table_find_def)
  then show ?thesis using idx.run_find [OF assms(1) ok, of "drop_bit 56 key" key] idx_inv_start(2) by simp
qed

text \<open>
  C12. \<open>put\<close> by one of the first 64 clients refines the update of its map: it returns, or
  dereferences a null page when the key is new and no memory is left; every other key of every
  client keeps its value and every block that is no node its contents. A key that is there is
  overwritten in place; for a new one exactly one block is taken, which becomes a node.
\<close>

theorem put_refines_update:
  assumes "client_inv sh h V P" and "index_ok h M T" and "M \<subseteq> live h V" and "p = ucast (shm_thread_id sh - 1)" "p < 64"
  shows "(\<exists>h' V' P' M' T'. put (2 ^ 64) sh key val h = Inr h' \<and> client_inv sh h' V' P' \<and> others_ok sh h h'
      \<and> live h' V' = live h V \<union> M' \<and> (if index_get h p key = None then \<exists>n. n \<notin> live h V \<and> M' = insert n M else M' = M) \<and> spares (live h V - M) h h' \<and> index_ok h' M' T'
      \<and> (\<forall>q < 64. \<forall>k. index_get h' q k = (if q = p \<and> k = key then Some val else index_get h q k)))
    \<or> put (2 ^ 64) sh key val h = Inl Null_Deref \<and> \<not> room sh h P 1 \<and> index_get h p key = None"
  by (rule put_step [OF assms])

text \<open>
  C16. The tables have room for 64 clients only. The bucket \<open>put\<close> computes lies in the area of
  the tables exactly if the client's thread id is at most 64, the one \<open>get\<close> computes exactly if
  the key's upper byte is below 64. \<open>thread_init\<close> hands out ids up to 1024, and nothing checks
  either: the 65th client writes its buckets into the first segment.
\<close>

theorem buckets_of_64_clients:
  assumes "shm_thread_id sh \<noteq> 0" and "unat (shm_thread_id sh) \<le> MAX_THREAD"
  shows "HASH_TABLE_START \<le> put_bucket sh key \<and> (put_bucket sh key < SEGMENTS_AREA_START \<longleftrightarrow> unat (shm_thread_id sh) \<le> 64)
    \<and> HASH_TABLE_START \<le> get_bucket key \<and> (get_bucket key < SEGMENTS_AREA_START \<longleftrightarrow> drop_bit 56 key < 64)"
proof -
  have id: "unat (ucast (shm_thread_id sh - 1) :: u64) = unat (shm_thread_id sh) - 1" "unat (shm_thread_id sh) - 1 < 1024"
    "0 < unat (shm_thread_id sh)"
    using assms by (auto simp: unat_minus_one layout unat_gt_0)
  have "unat (drop_bit 56 key) = unat key div 2 ^ 56" by (simp add: drop_bit_eq_div unat_div_distrib)
  moreover have "unat key < 2 ^ 64" using unsigned_less [of key] by simp
  ultimately have k: "unat (drop_bit 56 key) < 256" by (simp add: less_mult_imp_div_less)
  have "unat (ucast (shm_thread_id sh - 1) :: u64) < 1024" "unat (drop_bit 56 key) < 1024" using id k by simp_all
  from this [THEN bucket_place] show ?thesis
    unfolding bucket_eqs using id by (auto simp: word_less_nat_alt)
qed

lemma demo_put:
  "\<exists>S. runs (index_step (2 ^ 28)) start [None, Some (0, 5, 7)] S"
proof -
  have z: "0 < MAX_THREAD" by (simp add: layout)
  have id: "pack_machine_process_id 1 7 \<noteq> 0" by (simp add: pack_machine_process_id_def)
  from thread_init_client [OF zero_region(1,2) demo_fits z, of 1 7 "{}"] obtain sh h where
    t: "thread_init 1 7 (newcomer (2 ^ 28)) zero_heap = Some (sh, h)" "client_inv sh h empty_lists empty_pool"
    "h_sas h = h_sas zero_heap" "unat (shm_thread_id sh) = 1" "keeps {} zero_heap h"
    by (auto simp: zero_defs)
  have size: "shm_size sh = 2 ^ 28"
    using t(1) by (auto simp: thread_init_def Let_def newcomer_def split: option.splits)
  have "claim_segment sh h 0 = Some (0 + 1)"
    by (rule claim_segment_first) (simp_all add: t(3) size zero_defs)
  then have room: "room sh h empty_pool 1" by (auto simp: room_def layout)
  have tid: "shm_thread_id sh = 1" using t(4) by (simp add: word_unat_eq_iff)
  have "index_ok zero_heap {} (\<lambda>_. [])" by (simp add: index_ok_def zero_defs)
  from index_frame(1) [OF this t(5), of "{}"] have ok: "index_ok h {} (\<lambda>_. [])" by simp
  obtain h' where p: "put (2 ^ 64) sh 5 7 h = Inr h'"
    using put_step [OF t(2) ok _ refl, of 5 7] room tid by auto
  let ?S = "start\<lparr>sy_heap := h, sy_clients := [sh]\<rparr>"
  have "client_step (2 ^ 28) start ?S"
    using client_step.enter [of 1 7 "2 ^ 28" start sh h] t(1) id z by (simp add: start_def)
  moreover have "index_step (2 ^ 28) (Some (0, 5, 7)) ?S (?S\<lparr>sy_heap := h'\<rparr>)"
    by (rule index_step.put [of sh]) (use p in \<open>simp_all add: tid\<close>)
  ultimately show ?thesis by (blast intro: runs.intros index_step.other)
qed

theorem get_returns_last_put_witness:
  "\<exists>S. runs (index_step (2 ^ 28)) start [None, Some (0, 5, 7)] S \<and> get (2 ^ 64) 5 (sy_heap S) = Inr (Some 7)
    \<and> get (2 ^ 64) 6 (sy_heap S) = Inr None"
proof -
  obtain S where r: "runs (index_step (2 ^ 28)) start [None, Some (0, 5, 7)] S" using demo_put by blast
  have "drop_bit 56 5 = (0 :: u64)" "drop_bit 56 6 = (0 :: u64)" by simp_all
  then show ?thesis using r get_returns_last_put [OF r demo_fits, of 5] get_returns_last_put [OF r demo_fits, of 6] by auto
qed

theorem buckets_of_64_clients_witness:
  "SEGMENTS_AREA_START \<le> put_bucket (demo_shm\<lparr>shm_thread_id := 65\<rparr>) 5 \<and> put_bucket demo_shm 5 < SEGMENTS_AREA_START"
proof -
  have "\<not> put_bucket (demo_shm\<lparr>shm_thread_id := 65\<rparr>) 5 < SEGMENTS_AREA_START"
    using buckets_of_64_clients [of "demo_shm\<lparr>shm_thread_id := 65\<rparr>" 5] by (simp add: layout)
  moreover have "put_bucket demo_shm 5 < SEGMENTS_AREA_START"
    using buckets_of_64_clients [of demo_shm 5] by (simp add: demo_shm_def layout)
  ultimately show ?thesis by simp
qed

theorem put_refines_update_witness:
  "\<exists>h'. put (2 ^ 64) demo_shm 5 7 demo_client = Inr h' \<and> index_get h' 0 5 = Some 7 \<and> index_get h' 3 5 = None"
proof -
  have ok: "index_ok demo_client {} (\<lambda>_. [])" by (simp add: index_ok_def demo_client_def zero_heap_def)
  have p: "0 = (ucast (shm_thread_id demo_shm - 1) :: u64)" by (simp add: demo_shm_def)
  from put_refines_update [OF demo_client_inv ok _ p, of 5 7] demo_room [of 1] obtain h' where
    "put (2 ^ 64) demo_shm 5 7 demo_client = Inr h'"
    "\<forall>q < 64. \<forall>k. index_get h' q k = (if q = 0 \<and> k = 5 then Some 7 else index_get demo_client q k)" by auto
  moreover have "index_get demo_client 3 5 = None" using index_get_map(1) [OF ok, of 3 5] by simp
  ultimately show ?thesis by auto
qed

end
