(* ===== verification/Monitor_Sweep.thy ===== *)
theory Monitor_Sweep
  imports Ref_Runs Recovery
begin

text \<open>
  The monitor's sweep over the segments (the second half of \<open>single_recovery_loop\<close>): it ends, it
  takes a segment from its owner exactly if no block of it is in use by what the sweep looks at,
  and it spares every block that is: the objects with a positive count and the queues somebody
  sends to or receives from.
\<close>

section \<open>What the sweep takes for used\<close>

definition looks_used :: "shm_heap \<Rightarrow> u64 \<Rightarrow> u64 \<Rightarrow> bool" where
  "looks_used h p b \<longleftrightarrow> (if pg_is_msg_queue_page (h_page h p) then mq_receiver_id h b \<noteq> 0 \<or> mq_sender_id h b \<noteq> 0
     else get_ref_cnt_from_info (obj_ref_info h b) > 0)"

definition nth_block :: "nat \<Rightarrow> nat \<Rightarrow> nat \<Rightarrow> nat \<Rightarrow> u64" where
  "nth_block s j n k = page_area (seg_at s) j + of_nat (k * n)"

definition page_sound :: "shm_heap \<Rightarrow> u64 \<Rightarrow> bool" where
  "page_sound h p \<longleftrightarrow> bsize h p = 0 \<or> (16 \<le> bsize h p \<and> bsize h p \<le> 65536 \<and> (pg_is_msg_queue_page (h_page h p) \<longrightarrow> bsize h p = 192))"

definition page_used :: "shm_heap \<Rightarrow> nat \<Rightarrow> nat \<Rightarrow> bool" where
  "page_used h s j \<longleftrightarrow> (let p = meta_at (seg_at s) j in
     bsize h p \<noteq> 0 \<and> (\<exists>k < page_cap h p. looks_used h p (nth_block s j (bsize h p) k)))"

lemma nth_block_nat: "nth_block s j n k = of_nat (2 ^ 27 + s * 2 ^ 26 + j * 2 ^ 16 + k * n)"
  by (simp add: nth_block_def page_area_nat)

lemma place_nat: "nth_block s j n k + of_nat d = of_nat (2 ^ 27 + s * 2 ^ 26 + j * 2 ^ 16 + (k * n + d))"
  by (simp add: nth_block_def page_area_nat)

lemma place_bound:
  assumes "s < MAX_SEGMENT_NUM" "j < PAGES_PER_SEGMENT" "m \<le> 65536"
  shows "2 ^ 27 + s * 2 ^ 26 + j * 2 ^ 16 + m < (2 :: nat) ^ 64"
  using assms by (simp add: layout)

lemma place_unique:
  assumes s: "s < MAX_SEGMENT_NUM" and j: "j < PAGES_PER_SEGMENT" and n: "d < n" "d' < n"
    and k: "k * n + n \<le> 65536" "k' * n + n \<le> 65536"
    and eq: "nth_block s j n k + of_nat d = nth_block s j n k' + of_nat d'"
  shows "k' = k" "d' = d"
proof -
  have "2 ^ 27 + s * 2 ^ 26 + j * 2 ^ 16 + (k * n + d) < (2 :: nat) ^ 64" "2 ^ 27 + s * 2 ^ 26 + j * 2 ^ 16 + (k' * n + d') < (2 :: nat) ^ 64"
    using place_bound [OF s j] n k by simp_all
  then have "k * n + d = k' * n + d'"
    using eq unfolding place_nat by (metis of_nat_eq_64 add_left_cancel)
  then show "k' = k" "d' = d" using digit_div [OF n(1), of k] digit_div [OF n(2), of k'] digit_mod [OF n(1), of k] digit_mod [OF n(2), of k']
    by metis+
qed

lemma cap_room: "k < page_cap h p \<Longrightarrow> k * bsize h p + bsize h p \<le> 65536"
proof -
  assume "k < page_cap h p"
  then have "(k + 1) * bsize h p \<le> page_cap h p * bsize h p" by (intro mult_le_mono1) simp
  also have "\<dots> \<le> 65536" by (simp add: page_cap_def)
  finally show ?thesis by simp
qed

lemma looks_used_cong:
  "h_page h' p = h_page h p \<Longrightarrow> h_cell h' (b + 8) = h_cell h (b + 8) \<Longrightarrow> h_cell h' (b + 16) = h_cell h (b + 16)
     \<Longrightarrow> looks_used h' p b \<longleftrightarrow> looks_used h p b"
  by (simp add: looks_used_def overlay_defs)

section \<open>The blocks of a page\<close>

definition scan_frame :: "nat \<Rightarrow> nat set \<Rightarrow> shm_heap \<Rightarrow> shm_heap \<Rightarrow> bool" where
  "scan_frame s J h h' \<longleftrightarrow> h_sas h' = h_sas h \<and> h_seg h' = h_seg h \<and> h_tls h' = h_tls h \<and> h_era h' = h_era h
     \<and> (\<forall>a. h_cell h' a = h_cell h a \<or> (\<exists>j \<in> J. \<exists>k d. let p = meta_at (seg_at s) j in
          k < page_cap h p \<and> d < bsize h p \<and> a = nth_block s j (bsize h p) k + of_nat d \<and> \<not> looks_used h p (nth_block s j (bsize h p) k)))"

lemma ucast_block_size: "(ucast (pg_block_size (h_page h p)) :: u64) = of_nat (bsize h p)"
  unfolding bsize_def by (rule of_nat_unat [symmetric])

lemma place_le:
  assumes "s < MAX_SEGMENT_NUM" "j < PAGES_PER_SEGMENT" "k * n \<le> 65536" "k' * n \<le> 65536"
  shows "nth_block s j n k \<le> nth_block s j n k' \<longleftrightarrow> k * n \<le> k' * n"
proof -
  have u: "unat (nth_block s j n i) = 2 ^ 27 + s * 2 ^ 26 + j * 2 ^ 16 + i * n" if "i * n \<le> 65536" for i
    unfolding nth_block_nat by (rule unat_of_nat_64 [OF place_bound [OF assms(1,2) that]])
  show ?thesis unfolding word_le_nat_alt u [OF assms(3)] u [OF assms(4)] by simp
qed

lemma memset_block:
  assumes s: "s < MAX_SEGMENT_NUM" and j: "j < PAGES_PER_SEGMENT" and k: "k * 192 + 192 \<le> 65536" "k' * 192 + 192 \<le> 65536"
    and d: "d < 192" "k' \<noteq> k"
  shows "h_cell (memset_cells 24 (nth_block s j 192 k) h) (nth_block s j 192 k' + of_nat d) = h_cell h (nth_block s j 192 k' + of_nat d)"
proof -
  have "nth_block s j 192 k' + of_nat d \<noteq> nth_block s j 192 k + 8 * of_nat i" if "i < 24" for i
  proof
    assume "nth_block s j 192 k' + of_nat d = nth_block s j 192 k + 8 * of_nat i"
    then have "nth_block s j 192 k' + of_nat d = nth_block s j 192 k + of_nat (8 * i)" by simp
    from place_unique(1) [OF s j _ _ k(2,1) this] that d show False by simp
  qed
  then show ?thesis unfolding memset_cells_simps zero_cells_apply by (intro if_not_P) blast
qed

lemma scan_blocks_result:
  assumes s: "s < MAX_SEGMENT_NUM" and j: "j < PAGES_PER_SEGMENT" and p: "p = meta_at (seg_at s) j"
    and n: "bsize h p = n" "16 \<le> n" "n \<le> 65536" "pg_is_msg_queue_page (h_page h p) \<longrightarrow> n = 192"
    and K: "k \<le> page_cap h p" "page_cap h p \<le> k + f"
  shows "\<exists>h'. scan_blocks f p (nth_block s j n k) (nth_block s j n (page_cap h p - 1)) h
        = Inr (\<exists>i \<in> {k..<page_cap h p}. looks_used h p (nth_block s j n i), h')
     \<and> scan_frame s {j} h h' \<and> h_page h' = h_page h"
  using n(1,4) K
proof (induction f arbitrary: k h)
  case 0
  let ?K = "page_cap h p"
  have "?K = k" using 0 by simp
  moreover have "?K * n \<le> 65536" "0 < ?K" using 0(1) n(2,3) by (simp_all add: page_cap_def div_greater_zero_iff)
  ultimately have "\<not> nth_block s j n k \<le> nth_block s j n (?K - 1)"
    using place_le [OF s j, of k n "?K - 1"] n(2) by (cases k) auto
  then show ?case using \<open>?K = k\<close> by (subst scan_blocks.simps) (simp add: scan_frame_def)
next
  case (Suc f)
  let ?K = "page_cap h p" and ?b = "nth_block s j n k"
  have K: "?K * n \<le> 65536" "0 < ?K" using Suc(2) n(2,3) by (simp_all add: page_cap_def div_greater_zero_iff)
  have "k * n \<le> 65536" "(?K - 1) * n \<le> 65536" using mult_le_mono1 [of _ ?K n] Suc(4) K(1) by (metis diff_le_self le_trans)+
  then have "?b \<le> nth_block s j n (?K - 1) \<longleftrightarrow> k \<le> ?K - 1" using place_le [OF s j] n(2) by simp
  then have le: "?b \<le> nth_block s j n (?K - 1) \<longleftrightarrow> k < ?K" using K(2) by linarith
  show ?case
  proof (cases "k < ?K")
    case False
    then show ?thesis using le by (subst scan_blocks.simps) (simp add: scan_frame_def)
  next
    case True
    then have range: "{k..<?K} = insert k {Suc k..<?K}" by auto
    have nxt: "?b + ucast (pg_block_size (h_page h p)) = nth_block s j n (Suc k)"
      by (simp add: ucast_block_size Suc(2) nth_block_def algebra_simps)
    have room: "i * n + n \<le> 65536" if "i < ?K" for i using cap_room [OF that] Suc(2) by simp
    show ?thesis
    proof (cases "looks_used h p ?b")
      case used: True
      then have "scan_blocks (Suc f) p ?b (nth_block s j n (?K - 1)) h = Inr (True, h)"
        using le True by (subst scan_blocks.simps) (auto simp: looks_used_def Let_def split: if_splits)
      then show ?thesis using used range by (intro exI [of _ h]) (simp add: scan_frame_def)
    next
      case unused: False
      define h1 where "h1 = (if pg_is_msg_queue_page (h_page h p) then memset_cells 24 ?b h else h)"
      have step: "scan_blocks (Suc f) p ?b (nth_block s j n (?K - 1)) h = scan_blocks f p (nth_block s j n (Suc k)) (nth_block s j n (?K - 1)) h1"
        using le True unused nxt by (subst scan_blocks.simps) (simp add: looks_used_def Let_def h1_def split: if_splits)
      have h1: "h_page h1 = h_page h" "h_sas h1 = h_sas h" "h_seg h1 = h_seg h" "h_tls h1 = h_tls h" "h_era h1 = h_era h"
        by (simp_all add: h1_def)
      then have sz: "bsize h1 p = n" "page_cap h1 p = ?K" using Suc(2) by (simp_all add: bsize_def page_cap_def)
      have cell: "h_cell h1 (nth_block s j n i + of_nat d) = h_cell h (nth_block s j n i + of_nat d)" if "i < ?K" "i \<noteq> k" "d < n" for i d
        using memset_block [OF s j, of k i d h] room [OF that(1)] room [OF True] that(2,3) Suc(3) by (auto simp: h1_def)
      have lu: "looks_used h1 p (nth_block s j n i) \<longleftrightarrow> looks_used h p (nth_block s j n i)" if "i < ?K" "i \<noteq> k" for i
      proof (cases "pg_is_msg_queue_page (h_page h p)")
        case True
        then show ?thesis using cell [OF that, of 16] Suc(3) h1(1) by (simp add: looks_used_def overlay_defs)
      next
        case False
        then show ?thesis using h1(1) by (simp add: looks_used_def h1_def)
      qed
      obtain h' where IH: "scan_blocks f p (nth_block s j n (Suc k)) (nth_block s j n (?K - 1)) h1
            = Inr (\<exists>i \<in> {Suc k..<?K}. looks_used h1 p (nth_block s j n i), h')"
          "scan_frame s {j} h1 h'" "h_page h' = h_page h1"
        using Suc.IH [of h1 "Suc k"] sz Suc(3,5) True h1(1) by auto
      have "(\<exists>i \<in> {k..<?K}. looks_used h p (nth_block s j n i)) \<longleftrightarrow> (\<exists>i \<in> {Suc k..<?K}. looks_used h1 p (nth_block s j n i))"
        using unused lu unfolding range by auto
      moreover have "scan_frame s {j} h h'"
        unfolding scan_frame_def
      proof (intro conjI allI)
        fix a
        have "h_cell h' a = h_cell h1 a \<or> (\<exists>i d. i < ?K \<and> d < n \<and> a = nth_block s j n i + of_nat d \<and> \<not> looks_used h1 p (nth_block s j n i))"
          using IH(2) unfolding scan_frame_def p [symmetric] Let_def sz bex_simps by blast
        moreover have "h_cell h1 a = h_cell h a \<or> (\<exists>d. d < n \<and> a = ?b + of_nat d)"
        proof (cases "pg_is_msg_queue_page (h_page h p) \<and> (\<exists>i < 24. a = ?b + 8 * of_nat i)")
          case True
          then obtain i where "i < 24" "a = ?b + of_nat (8 * i)" "n = 192" using Suc(3) by auto
          then show ?thesis by (intro disjI2 exI [of _ "8 * i"]) simp
        next
          case False
          then show ?thesis by (auto simp: h1_def zero_cells_apply)
        qed
        ultimately show "h_cell h' a = h_cell h a \<or> (\<exists>j \<in> {j}. \<exists>k d. let p = meta_at (seg_at s) j in
          k < page_cap h p \<and> d < bsize h p \<and> a = nth_block s j (bsize h p) k + of_nat d \<and> \<not> looks_used h p (nth_block s j (bsize h p) k))"
          unfolding p [symmetric] Let_def Suc(2) bex_simps using True unused lu by metis
      qed (use IH(2) h1 in \<open>simp_all add: scan_frame_def\<close>)
      ultimately show ?thesis using IH(1,3) h1(1) step by (intro exI [of _ h']) simp
    qed
  qed
qed


section \<open>The pages of a segment\<close>

lemma page_range_meta:
  assumes s: "s < MAX_SEGMENT_NUM" and j: "j < PAGES_PER_SEGMENT" and p: "p = meta_at (seg_at s) j"
    and n: "bsize h p \<noteq> 0" "bsize h p \<le> 65536"
  shows "page_range p h = Inr (nth_block s j (bsize h p) 0, nth_block s j (bsize h p) (page_cap h p - 1))"
proof -
  have "PAGE_SIZE div of_nat (bsize h p) = of_nat (page_cap h p)"
    using of_nat_div_64 [of 65536 "bsize h p"] n(2) by (simp add: page_cap_def layout)
  moreover have "0 < page_cap h p" using n by (simp add: page_cap_def div_greater_zero_iff)
  moreover have "of_nat (bsize h p) \<noteq> (0 :: u64)" using n of_nat_eq_64 [of "bsize h p" 0] by simp
  ultimately show ?thesis
    unfolding page_range_def ucast_block_size Let_def
    by (simp add: p cxl_ptr_segment_meta [OF s j] cxl_page_start_meta [OF j] cxl_page_block_at_def nth_block_def of_nat_diff)
qed

lemma block_page:
  assumes "s < MAX_SEGMENT_NUM" "j < PAGES_PER_SEGMENT" "k * n + n \<le> 65536" "d < n"
  shows "cxl_ptr_page (nth_block s j n k + of_nat d) = meta_at (seg_at s) j"
proof -
  have "nth_block s j n k + of_nat d = page_area (seg_at s) j + of_nat (k * n + d)" by (simp add: nth_block_def)
  moreover have "k * n + d < 2 ^ 16" using assms(3,4) by simp
  ultimately show ?thesis using cxl_ptr_page_in [OF assms(1,2)] by metis
qed

lemma scan_frame_page:
  assumes s: "s < MAX_SEGMENT_NUM" and J: "J \<subseteq> {..<PAGES_PER_SEGMENT}" and f: "scan_frame s J h h'"
    and a: "\<And>j. j \<in> J \<Longrightarrow> cxl_ptr_page a \<noteq> meta_at (seg_at s) j"
  shows "h_cell h' a = h_cell h a"
proof (rule ccontr)
  assume "h_cell h' a \<noteq> h_cell h a"
  then obtain j k d where j: "j \<in> J" "k < page_cap h (meta_at (seg_at s) j)" "d < bsize h (meta_at (seg_at s) j)"
    "a = nth_block s j (bsize h (meta_at (seg_at s) j)) k + of_nat d"
    using f unfolding scan_frame_def Let_def by blast
  have "cxl_ptr_page a = meta_at (seg_at s) j" unfolding j(4) using block_page [OF s _ cap_room [OF j(2)] j(3)] j(1) J by blast
  then show False using a [OF j(1)] by simp
qed

lemma page_used_cong:
  assumes s: "s < MAX_SEGMENT_NUM" "j < PAGES_PER_SEGMENT" and h: "h_page h' (meta_at (seg_at s) j) = h_page h (meta_at (seg_at s) j)"
    and c: "\<And>a. cxl_ptr_page a = meta_at (seg_at s) j \<Longrightarrow> h_cell h' a = h_cell h a" and n: "page_sound h (meta_at (seg_at s) j)"
  shows "page_used h' s j \<longleftrightarrow> page_used h s j"
    and "k < page_cap h (meta_at (seg_at s) j) \<Longrightarrow> looks_used h' (meta_at (seg_at s) j) (nth_block s j (bsize h (meta_at (seg_at s) j)) k)
           \<longleftrightarrow> looks_used h (meta_at (seg_at s) j) (nth_block s j (bsize h (meta_at (seg_at s) j)) k)"
proof -
  let ?p = "meta_at (seg_at s) j" and ?n = "bsize h (meta_at (seg_at s) j)"
  have sz: "bsize h' ?p = ?n" "page_cap h' ?p = page_cap h ?p" using h by (simp_all add: bsize_def page_cap_def)
  have lu: "looks_used h' ?p (nth_block s j ?n k) \<longleftrightarrow> looks_used h ?p (nth_block s j ?n k)" if k: "k < page_cap h ?p" for k
  proof -
    have same: "h_cell h' (nth_block s j ?n k + of_nat d) = h_cell h (nth_block s j ?n k + of_nat d)" if "d < ?n" for d
      by (rule c [OF block_page [OF s cap_room [OF k] that]])
    have "?n \<noteq> 0" using k by (metis div_by_0 not_less_zero page_cap_def)
    then have "16 \<le> ?n" "pg_is_msg_queue_page (h_page h ?p) \<longrightarrow> ?n = 192" using n by (auto simp: page_sound_def)
    then show ?thesis using same [of 8] same [of 16] h by (auto simp: looks_used_def overlay_defs)
  qed
  show "k < page_cap h ?p \<Longrightarrow> looks_used h' ?p (nth_block s j ?n k) \<longleftrightarrow> looks_used h ?p (nth_block s j ?n k)" by (rule lu)
  show "page_used h' s j \<longleftrightarrow> page_used h s j" unfolding page_used_def Let_def sz using lu by blast
qed

lemma scan_pages_result:
  assumes s: "s < MAX_SEGMENT_NUM" and fuel: "4096 \<le> fuel"
    and js: "set js \<subseteq> {..<PAGES_PER_SEGMENT}" "distinct js" "\<And>j. j \<in> set js \<Longrightarrow> page_sound h (meta_at (seg_at s) j)"
  shows "\<exists>h'. scan_pages fuel (seg_at s) js h = Inr (\<exists>j \<in> set js. page_used h s j, h') \<and> scan_frame s (set js) h h'
    \<and> (\<forall>p. h_page h' p = h_page h p \<or> (h_page h' p = zero_page \<and> (\<exists>j \<in> set js. p = meta_at (seg_at s) j \<and> \<not> page_used h s j)))"
  using js
proof (induction js arbitrary: h)
  case Nil
  then show ?case by (simp add: scan_frame_def)
next
  case (Cons j js)
  let ?p = "meta_at (seg_at s) j"
  have j: "j < PAGES_PER_SEGMENT" "j \<notin> set js" using Cons(2,3) by auto
  show ?case
  proof (cases "bsize h ?p = 0")
    case True
    then have "\<not> page_used h s j" by (simp add: page_used_def)
    moreover have "scan_pages fuel (seg_at s) (j # js) h = scan_pages fuel (seg_at s) js h"
      using True by (simp add: bsize_def unat_eq_0)
    moreover have "scan_frame s (set js) h h' \<Longrightarrow> scan_frame s (set (j # js)) h h'" for h' by (auto simp: scan_frame_def)
    ultimately show ?thesis using Cons.IH [of h] Cons.prems by simp blast
  next
    case False
    define n where "n = bsize h ?p"
    have n: "bsize h ?p = n" "16 \<le> n" "n \<le> 65536" "pg_is_msg_queue_page (h_page h ?p) \<longrightarrow> n = 192"
      using Cons(4) [of j] False by (auto simp: n_def page_sound_def)
    have "page_cap h ?p \<le> 4096" using div_le_mono2 [of 16 n 65536] n by (simp add: page_cap_def)
    then have "page_cap h ?p \<le> 0 + fuel" using fuel by simp
    have pu: "(\<exists>i \<in> {0..<page_cap h ?p}. looks_used h ?p (nth_block s j n i)) \<longleftrightarrow> page_used h s j"
      using False unfolding page_used_def Let_def n(1) by auto
    from scan_blocks_result [OF s j(1) refl n le0 \<open>page_cap h ?p \<le> 0 + fuel\<close>] obtain h1 where
      b: "scan_blocks fuel ?p (nth_block s j n 0) (nth_block s j n (page_cap h ?p - 1)) h = Inr (page_used h s j, h1)"
        "scan_frame s {j} h h1" "h_page h1 = h_page h"
      unfolding pu by blast
    have r: "page_range ?p h = Inr (nth_block s j n 0, nth_block s j n (page_cap h ?p - 1))"
      using page_range_meta [OF s j(1) refl] False n by simp
    have z: "pg_block_size (h_page h ?p) \<noteq> 0" using False by (simp add: bsize_def unat_eq_0)
    show ?thesis
    proof (cases "page_used h s j")
      case used: True
      then have "scan_pages fuel (seg_at s) (j # js) h = Inr (True, h1)" using z r b(1) by simp
      moreover have "scan_frame s (set (j # js)) h h1" using b(2) by (auto simp: scan_frame_def)
      ultimately show ?thesis using used b(3) by (intro exI [of _ h1]) simp
    next
      case unused: False
      define h2 where "h2 = upd_page ?p (\<lambda>_. zero_page) h1"
      have step: "scan_pages fuel (seg_at s) (j # js) h = scan_pages fuel (seg_at s) js h2" using z r b(1) unused by (simp add: h2_def)
      have h2: "h_page h2 (meta_at (seg_at s) i) = h_page h (meta_at (seg_at s) i)"
          "\<And>a. cxl_ptr_page a = meta_at (seg_at s) i \<Longrightarrow> h_cell h2 a = h_cell h a" if "i \<in> set js" for i
      proof -
        have "meta_at (seg_at s) i \<noteq> ?p" using meta_at_inj [OF s _ s j(1), of i] that j(2) Cons(2) by auto
        then show "h_page h2 (meta_at (seg_at s) i) = h_page h (meta_at (seg_at s) i)"
          "\<And>a. cxl_ptr_page a = meta_at (seg_at s) i \<Longrightarrow> h_cell h2 a = h_cell h a"
          using b(3) scan_frame_page [OF s _ b(2)] j(1) by (auto simp: h2_def)
      qed
      have i: "i < PAGES_PER_SEGMENT" "page_sound h (meta_at (seg_at s) i)" if "i \<in> set js" for i using Cons(2,4) that by auto
      have same: "page_used h2 s i \<longleftrightarrow> page_used h s i" if "i \<in> set js" for i
        by (rule page_used_cong [OF s i(1) [OF that] h2 [OF that] i(2) [OF that]])
      have "page_sound h2 (meta_at (seg_at s) i)" if "i \<in> set js" for i
        using i(2) [OF that] h2(1) [OF that] by (simp add: page_sound_def bsize_def)
      then obtain h' where IH: "scan_pages fuel (seg_at s) js h2 = Inr (\<exists>j \<in> set js. page_used h2 s j, h')" "scan_frame s (set js) h2 h'"
        "\<forall>p. h_page h' p = h_page h2 p \<or> (h_page h' p = zero_page \<and> (\<exists>j \<in> set js. p = meta_at (seg_at s) j \<and> \<not> page_used h2 s j))"
        using Cons.IH [of h2] Cons.prems by auto
      have "scan_frame s (set (j # js)) h h'"
        unfolding scan_frame_def Let_def
      proof (intro conjI allI)
        fix a
        have "h_cell h' a = h_cell h2 a \<or> (\<exists>i \<in> set js. \<exists>k d. k < page_cap h (meta_at (seg_at s) i) \<and> d < bsize h (meta_at (seg_at s) i)
            \<and> a = nth_block s i (bsize h (meta_at (seg_at s) i)) k + of_nat d
            \<and> \<not> looks_used h (meta_at (seg_at s) i) (nth_block s i (bsize h (meta_at (seg_at s) i)) k))"
        proof (cases "h_cell h' a = h_cell h2 a")
          case False
          then obtain i k d where a: "i \<in> set js" "k < page_cap h2 (meta_at (seg_at s) i)" "d < bsize h2 (meta_at (seg_at s) i)"
            "a = nth_block s i (bsize h2 (meta_at (seg_at s) i)) k + of_nat d"
            "\<not> looks_used h2 (meta_at (seg_at s) i) (nth_block s i (bsize h2 (meta_at (seg_at s) i)) k)"
            using IH(2) unfolding scan_frame_def Let_def by blast
          have sz: "bsize h2 (meta_at (seg_at s) i) = bsize h (meta_at (seg_at s) i)" "page_cap h2 (meta_at (seg_at s) i) = page_cap h (meta_at (seg_at s) i)"
            using h2(1) [OF a(1)] by (simp_all add: bsize_def page_cap_def)
          from page_used_cong(2) [OF s i(1) [OF a(1)] h2 [OF a(1)] i(2) [OF a(1)]] a show ?thesis unfolding sz by blast
        qed simp
        moreover have "h_cell h2 a = h_cell h1 a" by (simp add: h2_def)
        ultimately show "h_cell h' a = h_cell h a \<or> (\<exists>i \<in> set (j # js). \<exists>k d. k < page_cap h (meta_at (seg_at s) i) \<and> d < bsize h (meta_at (seg_at s) i)
            \<and> a = nth_block s i (bsize h (meta_at (seg_at s) i)) k + of_nat d
            \<and> \<not> looks_used h (meta_at (seg_at s) i) (nth_block s i (bsize h (meta_at (seg_at s) i)) k))"
          using b(2) unfolding scan_frame_def Let_def by (metis list.set_intros singletonD)
      qed (use IH(2) b(2) in \<open>simp_all add: scan_frame_def h2_def\<close>)
      moreover have "h_page h' p = h_page h p \<or> (h_page h' p = zero_page \<and> (\<exists>i \<in> set (j # js). p = meta_at (seg_at s) i \<and> \<not> page_used h s i))" for p
        using IH(3) [rule_format, of p] unused same b(3) by (auto simp: h2_def split: if_splits)
      ultimately show ?thesis unfolding step IH(1) using unused same by auto
    qed
  qed
qed

section \<open>A segment\<close>

lemma segment_used_iff:
  assumes s: "s < MAX_SEGMENT_NUM" and n: "\<And>j. j < PAGES_PER_SEGMENT \<Longrightarrow> page_sound h (meta_at (seg_at s) j)"
  shows "(\<exists>j < PAGES_PER_SEGMENT. page_used h s j) \<longleftrightarrow> (\<exists>p b. block_in h p b \<and> cxl_ptr_segment b = seg_at s \<and> looks_used h p b)"
proof
  assume "\<exists>j < PAGES_PER_SEGMENT. page_used h s j"
  then obtain j k where j: "j < PAGES_PER_SEGMENT" "bsize h (meta_at (seg_at s) j) \<noteq> 0" "k < page_cap h (meta_at (seg_at s) j)"
    "looks_used h (meta_at (seg_at s) j) (nth_block s j (bsize h (meta_at (seg_at s) j)) k)" by (auto simp: page_used_def Let_def)
  then have "block_in h (meta_at (seg_at s) j) (nth_block s j (bsize h (meta_at (seg_at s) j)) k)"
    using s n [OF j(1)] unfolding block_in_def nth_block_def page_sound_def
    by (intro exI [of _ s] exI [of _ j] exI [of _ k]) auto
  moreover have "cxl_ptr_segment (nth_block s j (bsize h (meta_at (seg_at s) j)) k) = seg_at s"
    using cxl_ptr_segment_page [OF s j(1), of "k * bsize h (meta_at (seg_at s) j)"] cap_room [OF j(3)] j(2) by (simp add: nth_block_def)
  ultimately show "\<exists>p b. block_in h p b \<and> cxl_ptr_segment b = seg_at s \<and> looks_used h p b" using j(4) by blast
next
  assume "\<exists>p b. block_in h p b \<and> cxl_ptr_segment b = seg_at s \<and> looks_used h p b"
  then obtain p b where b: "block_in h p b" "cxl_ptr_segment b = seg_at s" "looks_used h p b" by blast
  from b(1) obtain s' j k where k: "s' < MAX_SEGMENT_NUM" "j < PAGES_PER_SEGMENT" "p = meta_at (seg_at s') j"
    "b = page_area (seg_at s') j + of_nat (k * bsize h p)" "k * bsize h p + bsize h p \<le> 65536" "k < page_cap h p" "8 \<le> bsize h p" by (rule block_inE)
  have "cxl_ptr_segment b = seg_at s'" unfolding k(4) using cxl_ptr_segment_page [OF k(1,2), of "k * bsize h p"] k(5,7) by simp
  then have "s' = s" using b(2) seg_at_inj [OF k(1) s] by simp
  then show "\<exists>j < PAGES_PER_SEGMENT. page_used h s j"
    using k b(3) unfolding page_used_def Let_def nth_block_def by (intro exI [of _ j]) auto
qed

lemma used_block_kept:
  assumes s: "s < MAX_SEGMENT_NUM" and J: "J \<subseteq> {..<PAGES_PER_SEGMENT}" and f: "scan_frame s J h h'"
    and b: "block_in h p b" "looks_used h p b" "d < bsize h p"
  shows "h_cell h' (b + of_nat d) = h_cell h (b + of_nat d)"
proof (rule ccontr)
  assume "\<not> ?thesis"
  then obtain j k e where j: "j \<in> J" "k < page_cap h (meta_at (seg_at s) j)" "e < bsize h (meta_at (seg_at s) j)"
    "b + of_nat d = nth_block s j (bsize h (meta_at (seg_at s) j)) k + of_nat e"
    "\<not> looks_used h (meta_at (seg_at s) j) (nth_block s j (bsize h (meta_at (seg_at s) j)) k)"
    using f unfolding scan_frame_def Let_def by blast
  from b(1) obtain s' j' k' where k: "s' < MAX_SEGMENT_NUM" "j' < PAGES_PER_SEGMENT" "p = meta_at (seg_at s') j'"
    "b = page_area (seg_at s') j' + of_nat (k' * bsize h p)" "k' * bsize h p + bsize h p \<le> 65536" by (rule block_inE)
  have jj: "j < PAGES_PER_SEGMENT" using j(1) J by blast
  have "p = meta_at (seg_at s) j"
    using block_in_page [OF b(1,3)] block_page [OF s jj cap_room [OF j(2)] j(3)] unfolding j(4) by simp
  then have e: "s' = s" "j' = j" using meta_at_inj [OF k(1,2) s jj] k(3) by simp_all
  have "nth_block s j (bsize h p) k' + of_nat d = nth_block s j (bsize h p) k + of_nat e"
    using j(4) k(4) e \<open>p = meta_at (seg_at s) j\<close> by (simp add: nth_block_def)
  from place_unique(1) [OF s jj b(3) _ k(5) _ this] j(2,3) cap_room [OF j(2)] have "k = k'" by (simp add: \<open>p = meta_at (seg_at s) j\<close>)
  then have "b = nth_block s j (bsize h p) k" using k(4) e by (simp add: nth_block_def)
  then show False using j(5) b(2) \<open>p = meta_at (seg_at s) j\<close> by simp
qed

lemma sweep_result:
  assumes s: "s < MAX_SEGMENT_NUM" and owner: "sas_thread_id (h_sas h (sas_at s)) \<noteq> 0" and fuel: "4096 \<le> fuel"
    and n: "\<And>j. j < PAGES_PER_SEGMENT \<Longrightarrow> page_sound h (meta_at (seg_at s) j)"
  shows "\<exists>h'. scan_segment fuel s h = Inr h'
    \<and> (\<forall>p b. block_in h p b \<and> looks_used h p b \<longrightarrow> h_page h' p = h_page h p \<and> (\<forall>d < bsize h p. h_cell h' (b + of_nat d) = h_cell h (b + of_nat d)))
    \<and> (if \<exists>p b. block_in h p b \<and> cxl_ptr_segment b = seg_at s \<and> looks_used h p b then h_sas h' = h_sas h \<and> h_seg h' = h_seg h
       else h_sas h' = (h_sas h)(sas_at s := (h_sas h (sas_at s))\<lparr>sas_info := \<lparr>sf_state = segment_state_code NORMAL, sf_thread_free = 0\<rparr>, sas_thread_id := 0\<rparr>)
         \<and> (\<forall>j < PAGES_PER_SEGMENT. h_page h' (meta_at (seg_at s) j) = zero_page))"
proof -
  have js: "set [0..<PAGES_PER_SEGMENT] \<subseteq> {..<PAGES_PER_SEGMENT}" "distinct [0..<PAGES_PER_SEGMENT]" by auto
  have n': "page_sound h (meta_at (seg_at s) j)" if "j \<in> set [0..<PAGES_PER_SEGMENT]" for j using n that by simp
  obtain h1 where h1: "scan_pages fuel (seg_at s) [0..<PAGES_PER_SEGMENT] h = Inr (\<exists>j \<in> set [0..<PAGES_PER_SEGMENT]. page_used h s j, h1)"
      "scan_frame s (set [0..<PAGES_PER_SEGMENT]) h h1"
      "\<forall>p. h_page h1 p = h_page h p \<or> (h_page h1 p = zero_page \<and> (\<exists>j \<in> set [0..<PAGES_PER_SEGMENT]. p = meta_at (seg_at s) j \<and> \<not> page_used h s j))"
    using scan_pages_result [OF s fuel js n'] by blast
  have used: "(\<exists>j \<in> set [0..<PAGES_PER_SEGMENT]. page_used h s j) \<longleftrightarrow> (\<exists>p b. block_in h p b \<and> cxl_ptr_segment b = seg_at s \<and> looks_used h p b)"
    using segment_used_iff [OF s n] by auto
  have same: "h_sas h1 = h_sas h" "h_seg h1 = h_seg h" using h1(2) by (simp_all add: scan_frame_def)
  have cells: "h_cell h1 (b + of_nat d) = h_cell h (b + of_nat d)" if "block_in h p b" "looks_used h p b" "d < bsize h p" for p b d
    by (rule used_block_kept [OF s js(1) h1(2) that])
  have page: "page_used h s' j" if "block_in h p b" "looks_used h p b" "p = meta_at (seg_at s') j" "s' < MAX_SEGMENT_NUM" "j < PAGES_PER_SEGMENT" for p b s' j
  proof -
    from that(1) obtain s2 j2 k where k: "s2 < MAX_SEGMENT_NUM" "j2 < PAGES_PER_SEGMENT" "p = meta_at (seg_at s2) j2"
      "b = page_area (seg_at s2) j2 + of_nat (k * bsize h p)" "k < page_cap h p" "8 \<le> bsize h p" by (rule block_inE)
    have "s2 = s'" "j2 = j" using meta_at_inj [OF k(1,2) that(4,5)] k(3) that(3) by auto
    then show ?thesis using k that(2,3) by (auto simp: page_used_def Let_def nth_block_def)
  qed
  have pages: "h_page h1 p = h_page h p" if "block_in h p b" "looks_used h p b" for p b
    using h1(3) [rule_format, of p] page [OF that _ s] by auto
  show ?thesis
  proof (cases "\<exists>j \<in> set [0..<PAGES_PER_SEGMENT]. page_used h s j")
    case True
    then have "scan_segment fuel s h = Inr h1" using owner h1(1) by (simp add: scan_segment_def)
    moreover have "\<forall>p b. block_in h p b \<and> looks_used h p b \<longrightarrow> h_page h1 p = h_page h p \<and> (\<forall>d < bsize h p. h_cell h1 (b + of_nat d) = h_cell h (b + of_nat d))"
      using cells pages by blast
    ultimately show ?thesis using True used same by (intro exI [of _ h1]) simp
  next
    case False
    define h2 where "h2 = upd_sas (sas_at s) (\<lambda>s. s\<lparr>sas_thread_id := 0\<rparr>) (upd_sas (sas_at s) (\<lambda>s. s\<lparr>sas_info :=
       \<lparr>sf_state = segment_state_code NORMAL, sf_thread_free = 0\<rparr>\<rparr>) (memset_segment (seg_at s) h1))"
    have "scan_segment fuel s h = Inr h2" using owner h1(1) False by (simp add: scan_segment_def h2_def Let_def)
    moreover have c: "h_cell h2 = h_cell h1" by (simp add: h2_def memset_segment_def)
    have pg: "h_page h2 p = h_page h p" if "block_in h p b" "looks_used h p b" for p b
    proof -
      from that(1) obtain s2 j2 where k: "s2 < MAX_SEGMENT_NUM" "j2 < PAGES_PER_SEGMENT" "p = meta_at (seg_at s2) j2" by (rule block_inE)
      have ne: "p \<noteq> meta_at (seg_at s) j" if "j < PAGES_PER_SEGMENT" for j
        using page [OF \<open>block_in h p b\<close> \<open>looks_used h p b\<close> _ s that] False that by auto
      have "h_page h2 p = h_page h1 p" by (auto simp: h2_def memset_segment_def dest: ne)
      then show ?thesis using pages [OF that] by simp
    qed
    moreover have "\<forall>p b. block_in h p b \<and> looks_used h p b \<longrightarrow> h_page h2 p = h_page h p \<and> (\<forall>d < bsize h p. h_cell h2 (b + of_nat d) = h_cell h (b + of_nat d))"
      using cells pg c by metis
    moreover have "h_page h2 (meta_at (seg_at s) j) = zero_page" if "j < PAGES_PER_SEGMENT" for j
      using that by (auto simp: h2_def memset_segment_def)
    moreover have "h_sas h2 = (h_sas h)(sas_at s := (h_sas h (sas_at s))\<lparr>sas_info := \<lparr>sf_state = segment_state_code NORMAL, sf_thread_free = 0\<rparr>, sas_thread_id := 0\<rparr>)"
      by (simp add: h2_def memset_segment_def same)
    moreover have unused: "\<not> (\<exists>p b. block_in h p b \<and> cxl_ptr_segment b = seg_at s \<and> looks_used h p b)" using False used by blast
    ultimately show ?thesis unfolding if_not_P [OF unused] by blast
  qed
qed

section \<open>In the system of all clients\<close>

lemma client_pages_sound:
  assumes inv: "client_inv sh h V P" and s: "owned sh h s" and j: "j < PAGES_PER_SEGMENT"
  shows "page_sound h (meta_at (seg_at s) j)"
proof (cases "j = 0")
  case True
  then show ?thesis using inv s by (simp add: client_inv_def pool_inv_def segments_ok_def owned_def page_sound_def)
next
  case False
  then have "meta_at (seg_at s) j \<in> pool_pages P"
    using inv s j by (auto simp: client_inv_def pool_inv_def pool_segments_def set_segment_pages)
  moreover have z: "pool_sizes h P" using inv by (simp add: client_inv_def pool_inv_def)
  ultimately consider "meta_at (seg_at s) j \<in> set (po_free P)" | i where "i < CXL_BIN_SIZE" "meta_at (seg_at s) j \<in> set (po_bin P i)"
    by (auto simp: pool_pages_def)
  then show ?thesis
  proof cases
    case 1
    then show ?thesis using z by (simp add: pool_sizes_def page_sound_def)
  next
    case 2
    then have "bsize h (meta_at (seg_at s) j) = bin_bytes i" "pg_is_msg_queue_page (h_page h (meta_at (seg_at s) j)) = (i = 1)"
      using z by (simp_all add: pool_sizes_def)
    then show ?thesis using bin_bytes_bounds [OF 2(1)] by (simp add: page_sound_def bin_bytes_def)
  qed
qed

lemma object_looks_used:
  assumes "graph h V R O'" "ob \<in> O'"
  shows "block_in h (cxl_ptr_page ob) ob" "looks_used h (cxl_ptr_page ob) ob"
proof -
  show "block_in h (cxl_ptr_page ob) ob" using graphD(1) [OF assms] by (simp add: live_def)
  have "0 < obj_cnt h ob" using graphD(5,6) [OF assms] by (simp add: card_gt_0_iff)
  then have "get_ref_cnt_from_info (obj_ref_info h ob) > 0" by (simp add: obj_cnt_def word_less_nat_alt)
  moreover have "\<not> pg_is_msg_queue_page (h_page h (cxl_ptr_page ob))"
    using graphD(2) [OF assms] by (simp add: object_at_def freeable_def)
  ultimately show "looks_used h (cxl_ptr_page ob) ob" by (simp add: looks_used_def)
qed

text \<open>
  C31. The sweep ends, and it takes a segment from its owner exactly if no block of it looks used:
  no block of an object page has a positive count, no block of a queue page a sender or a receiver.
  A block that does, in whatever segment, keeps its contents and its page header. Nothing else of
  the segment allocation states changes.
\<close>

theorem sweep_takes_unused_segments:
  assumes "s < MAX_SEGMENT_NUM" and "sas_thread_id (h_sas h (sas_at s)) \<noteq> 0" and "4096 \<le> fuel"
    and "\<And>j. j < PAGES_PER_SEGMENT \<Longrightarrow> page_sound h (meta_at (seg_at s) j)"
  shows "\<exists>h'. scan_segment fuel s h = Inr h'
    \<and> (\<forall>p b. block_in h p b \<and> looks_used h p b \<longrightarrow> h_page h' p = h_page h p \<and> (\<forall>d < bsize h p. h_cell h' (b + of_nat d) = h_cell h (b + of_nat d)))
    \<and> (if \<exists>p b. block_in h p b \<and> cxl_ptr_segment b = seg_at s \<and> looks_used h p b then h_sas h' = h_sas h \<and> h_seg h' = h_seg h
       else h_sas h' = (h_sas h)(sas_at s := (h_sas h (sas_at s))\<lparr>sas_info := \<lparr>sf_state = segment_state_code NORMAL, sf_thread_free = 0\<rparr>, sas_thread_id := 0\<rparr>)
         \<and> (\<forall>j < PAGES_PER_SEGMENT. h_page h' (meta_at (seg_at s) j) = zero_page))"
  by (rule sweep_result [OF assms])

text \<open>
  C30. The sweep spares every object that is still referred to, from a handle, from a message on
  its way or from another object: in every reachable state the sweep of a client's segment returns,
  every object in use, in whatever segment, keeps its count, its references, its contents and its
  page, and a segment with such an object keeps its owner.
\<close>

theorem sweep_spares_objects:
  assumes "runs (ref_step N) rs_start as S" and "region_fits (newcomer N)"
    and "sh \<in> set (rs_clients S)" and "owned sh (rs_heap S) s"
  shows "\<exists>h. scan_segment (2 ^ 64) s (rs_heap S) = Inr h
    \<and> (\<forall>ob \<in> rs_objs S. h_page h (cxl_ptr_page ob) = h_page (rs_heap S) (cxl_ptr_page ob)
        \<and> (\<forall>d < bsize (rs_heap S) (cxl_ptr_page ob). h_cell h (ob + of_nat d) = h_cell (rs_heap S) (ob + of_nat d)))
    \<and> ((\<exists>ob \<in> rs_objs S. cxl_ptr_segment ob = seg_at s) \<longrightarrow> sas_thread_id (h_sas h (sas_at s)) = shm_thread_id sh)"
proof -
  note I = reachable_inv [OF assms(1,2)]
  obtain St where St: "opens S sh St" using rs_open [OF I assms(3)] by blast
  note D = opensD [OF St]
  have inv: "client_inv sh (rs_heap S) (st_lists St) (st_pool St)" using D(1,2) by (simp add: store_inv_def)
  obtain V where g: "graph (rs_heap S) V (rs_cells S) (rs_objs S)" using rs_shape [OF I] by blast
  have own: "s < MAX_SEGMENT_NUM" "sas_thread_id (h_sas (rs_heap S) (sas_at s)) \<noteq> 0"
    "sas_thread_id (h_sas (rs_heap S) (sas_at s)) = shm_thread_id sh"
    using assms(4) inv by (auto simp: owned_def client_inv_def pool_inv_def)
  have fuel: "4096 \<le> (2 :: nat) ^ 64" by simp
  note u = object_looks_used [OF g]
  obtain h where h: "scan_segment (2 ^ 64) s (rs_heap S) = Inr h"
    "\<And>p b. block_in (rs_heap S) p b \<and> looks_used (rs_heap S) p b
       \<Longrightarrow> h_page h p = h_page (rs_heap S) p \<and> (\<forall>d < bsize (rs_heap S) p. h_cell h (b + of_nat d) = h_cell (rs_heap S) (b + of_nat d))"
    "if \<exists>p b. block_in (rs_heap S) p b \<and> cxl_ptr_segment b = seg_at s \<and> looks_used (rs_heap S) p b then h_sas h = h_sas (rs_heap S) \<and> h_seg h = h_seg (rs_heap S)
       else h_sas h = (h_sas (rs_heap S))(sas_at s := (h_sas (rs_heap S) (sas_at s))\<lparr>sas_info := \<lparr>sf_state = segment_state_code NORMAL, sf_thread_free = 0\<rparr>, sas_thread_id := 0\<rparr>)
         \<and> (\<forall>j < PAGES_PER_SEGMENT. h_page h (meta_at (seg_at s) j) = zero_page)"
    using sweep_result [OF own(1,2) fuel client_pages_sound [OF inv assms(4)]] by blast
  have "h_sas h = h_sas (rs_heap S)" if "ob \<in> rs_objs S" "cxl_ptr_segment ob = seg_at s" for ob
    using h(3) u [OF that(1)] that(2) by (metis (no_types, lifting))
  then have "(\<exists>ob \<in> rs_objs S. cxl_ptr_segment ob = seg_at s) \<longrightarrow> sas_thread_id (h_sas h (sas_at s)) = shm_thread_id sh" using own(3) by auto
  then show ?thesis using h(1) h(2) [OF conjI [OF u]] by (intro exI [of _ h]) blast
qed

theorem sweep_spares_objects_witness:
  "\<exists>S (sh :: cxl_shm) t ob s h. runs (ref_step (2 ^ 28)) rs_start [Enter, Allocate] S \<and> t \<in> rs_roots S \<and> rr_pptr (rs_heap S) t = ob
    \<and> cxl_ptr_segment ob = seg_at s \<and> scan_segment (2 ^ 64) s (rs_heap S) = Inr h
    \<and> h_cell h (ob + 8) = h_cell (rs_heap S) (ob + 8) \<and> sas_thread_id (h_sas h (sas_at s)) = shm_thread_id sh"
proof -
  obtain sh t ob h V P where run: "runs (ref_step (2 ^ 28)) rs_start [Enter, Allocate] (demo_state sh t h)"
    and m: "client_inv sh h V P" "rr_pptr h t = ob" "cxl_ptr_page ob \<in> pool_pages P" using demo_start by blast
  let ?S = "demo_state sh t h"
  note I = reachable_inv [OF run demo_fits]
  have t: "t \<in> rs_roots ?S" by (simp add: rs_roots_def)
  have ob: "ob \<in> rs_objs ?S" using roots_in_order(1) [OF I t] m(2) by simp
  obtain W where g: "graph (rs_heap ?S) W (rs_cells ?S) (rs_objs ?S)" using rs_shape [OF I] by blast
  have ps: "pool_segments sh h P" using m(1) by (simp add: client_inv_def pool_inv_def)
  obtain s j where s: "owned sh h s" "s < MAX_SEGMENT_NUM" "j < PAGES_PER_SEGMENT" "cxl_ptr_page ob = meta_at (seg_at s) j"
    using pool_page [OF ps m(3)] by metis
  have b: "block_in h (cxl_ptr_page ob) ob" using object_looks_used(1) [OF g ob] by simp
  from b obtain s' j' k where k: "s' < MAX_SEGMENT_NUM" "j' < PAGES_PER_SEGMENT" "cxl_ptr_page ob = meta_at (seg_at s') j'"
    "ob = page_area (seg_at s') j' + of_nat (k * bsize h (cxl_ptr_page ob))" "k * bsize h (cxl_ptr_page ob) + bsize h (cxl_ptr_page ob) \<le> 65536"
    "8 \<le> bsize h (cxl_ptr_page ob)" by (rule block_inE)
  have e: "s' = s" using meta_at_inj [OF k(1,2) s(2,3)] k(3) s(4) by simp
  have "k * bsize h (cxl_ptr_page ob) < 2 ^ 16" using k(5,6) by simp
  then have seg: "cxl_ptr_segment ob = seg_at s" using cxl_ptr_segment_page [OF k(1,2)] k(4) e by metis
  have "8 < bsize h (cxl_ptr_page ob)" using graphD(2) [OF g ob] by (simp add: object_at_def)
  then obtain h' where "scan_segment (2 ^ 64) s h = Inr h'" "h_cell h' (ob + of_nat 8) = h_cell h (ob + of_nat 8)"
      "sas_thread_id (h_sas h' (sas_at s)) = shm_thread_id sh"
    using sweep_spares_objects [OF run demo_fits, of sh s] s(1) ob seg by (simp del: of_nat_numeral) blast
  then have "runs (ref_step (2 ^ 28)) rs_start [Enter, Allocate] ?S \<and> t \<in> rs_roots ?S \<and> rr_pptr (rs_heap ?S) t = ob
    \<and> cxl_ptr_segment ob = seg_at s \<and> scan_segment (2 ^ 64) s (rs_heap ?S) = Inr h'
    \<and> h_cell h' (ob + 8) = h_cell (rs_heap ?S) (ob + 8) \<and> sas_thread_id (h_sas h' (sas_at s)) = shm_thread_id sh"
    using run t m(2) seg by simp
  then show ?thesis by blast
qed

text \<open>A segment with an owner and nothing in it.\<close>

theorem sweep_takes_unused_segments_witness:
  "\<exists>h'. scan_segment 4096 0 (upd_sas (sas_at 0) (\<lambda>s. s\<lparr>sas_thread_id := 1\<rparr>) zero_heap) = Inr h' \<and> sas_thread_id (h_sas h' (sas_at 0)) = 0"
proof -
  let ?h = "upd_sas (sas_at 0) (\<lambda>s. s\<lparr>sas_thread_id := 1\<rparr>) zero_heap"
  have z: "bsize ?h p = 0" for p by (simp add: bsize_def zero_defs)
  then have none: "\<not> (\<exists>p b. block_in ?h p b \<and> cxl_ptr_segment b = seg_at 0 \<and> looks_used ?h p b)" by (auto elim: block_inE)
  have "\<exists>h'. scan_segment 4096 0 ?h = Inr h' \<and> h_sas h' = (h_sas ?h)(sas_at 0 := (h_sas ?h (sas_at 0))\<lparr>sas_info := \<lparr>sf_state = segment_state_code NORMAL, sf_thread_free = 0\<rparr>, sas_thread_id := 0\<rparr>)"
    using sweep_takes_unused_segments [of 0 ?h 4096] z unfolding if_not_P [OF none] by (simp add: layout page_sound_def) blast
  then show ?thesis by auto
qed

end
