(* ===== verification/Departure.thy ===== *)
theory Departure
  imports Ref_Runs Recovery
begin

text \<open>
  What a client leaves behind. The monitor's way of dropping a reference
  (\<open>recovery_test_free\<close>) is a second instance of the cascade of \<open>Object_Free\<close>; on top of either
  one, the two ends of a message queue are given up (\<open>gc_receiver_queue\<close>, \<open>gc_sender_queue\<close>),
  by a client that leaves in order or by the monitor for one that has crashed.
\<close>

section \<open>The monitor's free\<close>

lemma recovery_free_foreign:
  assumes "ucast (seg_thread_id (h_seg h (cxl_ptr_segment b))) \<noteq> shm_thread_id (acting_for offset)"
    and "sf_state (sas_info (h_sas h (sas_of_segment (cxl_ptr_segment b)))) \<noteq> segment_state_code POTENTIAL_LEAKING"
  shows "cxl_free (acting_for offset) special b h = Inr (recovery_cxl_free special b offset h)"
  using assms by (simp add: cxl_free_def recovery_cxl_free_def acting_for_def push_foreign_def Let_def clear_block_def)

lemma recovery_free_own:
  assumes "ucast (seg_thread_id (h_seg h (cxl_ptr_segment b))) = shm_thread_id (acting_for offset)"
  shows "recovery_cxl_free special b offset h = clear_block special b h"
  using assms by (simp add: recovery_cxl_free_def acting_for_def Let_def clear_block_def)

text \<open>
  The block of an object that dies in the client's own segment is cleared and stays out of the
  lists; in another client's segment it goes to the foreign free list.
\<close>

lemma recovery_free_step:
  assumes inv: "client_inv (acting_for offset) h V P" and nl: "no_leak h" and b: "b \<in> live h V"
    and k: "freeable h special (cxl_ptr_page b)"
  shows "\<exists>V' P'. client_inv (acting_for offset) (recovery_cxl_free special b offset h) V' P'
    \<and> live h V - {b} \<subseteq> live (recovery_cxl_free special b offset h) V' \<and> live (recovery_cxl_free special b offset h) V' \<subseteq> live h V
    \<and> (b \<in> live (recovery_cxl_free special b offset h) V'
        \<longrightarrow> h_page (recovery_cxl_free special b offset h) (cxl_ptr_page b) = h_page h (cxl_ptr_page b))
    \<and> keeps (live h V - {b}) h (recovery_cxl_free special b offset h)
    \<and> others_ok (acting_for offset) h (recovery_cxl_free special b offset h)"
proof (cases "ucast (seg_thread_id (h_seg h (cxl_ptr_segment b))) = shm_thread_id (acting_for offset)")
  case True
  show ?thesis unfolding recovery_free_own [OF True]
    using clear_block_client [OF inv b k] by (intro exI [of _ V] exI [of _ P]) simp
next
  case False
  have "sf_state (sas_info (h_sas h (sas_of_segment (cxl_ptr_segment b)))) \<noteq> segment_state_code POTENTIAL_LEAKING"
    using nl by (simp add: no_leak_def)
  then show ?thesis
    using free_step [OF inv b k] recovery_free_foreign [OF False, of special] by auto
qed

lemma recovery_unlink_heap:
  "\<exists>h1 e. recovery_unlink_reference c ob offset h
       = (if get_ref_cnt_from_info (obj_ref_info h ob) - 1 > 0 then h1 else recovery_cxl_free False ob offset h1)
     \<and> log_only (acting_for offset) h h1 \<and> h_cell h1 = (h_cell h)(ob + 8 := pack_ref_info (ucast (shm_thread_id (acting_for offset)))
       (get_ref_cnt_from_info (obj_ref_info h ob) - 1) e, c := 0)"
proof -
  let ?sh = "acting_for offset" and ?w = "obj_ref_info h ob"
  let ?new = "pack_ref_info (ucast (shm_thread_id ?sh)) (get_ref_cnt_from_info ?w - 1) (h_era h (own_era ?sh))"
  let ?h1 = "bump_era ?sh (set_cell c 0 (set_cell (ob + 8) ?new (see_era ?sh ?w h)))"
  have "recovery_unlink_reference c ob offset h = (if get_ref_cnt_from_info ?w - 1 > 0 then ?h1 else recovery_cxl_free False ob offset ?h1)"
    by (simp add: recovery_unlink_reference_def Let_def cnt16)
  moreover have "log_only ?sh h ?h1" by simp
  moreover have "h_cell ?h1 = (h_cell h)(ob + 8 := ?new, c := 0)" by simp
  ultimately show ?thesis by blast
qed

interpretation mon: dropper False "acting_for offset" "\<lambda>c ob h. Inr (recovery_unlink_reference c ob offset h)"
  "\<lambda>ob h. Inr (recovery_cxl_free False ob offset h)" "\<lambda>n c. recovery_test_free n c offset"
  "\<lambda>n ob i. recovery_test_free_embedded n ob i offset" for offset
proof unfold_locales
  fix c ob h
  show "\<exists>h1 e. Inr (recovery_unlink_reference c ob offset h) = (if get_ref_cnt_from_info (obj_ref_info h ob) - 1 > 0 then Inr h1
        else (Inr (recovery_cxl_free False ob offset h1) :: fault + shm_heap))
      \<and> log_only (acting_for offset) h h1 \<and> h_cell h1 = (h_cell h)(ob + 8 := pack_ref_info (ucast (shm_thread_id (acting_for offset)))
        (get_ref_cnt_from_info (obj_ref_info h ob) - 1) e, c := 0)"
    using recovery_unlink_heap [of c ob offset h] by (elim exE conjE) (metis)
next
  fix h V P ob
  assume "client_inv (acting_for offset) h V P" "no_leak h" "ob \<in> live h V" "freeable h False (cxl_ptr_page ob)"
  note F = recovery_free_step [OF this]
  have "h_cell (recovery_cxl_free False ob offset h) x = h_cell h x" if "x \<noteq> ob" "x \<noteq> ob + 8" "x \<noteq> ob + 16" for x
    using that by (auto simp: recovery_cxl_free_def Let_def clear_block_def numeral_3_eq_3 add.assoc)
  then show "\<exists>h' V' P'. (Inr (recovery_cxl_free False ob offset h) :: fault + shm_heap) = Inr h' \<and> client_inv (acting_for offset) h' V' P'
        \<and> live h V - {ob} \<subseteq> live h' V' \<and> live h' V' \<subseteq> live h V
        \<and> (False \<longrightarrow> ob \<notin> live h' V') \<and> (ob \<in> live h' V' \<longrightarrow> h_page h' (cxl_ptr_page ob) = h_page h (cxl_ptr_page ob))
        \<and> keeps (live h V - {ob}) h h' \<and> others_ok (acting_for offset) h h'
        \<and> (\<forall>x. x \<noteq> ob \<and> x \<noteq> ob + 8 \<and> x \<noteq> ob + 16 \<longrightarrow> h_cell h' x = h_cell h x)"
    using F by blast
qed simp_all

section \<open>In the client's name\<close>

lemma acting_in_slot:
  assumes "in_slot i sh" and "i < MAX_THREAD"
  shows "acting_for (shm_tls_offset sh) = sh\<lparr>shm_size := 0\<rparr>"
proof -
  have "shm_thread_id sh = of_nat (i + 1)"
    using assms tls_index(2) [of i] by (simp add: in_slot_def word_unat_eq_iff del: of_nat_add)
  then show ?thesis
    using assms tls_index(1) [of i] by (simp add: acting_for_def tls_id_of_def in_slot_def del: of_nat_add)
qed

lemma client_inv_size: "client_inv sh h V P \<Longrightarrow> client_inv (sh\<lparr>shm_size := 0\<rparr>) h V P"
  by (simp add: client_inv_def pool_inv_def pool_lists_def bin_list_def free_list_def pool_segments_def owned_def region_fits_def)

lemma acting_store:
  assumes "opens S sh St"
  shows "store_inv (acting_for (shm_tls_offset sh)) (rs_cells S) St"
proof -
  from assms obtain Ps i where P: "pools_inv (rs_heap S) (st_lists St) (rs_clients S) Ps" "i < length (rs_clients S)" "rs_clients S ! i = sh"
    by (auto simp: opens_def)
  then have "in_slot i sh" "i < MAX_THREAD" by (auto simp: pools_inv_def slots_taken_def)
  then show ?thesis using opensD(2) [OF assms] client_inv_size unfolding store_inv_def by (simp add: acting_in_slot)
qed

section \<open>Writes as steps\<close>

text \<open>
  A write outside the references and the objects, and a mark on a segment, are steps like the
  loss of a reference, with nothing lost.
\<close>

lemma dropped_write:
  assumes S: "store_inv sh R S" "acyclic_objs S" and l: "log_only sh (st_heap S) h'"
    and X: "\<And>x. x \<in> X \<Longrightarrow> st_place S x" "X \<inter> R = {}" and w: "\<And>x. x \<notin> X \<Longrightarrow> h_cell h' x = h_cell (st_heap S) x"
  shows "store_inv sh R (S\<lparr>st_heap := h'\<rparr>)" "acyclic_objs (S\<lparr>st_heap := h'\<rparr>)" "dropped ex sh R X S (S\<lparr>st_heap := h'\<rparr>)"
proof -
  note g = store_graph [OF S(1)]
  have W: "step_ok sh X S R (S\<lparr>st_heap := h'\<rparr>)" "live h' (st_lists S) = st_live S" using write_ok [OF S l X w] by blast+
  note O = step_okD [OF W(1)]
  show "store_inv sh R (S\<lparr>st_heap := h'\<rparr>)" "acyclic_objs (S\<lparr>st_heap := h'\<rparr>)" by (rule O)+
  have pg: "h_page h' = h_page (st_heap S)" using l by (simp add: log_only_def)
  have sl: "slots h' y = slots (st_heap S) y" if "y \<in> st_objs S" for y
    using graph_write(2) [where X = X, OF g pg] X w that by blast
  have emb: "obj_embedded h' y = obj_embedded (st_heap S) y" if y: "y \<in> st_objs S" for y
  proof -
    have b: "block_in (st_heap S) (cxl_ptr_page y) y" "24 \<le> bsize (st_heap S) (cxl_ptr_page y)"
      using graphD(1,2) [OF g y] by (simp_all add: live_def object_at_def freeable_def)
    have "\<not> st_place S (y + of_nat 16)"
      using block_high [OF b(1), of 16] blocks_apart [OF live_block b(1), of _ _ _ 16] b(2) y unfolding root_place_def by fastforce
    then show ?thesis using w X(1) by (auto simp: obj_embedded_def)
  qed
  show "dropped ex sh R X S (S\<lparr>st_heap := h'\<rparr>)"
    unfolding dropped_def
  proof (intro conjI ballI allI impI)
    show "h_cell (st_heap (S\<lparr>st_heap := h'\<rparr>)) x = 0" if "x \<in> X" "x \<in> st_cells R (S\<lparr>st_heap := h'\<rparr>)" for x
      using that X slot_cells_apart(1) [OF g] sl by (auto simp: ref_cells_def)
  qed (use W(2) emb w O(3) pg in \<open>auto simp: bsize_def\<close>)
qed

lemma dropped_mark:
  fixes seg :: u64
  assumes S: "store_inv sh R S" "acyclic_objs S"
  defines "S' \<equiv> S\<lparr>st_heap := set_state ABANDON seg (st_heap S)\<rparr>"
  shows "store_inv sh R S'" "acyclic_objs S'" "dropped ex sh R {} S S'"
proof -
  let ?h = "st_heap S" and ?h' = "set_state ABANDON seg (st_heap S)"
  have eq: "h_page ?h' = h_page ?h" "h_cell ?h' = h_cell ?h" "h_seg ?h' = h_seg ?h" "h_tls ?h' = h_tls ?h"
    "sas_thread_id (h_sas ?h' a) = sas_thread_id (h_sas ?h a)" "sf_thread_free (sas_info (h_sas ?h' a)) = sf_thread_free (sas_info (h_sas ?h a))" for a
    by (simp_all add: set_state_def)
  have bs: "bsize ?h' = bsize ?h" by (simp add: fun_eq_iff bsize_def eq)
  have live: "live ?h' V = live ?h V" for V by (simp add: live_def block_in_def page_cap_def bs)
  have inv: "client_inv sh ?h (st_lists S) (st_pool S)" and g: "graph ?h (st_lists S) R (st_objs S)" and nl: "no_leak ?h"
    using S(1) by (simp_all add: store_inv_def)
  have ss: "same_shape ?h ?h'" by (rule same_shape_page) (rule eq)
  have A: "alloc_inv ?h (st_lists S)" and pi: "pool_inv sh ?h (st_pool S)" using inv by (simp_all add: client_inv_def)
  have "alloc_inv ?h' (st_lists S)" by (rule alloc_inv_zero_pages(1) [where X = "{}", OF A]) (simp_all add: eq)
  moreover have "pool_inv sh ?h' (st_pool S)" by (rule pool_inv_cong [OF pi ss]) (simp_all add: eq)
  moreover have "graph ?h' (st_lists S) R (st_objs S)"
    using g unfolding graph_def root_place_def holders_def ref_cells_def slots_def obj_cnt_def obj_ref_info_def obj_embedded_def object_at_def freeable_def live
    by (simp add: eq bs)
  moreover have "no_leak ?h'" using nl by (auto simp: no_leak_def set_state_def)
  ultimately show "store_inv sh R S'" by (simp add: store_inv_def client_inv_def S'_def)
  show "acyclic_objs S'" using S(2) by (simp add: acyclic_objs_def ranked_def slots_def obj_embedded_def S'_def eq)
  have "others_ok sh ?h ?h'"
    unfolding others_ok_def
  proof (intro conjI allI impI)
    show "pool_inv sh2 ?h' P2" if "shm_tls_offset sh2 \<noteq> shm_tls_offset sh \<and> shm_thread_id sh2 \<noteq> shm_thread_id sh \<and> pool_inv sh2 ?h P2" for sh2 P2
      by (rule pool_inv_cong [of sh2 ?h P2, OF _ ss]) (use that in \<open>simp_all add: eq\<close>)
    show "sf_state (sas_info (h_sas ?h x)) = segment_state_code POTENTIAL_LEAKING"
      if "sf_state (sas_info (h_sas ?h' x)) = segment_state_code POTENTIAL_LEAKING" for x
      using that by (simp add: set_state_def split: if_splits)
  qed (simp_all add: tls_frame_def eq)
  then show "dropped ex sh R {} S S'" by (auto simp: dropped_def S'_def live eq bs obj_embedded_def)
qed

section \<open>Draining a queue\<close>

text \<open>A queue whose slots are references of \<open>R\<close>; the slots that are not in use are null.\<close>

definition queue_in :: "u64 set \<Rightarrow> store \<Rightarrow> u64 \<Rightarrow> bool" where
  "queue_in R S q \<longleftrightarrow> queue_cells q \<subseteq> R \<and> (\<forall>d < 40. st_place S (q + of_nat d) \<and> q + of_nat d \<notin> R)
     \<and> unat (mq_start (st_heap S) q) < 16 \<and> unat (mq_end (st_heap S) q) < 16
     \<and> (\<forall>i < 16. h_cell (st_heap S) (mq_slot q (of_nat i)) \<noteq> 0 \<longrightarrow> i \<in> set (ring_of (st_heap S) q))"

lemma queue_inD:
  assumes "queue_in R S q"
  shows "queue_cells q \<subseteq> R" "d < 40 \<Longrightarrow> st_place S (q + of_nat d)" "d < 40 \<Longrightarrow> q + of_nat d \<notin> R"
    and "unat (mq_start (st_heap S) q) < 16" "unat (mq_end (st_heap S) q) < 16"
    and "i < 16 \<Longrightarrow> i \<notin> set (ring_of (st_heap S) q) \<Longrightarrow> h_cell (st_heap S) (mq_slot q (of_nat i)) = 0"
    and "st_place S (q + 16)" "q + 16 \<notin> R" "q \<notin> R" "q + 8 \<notin> R"
proof -
  have h: "st_place S (q + of_nat d) \<and> q + of_nat d \<notin> R" if "d < 40" for d using assms that unfolding queue_in_def by blast
  show "st_place S (q + 16)" "q + 16 \<notin> R" "q \<notin> R" "q + 8 \<notin> R" using h [of 16] h [of 0] h [of 8] by simp_all
qed (use assms in \<open>unfold queue_in_def, blast+\<close>)

lemma queue_in_dropped:
  assumes q: "queue_in R S q" and g: "graph (st_heap S) (st_lists S) R (st_objs S)" and D: "dropped ex sh R X S S'" and X: "q \<notin> X" "q + 8 \<notin> X"
  shows "mq_start (st_heap S') q = mq_start (st_heap S) q" "mq_end (st_heap S') q = mq_end (st_heap S) q" "queue_in R S' q"
proof -
  note Q = queue_inD [OF q]
  have c: "h_cell (st_heap S') (q + of_nat d) = h_cell (st_heap S) (q + of_nat d)" if "d < 40" "q + of_nat d \<notin> X" for d
    by (rule droppedD(4) [OF D Q(2) [OF that(1)] that(2)])
  show e: "mq_start (st_heap S') q = mq_start (st_heap S) q" "mq_end (st_heap S') q = mq_end (st_heap S) q"
    using c [of 0] c [of 8] X by (simp_all add: mq_start_def mq_end_def)
  have "h_cell (st_heap S) (mq_slot q (of_nat i)) \<noteq> 0" if "i < 16" "h_cell (st_heap S') (mq_slot q (of_nat i)) \<noteq> 0" for i
  proof -
    have x: "mq_slot q (of_nat i) \<in> R" using that(1) Q(1) by (auto simp: queue_cells_def)
    then have "mq_slot q (of_nat i) \<notin> X" using droppedD(3) [OF D] that(2) by (auto simp: ref_cells_def)
    then show ?thesis using droppedD(4) [OF D graphD(3) [OF g x]] that(2) by simp
  qed
  then show "queue_in R S' q" using q dropped_place [OF D] by (auto simp: queue_in_def e)
qed

text \<open>The second loop, from \<open>start\<close> to \<open>end\<close>.\<close>

abbreviation slots_of :: "u64 \<Rightarrow> nat list \<Rightarrow> u64 set" where
  "slots_of q js \<equiv> (\<lambda>i. mq_slot q (of_nat i)) ` set js"

lemma next_slot: "(of_nat i + 1) mod MESSAGE_BUFFER_SIZE = (of_nat ((i + 1) mod 16) :: u64)" if "i < 16"
proof -
  have "unat (of_nat i :: u64) = i" using that by (simp add: unat_of_nat_64)
  then have "unat ((of_nat i + 1) mod 16 :: u64) = (i + 1) mod 16"
    using mod16 [of "of_nat i + 1"] unat_Suc16 [of "of_nat i"] that by simp
  then have "(of_nat i + 1) mod 16 = (of_nat ((i + 1) mod 16) :: u64)"
    by (simp add: word_unat_eq_iff unat_of_nat_64)
  then show ?thesis by (simp add: layout)
qed

lemma dropped_null: "(\<And>x. x \<in> X \<Longrightarrow> h_cell (st_heap S) x = 0) \<Longrightarrow> dropped ex sh R X S S"
  by (simp add: dropped_def)

lemma dropped_more:
  assumes D: "dropped ex sh R X S S'" and "X \<subseteq> Y" and "\<And>x. x \<in> Y - X \<Longrightarrow> st_place S x \<and> h_cell (st_heap S) x = 0"
  shows "dropped ex sh R Y S S'"
  unfolding dropped_def
proof (intro conjI ballI allI impI)
  show "h_cell (st_heap S') x = 0" if "x \<in> Y" "x \<in> st_cells R S'" for x
    using droppedD(3) [OF D, of x] droppedD(4) [OF D, of x] assms(3) [of x] that by (cases "x \<in> X") auto
qed (use droppedD [OF D] assms(2) in blast)+

context dropper begin

lemma drop_slot_step:
  assumes S: "store_inv sh R S" "acyclic_objs S" and c: "mq_slot q i \<in> R" and fuel: "2 ^ 64 \<le> fuel"
  shows "\<exists>S'. drop_slot (drop fuel) q i (st_heap S) = Inr (st_heap S') \<and> store_inv sh R S' \<and> acyclic_objs S'
    \<and> dropped ex sh R {mq_slot q i} S S'"
proof (cases "mq_buffer (st_heap S) q i = 0")
  case True
  then show ?thesis using S dropped_null [of "{mq_slot q i}" S ex sh R]
    by (intro exI [of _ S]) (simp add: drop_slot_def mq_buffer_def)
next
  case False
  then show ?thesis using drop_all [OF S _ fuel] c by (simp add: drop_slot_def ref_cells_def)
qed

lemma drain_used_all:
  assumes "store_inv sh R S" and "acyclic_objs S" and "queue_in R S q" and "i < 16"
    and "ring_idx 16 i (unat (mq_end (st_heap S) q)) = js" and "length js \<le> n" and fuel: "2 ^ 64 \<le> fuel"
  shows "\<exists>S'. drain_used n (drop fuel) q (of_nat i) (st_heap S) = Inr (mq_end (st_heap S) q, st_heap S') \<and> store_inv sh R S'
    \<and> acyclic_objs S' \<and> dropped ex sh R (slots_of q js) S S'"
  using assms(1-6)
proof (induction js arbitrary: i S n)
  case Nil
  have "of_nat i = mq_end (st_heap S) q" using Nil(5) ring_idx_props(1) [OF Nil(4) queue_inD(5) [OF Nil(3)]] by simp
  then show ?case using Nil dropped_null [of "{}" S ex sh R] by (intro exI [of _ S]) (simp add: drain_used.simps)
next
  case (Cons j js)
  let ?e = "unat (mq_end (st_heap S) q)"
  note Q = queue_inD [OF Cons.prems(3)]
  have ne: "i \<noteq> ?e" using Cons.prems(5) ring_idx_props(1) [OF Cons.prems(4) Q(5)] by auto
  note split = ring_idx_cons [OF Cons.prems(4) Q(5) ne]
  have j: "j = i" "ring_idx 16 ((i + 1) mod 16) ?e = js" using split Cons.prems(5) by simp_all
  obtain m where m: "n = Suc m" "length js \<le> m" using Cons.prems(6) by (cases n) auto
  have ne': "of_nat i \<noteq> mq_end (st_heap S) q" using small_ne Cons.prems(4) ne by blast
  have cell: "mq_slot q (of_nat i) \<in> R" using Q(1) Cons.prems(4) by (auto simp: queue_cells_def)
  from drop_slot_step [OF Cons.prems(1,2) cell fuel] obtain S1 where
    S1: "drop_slot (drop fuel) q (of_nat i) (st_heap S) = Inr (st_heap S1)" "store_inv sh R S1" "acyclic_objs S1"
      "dropped ex sh R {mq_slot q (of_nat i)} S S1" by blast
  have "q \<notin> {mq_slot q (of_nat i)}" "q + 8 \<notin> {mq_slot q (of_nat i)}" using cell Q(9,10) by auto
  note H = queue_in_dropped [OF Cons.prems(3) store_graph [OF Cons.prems(1)] S1(4) this]
  have "\<exists>S'. drain_used m (drop fuel) q (of_nat ((i + 1) mod 16)) (st_heap S1) = Inr (mq_end (st_heap S1) q, st_heap S') \<and> store_inv sh R S'
    \<and> acyclic_objs S' \<and> dropped ex sh R (slots_of q js) S1 S'"
    by (rule Cons.IH [OF S1(2,3) H(3)]) (use j(2) m(2) in \<open>simp_all add: H(2)\<close>)
  then obtain S2 where S2: "drain_used m (drop fuel) q (of_nat ((i + 1) mod 16)) (st_heap S1) = Inr (mq_end (st_heap S1) q, st_heap S2)"
    "store_inv sh R S2" "acyclic_objs S2" "dropped ex sh R (slots_of q js) S1 S2" by blast
  have "drain_used n (drop fuel) q (of_nat i) (st_heap S) = Inr (mq_end (st_heap S) q, st_heap S2)"
    using S2(1) by (subst drain_used.simps) (simp add: m(1) ne' S1(1) next_slot [OF Cons.prems(4)] H(2))
  moreover have "dropped ex sh R (slots_of q (j # js)) S S2"
    using dropped_trans [OF S1(4) S2(4) store_graph [OF S1(2)]] j(1) by simp
  ultimately show ?case using S2(2,3) by blast
qed

end

text \<open>The first loop, from \<open>end\<close> to \<open>start\<close>, finds only null slots.\<close>

lemma drain_unused_null:
  assumes "i < 16" and "unat (mq_start h q) < 16" and "ring_idx 16 ((i + 1) mod 16) (unat (mq_start h q)) = js" and "length js < n"
    and "\<And>j. j \<in> insert i (set js) \<Longrightarrow> h_cell h (mq_slot q (of_nat j)) = 0"
  shows "drain_unused n tf q (of_nat i) h = Inr (mq_start h q, h)"
  using assms(1,3-5)
proof (induction js arbitrary: i n)
  case (Cons j js)
  let ?i = "(i + 1) mod 16" and ?s = "unat (mq_start h q)"
  have i: "?i < 16" by simp
  have ne: "?i \<noteq> ?s" using Cons.prems(2) ring_idx_props(1) [OF i assms(2)] by auto
  have j: "j = ?i" "ring_idx 16 ((?i + 1) mod 16) ?s = js" using ring_idx_cons [OF i assms(2) ne] unfolding Cons.prems(2) by simp_all
  obtain m where m: "n = Suc m" "length js < m" using Cons.prems(3) by (cases n) auto
  have "drain_unused m tf q (of_nat ?i) h = Inr (mq_start h q, h)"
    by (rule Cons.IH [OF i j(2) m(2)]) (use Cons.prems(4) j(1) in simp)
  then show ?case using Cons.prems(4) [of i] small_ne [OF i ne]
    by (simp add: m(1) drop_slot_def mq_buffer_def next_slot [OF Cons.prems(1)] Let_def)
next
  case Nil
  have "(i + 1) mod 16 = unat (mq_start h q)" using Nil(2) ring_idx_props(1) [of "(i + 1) mod 16" 16, OF _ assms(2)] by simp
  then have "of_nat ((i + 1) mod 16) = mq_start h q" by (simp only: of_nat_unat ucast_id)
  then show ?case using Nil(3,4) by (cases n) (simp_all add: drop_slot_def mq_buffer_def next_slot [OF Nil(1)] Let_def)
qed

lemma ring_complement:
  assumes "s < 16" and "e < 16"
  shows "insert e (set (ring_idx 16 ((e + 1) mod 16) s)) \<inter> set (ring_idx 16 s e) = {}" "length (ring_idx 16 ((e + 1) mod 16) s) < 16"
  using assms by (cases "e = 15"; auto simp: ring_idx_def split: if_splits)+

section \<open>The two ends of a queue\<close>

context dropper begin

lemma drain_all:
  assumes S: "store_inv sh R S" "acyclic_objs S" and q: "queue_in R S q" and fuel: "2 ^ 64 \<le> fuel"
  shows "\<exists>S'. drain_used fuel (drop fuel) q (mq_start (st_heap S) q) (st_heap S) = Inr (mq_end (st_heap S) q, st_heap S')
    \<and> store_inv sh R S' \<and> acyclic_objs S' \<and> dropped ex sh R (queue_cells q) S S'"
proof -
  let ?js = "ring_of (st_heap S) q"
  note Q = queue_inD [OF q]
  have len: "length ?js \<le> fuel" using ring_idx_props(5) [OF Q(4,5)] Q(4,5) fuel by (auto split: if_splits)
  from drain_used_all [OF S q Q(4) refl len fuel] obtain S' where
    S': "drain_used fuel (drop fuel) q (mq_start (st_heap S) q) (st_heap S) = Inr (mq_end (st_heap S) q, st_heap S')"
      "store_inv sh R S'" "acyclic_objs S'" "dropped ex sh R (slots_of q ?js) S S'" by auto
  have "dropped ex sh R (queue_cells q) S S'"
  proof (rule dropped_more [OF S'(4)])
    show "slots_of q ?js \<subseteq> queue_cells q" using ring_idx_props(4) [OF Q(4,5)] by (auto simp: queue_cells_def)
    show "st_place S x \<and> h_cell (st_heap S) x = 0" if "x \<in> queue_cells q - slots_of q ?js" for x
      using that Q(1,6) graphD(3) [OF store_graph [OF S(1)]] by (auto simp: queue_cells_def)
  qed
  then show ?thesis using S'(1-3) by blast
qed

lemma write_ids:
  assumes S: "store_inv sh R S" "acyclic_objs S" and q: "queue_in R S q"
  shows "store_inv sh R (S\<lparr>st_heap := set_cell (q + 16) w (st_heap S)\<rparr>)" "acyclic_objs (S\<lparr>st_heap := set_cell (q + 16) w (st_heap S)\<rparr>)"
    "dropped ex sh R {q + 16} S (S\<lparr>st_heap := set_cell (q + 16) w (st_heap S)\<rparr>)"
  using dropped_write [where X = "{q + 16}", OF S, of "set_cell (q + 16) w (st_heap S)"] queue_inD(7,8) [OF q] by simp_all

lemma gc_receiver:
  assumes S: "store_inv sh R S" "acyclic_objs S" and q: "queue_in R S q" and fuel: "2 ^ 64 \<le> fuel"
  shows "\<exists>S'. gc_receiver_queue fuel (drop fuel) q (st_heap S) = Inr (st_heap S') \<and> mq_receiver_id (st_heap S') q = 0
    \<and> store_inv sh R S' \<and> acyclic_objs S' \<and> dropped ex sh R (queue_cells q \<union> {q + 16}) S S'"
proof -
  note Q = queue_inD [OF q]
  from drain_all [OF assms] obtain S1 where
    S1: "drain_used fuel (drop fuel) q (mq_start (st_heap S) q) (st_heap S) = Inr (mq_end (st_heap S) q, st_heap S1)"
      "store_inv sh R S1" "acyclic_objs S1" "dropped ex sh R (queue_cells q) S S1" by blast
  have "q \<notin> queue_cells q" "q + 8 \<notin> queue_cells q" using Q(1,9,10) by auto
  note q1 = queue_in_dropped(3) [OF q store_graph [OF S(1)] S1(4) this]
  note W = write_ids [OF S1(2,3) q1, of "put_field 16 0 (h_cell (st_heap S1) (q + 16))"]
  let ?S' = "S1\<lparr>st_heap := set_mq_receiver_id q 0 (st_heap S1)\<rparr>"
  have "gc_receiver_queue fuel (drop fuel) q (st_heap S) = Inr (st_heap ?S')" by (simp add: gc_receiver_queue_def S1(1))
  moreover have "mq_receiver_id (st_heap ?S') q = 0" by (simp add: set_mq_receiver_id_def mq_receiver_id_def)
  moreover have "dropped ex sh R (queue_cells q \<union> {q + 16}) S ?S'"
    using dropped_trans [OF S1(4) W(3) store_graph [OF S1(2)]] by (simp add: set_mq_receiver_id_def)
  ultimately show ?thesis using W(1,2) unfolding set_mq_receiver_id_def by blast
qed

text \<open>
  At the sender's end the messages stay for the receiver, unless it has left before; the segment
  of the queue is marked.
\<close>

lemma gc_sender:
  assumes S: "store_inv sh R S" "acyclic_objs S" and q: "queue_in R S q" and fuel: "2 ^ 64 \<le> fuel"
  shows "\<exists>S'. gc_sender_queue fuel (drop fuel) q (st_heap S) = Inr (st_heap S') \<and> mq_sender_id (st_heap S') q = 0
    \<and> sf_state (sas_info (h_sas (st_heap S') (sas_of_segment (cxl_ptr_segment q)))) = segment_state_code ABANDON
    \<and> store_inv sh R S' \<and> acyclic_objs S'
    \<and> dropped ex sh R ((if mq_receiver_id (st_heap S) q = 0 then queue_cells q else {}) \<union> {q + 16}) S S'"
proof -
  let ?h = "st_heap S" and ?seg = "cxl_ptr_segment q" and ?Y = "if mq_receiver_id (st_heap S) q = 0 then queue_cells q else {}"
  note Q = queue_inD [OF q]
  note C = ring_complement [OF Q(4,5)]
  have js: "j < 16" if "j \<in> insert (unat (mq_end ?h q)) (set (ring_idx 16 ((unat (mq_end ?h q) + 1) mod 16) (unat (mq_start ?h q))))" for j
    using that Q(4,5) ring_idx_props(4) [of "(unat (mq_end ?h q) + 1) mod 16" 16 "unat (mq_start ?h q)"] by auto
  have "drain_unused fuel (drop fuel) q (of_nat (unat (mq_end ?h q))) ?h = Inr (mq_start ?h q, ?h)"
    by (rule drain_unused_null [OF Q(5,4) refl]) (use C fuel Q(6) js in auto)
  then have u: "drain_unused fuel (drop fuel) q (mq_end ?h q) ?h = Inr (mq_start ?h q, ?h)" by simp
  obtain S1 where S1: "(if mq_receiver_id ?h q = 0 then bnd (drain_used fuel (drop fuel) q (mq_start ?h q) ?h) (\<lambda>(i, h). Inr h) else Inr ?h) = Inr (st_heap S1)"
    "store_inv sh R S1" "acyclic_objs S1" "dropped ex sh R ?Y S S1"
  proof (cases "mq_receiver_id ?h q = 0")
    case True
    then show thesis using drain_all [OF assms] that by auto
  next
    case False
    then show thesis using S dropped_null [of "{}" S ex sh R] that [of S] by simp
  qed
  have "q \<notin> ?Y" "q + 8 \<notin> ?Y" using Q(1,9,10) by auto
  note q1 = queue_in_dropped(3) [OF q store_graph [OF S(1)] S1(4) this]
  note W = write_ids [OF S1(2,3) q1, of "put_field 0 0 (h_cell (st_heap S1) (q + 16))"]
  let ?S2 = "S1\<lparr>st_heap := set_mq_sender_id q 0 (st_heap S1)\<rparr>"
  have W2: "store_inv sh R ?S2" "acyclic_objs ?S2" "dropped ex sh R {q + 16} S1 ?S2"
    using W unfolding set_mq_sender_id_def by simp_all
  note M = dropped_mark [where seg = ?seg, OF W2(1,2)]
  let ?S' = "?S2\<lparr>st_heap := set_state ABANDON ?seg (st_heap ?S2)\<rparr>"
  have "gc_sender_queue fuel (drop fuel) q ?h = Inr (st_heap ?S')" by (simp add: gc_sender_queue_def u S1(1))
  moreover have "mq_sender_id (st_heap ?S') q = 0" by (simp add: set_state_def set_mq_sender_id_def mq_sender_id_def)
  moreover have "sf_state (sas_info (h_sas (st_heap ?S') (sas_of_segment ?seg))) = segment_state_code ABANDON" by (simp add: set_state_def)
  moreover have "dropped ex sh R (?Y \<union> {q + 16}) S ?S'"
    using dropped_trans [OF dropped_trans [OF S1(4) W2(3) store_graph [OF S1(2)]] M(3) store_graph [OF W2(1)]] by simp
  ultimately show ?thesis using M(1,2) by blast
qed

end

section \<open>Reachable states\<close>

text \<open>Every object the references of \<open>R\<close> lead to counts the references to it.\<close>

definition counts_exact :: "shm_heap \<Rightarrow> u64 set \<Rightarrow> bool" where
  "counts_exact h R \<longleftrightarrow> (\<forall>ob. reach h R ob \<longrightarrow> obj_cnt h ob = card (holders h R {ob. reach h R ob} ob))"

lemma dropped_reach:
  assumes S: "store_inv sh R S" and S': "store_inv sh R S'" "acyclic_objs S'" and D: "dropped ex sh R X S S'"
    and X: "\<And>x. x \<in> X \<Longrightarrow> st_place S x"
  shows "{ob. reach (st_heap S') R ob} = {ob. reach (st_heap S) (R - X) ob}" "counts_exact (st_heap S') R"
proof -
  show "{ob. reach (st_heap S') R ob} = {ob. reach (st_heap S) (R - X) ob}" using reach_less [OF S S'(1) D X] by simp
  obtain rank where "ranked rank S'" using S'(2) by (auto simp: acyclic_objs_def)
  then have O: "st_objs S' = {ob. reach (st_heap S') R ob}" by (rule objects_reachable [OF S'(1)])
  have "obj_cnt (st_heap S') ob = card (holders (st_heap S') R {ob. reach (st_heap S') R ob} ob)" if "reach (st_heap S') R ob" for ob
    using graphD(5) [OF store_graph [OF S'(1)], of ob] that unfolding O by simp
  then show "counts_exact (st_heap S') R" by (simp add: counts_exact_def)
qed

lemma opens_queue_in:
  assumes O: "opens S sh St" and q: "q \<in> rs_queues S"
  shows "queue_in (rs_cells S) St q"
  using opens_queue(4,5) [OF O q] queue_place(1,2) [OF O q] opensD(1) [OF O] by (simp add: queue_in_def ring_ok_def)

text \<open>How a client that leaves, and the monitor for one that has crashed, drop a reference.\<close>

definition dropping :: "cxl_shm \<Rightarrow> (u64 \<Rightarrow> shm_heap \<Rightarrow> fault + shm_heap) set" where
  "dropping sh = {test_free (2 ^ 64) sh, \<lambda>ref. recovery_test_free (2 ^ 64) ref (shm_tls_offset sh)}"

lemma queue_end_gone:
  assumes O: "opens S sh St" and q: "q \<in> rs_queues S" and Y: "Y \<subseteq> queue_cells q"
    and S': "store_inv sh' (rs_cells S) S'" "acyclic_objs S'" "dropped ex sh' (rs_cells S) (Y \<union> {q + 16}) St S'"
    and St: "store_inv sh' (rs_cells S) St"
  shows "{ob. reach (st_heap S') (rs_cells S) ob} = {ob. reach (rs_heap S) (rs_cells S - Y) ob}" "counts_exact (st_heap S') (rs_cells S)"
    and "x \<in> queue_cells q \<Longrightarrow> h_cell (st_heap S') x = (if x \<in> Y then 0 else h_cell (rs_heap S) x)"
    and "r \<in> rs_roots S \<Longrightarrow> rr_pptr (st_heap S') r = rr_pptr (rs_heap S) r \<and> rr_ref_cnt (st_heap S') r = rr_ref_cnt (rs_heap S) r"
proof -
  note h = opensD(1) [OF O] and Q = queue_inD [OF opens_queue_in [OF O q]]
  have place: "st_place St x" if "x \<in> Y \<union> {q + 16} \<union> queue_cells q" for x
    using that Q(1,7) Y graphD(3) [OF store_graph [OF St]] by auto
  then have XY: "\<And>x. x \<in> Y \<union> {q + 16} \<Longrightarrow> st_place St x" by blast
  note R = dropped_reach [OF St S' XY]
  show "{ob. reach (st_heap S') (rs_cells S) ob} = {ob. reach (rs_heap S) (rs_cells S - Y) ob}" "counts_exact (st_heap S') (rs_cells S)"
    using R Q(8) by (simp_all add: h)
  show "h_cell (st_heap S') x = (if x \<in> Y then 0 else h_cell (rs_heap S) x)" if x: "x \<in> queue_cells q"
  proof -
    have "x \<in> st_cells (rs_cells S) S'" "x \<noteq> q + 16" using x Q(1,8) by (auto simp: ref_cells_def)
    then show ?thesis using droppedD(3) [OF S'(3), of x] droppedD(4) [OF S'(3), of x] place [of x] x h by auto
  qed
  assume r: "r \<in> rs_roots S"
  note T = opens_root [OF O r]
  have ne: "r \<noteq> q" using T(2) opens_queue(2) [OF O q] by auto
  have "\<exists>d < 192. x = q + of_nat d" if "x \<in> Y \<union> {q + 16}" for x
  proof (cases "x \<in> Y")
    case True
    then have "x \<in> queue_cells q" using Y by blast
    then obtain i where "i < 16" "x = q + of_nat (40 + 8 * i)" by (rule queue_cellsE)
    then show ?thesis by (intro exI [of _ "40 + 8 * i"]) simp
  qed (use that in \<open>auto intro!: exI [of _ 16]\<close>)
  then have aw: "away St {q} (Y \<union> {q + 16})" by (rule queue_place(3) [OF O q])
  have "h_cell (st_heap S') (r + of_nat d) = h_cell (rs_heap S) (r + of_nat d)" if "d < 16" for d
  proof -
    have d: "d < bsize (st_heap St) (cxl_ptr_page r)" using T(2) that by (simp add: h)
    then have "r + of_nat d \<notin> Y \<union> {q + 16}" using aw T(1) ne unfolding away_def by blast
    then show ?thesis using droppedD(4) [OF S'(3) root_placeI [OF T(1) d]] h by simp
  qed
  from this [of 0] this [of 8] show "rr_pptr (st_heap S') r = rr_pptr (rs_heap S) r \<and> rr_ref_cnt (st_heap S') r = rr_ref_cnt (rs_heap S) r"
    by (simp add: rr_pptr_def rr_ref_cnt_def)
qed

section \<open>Properties\<close>

text \<open>
  C32. The monitor drops a reference of a crashed client completely: in every reachable state
  the cascade returns, the objects the references lead to afterwards are those that the other
  references led to before, and each of them counts its references.
\<close>

theorem monitor_drops_the_unreachable:
  assumes "runs (ref_step N) rs_start as S" and "region_fits (newcomer N)"
    and "sh \<in> set (rs_clients S)" and "c \<in> rs_cells S"
  shows "\<exists>h. recovery_test_free (2 ^ 64) c (shm_tls_offset sh) (rs_heap S) = Inr h \<and> h_cell h c = 0
    \<and> {ob. reach h (rs_cells S) ob} = {ob. reach (rs_heap S) (rs_cells S - {c}) ob} \<and> counts_exact h (rs_cells S)"
proof -
  obtain St where O: "opens S sh St" using rs_open [OF reachable_inv [OF assms(1,2)] assms(3)] by blast
  note D = opensD [OF O] and A = acting_store [OF O]
  have c: "c \<in> st_cells (rs_cells S) St" using assms(4) by (simp add: ref_cells_def)
  obtain S' where S': "recovery_test_free (2 ^ 64) c (shm_tls_offset sh) (rs_heap S) = Inr (st_heap S')"
    "store_inv (acting_for (shm_tls_offset sh)) (rs_cells S) S'" "acyclic_objs S'"
    "dropped False (acting_for (shm_tls_offset sh)) (rs_cells S) {c} St S'"
    using mon.drop_all [OF A D(3) c order.refl] D(1) by auto
  have "h_cell (st_heap S') c = 0" using droppedD(3) [OF S'(4)] assms(4) by (simp add: ref_cells_def)
  moreover have "st_place St x" if "x \<in> {c}" for x using graphD(3) [OF store_graph [OF A]] assms(4) that by blast
  ultimately show ?thesis using dropped_reach [OF A S'(2-4)] S'(1) D(1) by auto
qed

text \<open>
  C33. When the receiver of a queue leaves, in order or by a crash, the messages it has not
  received are dropped: every slot of the queue is null, the objects still referred to are those
  that references outside the queue lead to, counts are exact, and no root reference changes.
\<close>

theorem leaving_receiver_drops_messages:
  assumes "runs (ref_step N) rs_start as S" and "region_fits (newcomer N)"
    and "sh \<in> set (rs_clients S)" and "q \<in> rs_queues S" and "tf \<in> dropping sh"
  shows "\<exists>h. gc_receiver_queue (2 ^ 64) tf q (rs_heap S) = Inr h \<and> mq_receiver_id h q = 0 \<and> (\<forall>x \<in> queue_cells q. h_cell h x = 0)
    \<and> {ob. reach h (rs_cells S) ob} = {ob. reach (rs_heap S) (rs_cells S - queue_cells q) ob} \<and> counts_exact h (rs_cells S)
    \<and> (\<forall>r \<in> rs_roots S. rr_pptr h r = rr_pptr (rs_heap S) r \<and> rr_ref_cnt h r = rr_ref_cnt (rs_heap S) r)"
proof -
  obtain St where O: "opens S sh St" using rs_open [OF reachable_inv [OF assms(1,2)] assms(3)] by blast
  note D = opensD [OF O] and A = acting_store [OF O] and q = opens_queue_in [OF O assms(4)]
  obtain S' ex sh' where S': "gc_receiver_queue (2 ^ 64) tf q (rs_heap S) = Inr (st_heap S')" "mq_receiver_id (st_heap S') q = 0"
      "store_inv sh' (rs_cells S) S'" "acyclic_objs S'" "dropped ex sh' (rs_cells S) (queue_cells q \<union> {q + 16}) St S'"
      "store_inv sh' (rs_cells S) St"
    using assms(5) cl.gc_receiver [OF D(2,3) q order.refl] D(2) mon.gc_receiver [OF A D(3) q order.refl] A
    unfolding dropping_def D(1) by blast
  note E = queue_end_gone [OF O assms(4) order.refl S'(3-6)]
  show ?thesis using S'(1,2) E by (intro exI [of _ "st_heap S'"]) simp
qed

text \<open>
  C34. When the sender leaves, what becomes of its messages depends on whether a receiver is
  attached to the queue, that is whether one has called \<open>cxl_unwrap\<close> on it and has not left. If so,
  the messages stay, in their order. If not, they are dropped, also those whose receiver was only
  late: every slot is null, and the objects that only messages referred to are gone. Either way counts
  are exact, no root reference changes, and the segment of the queue is marked as abandoned,
  for the monitor's sweep.
\<close>

theorem leaving_sender_and_its_messages:
  assumes "runs (ref_step N) rs_start as S" and "region_fits (newcomer N)"
    and "sh \<in> set (rs_clients S)" and "q \<in> rs_queues S" and "tf \<in> dropping sh"
  shows "\<exists>h. gc_sender_queue (2 ^ 64) tf q (rs_heap S) = Inr h \<and> mq_sender_id h q = 0
    \<and> (if mq_receiver_id (rs_heap S) q = 0
       then (\<forall>x \<in> queue_cells q. h_cell h x = 0)
         \<and> {ob. reach h (rs_cells S) ob} = {ob. reach (rs_heap S) (rs_cells S - queue_cells q) ob}
       else queued h q = queued (rs_heap S) q \<and> {ob. reach h (rs_cells S) ob} = rs_objs S)
    \<and> counts_exact h (rs_cells S)
    \<and> (\<forall>r \<in> rs_roots S. rr_pptr h r = rr_pptr (rs_heap S) r \<and> rr_ref_cnt h r = rr_ref_cnt (rs_heap S) r)
    \<and> sf_state (sas_info (h_sas h (sas_of_segment (cxl_ptr_segment q)))) = segment_state_code ABANDON"
proof -
  define Y where "Y = (if mq_receiver_id (rs_heap S) q = 0 then queue_cells q else {})"
  obtain St where O: "opens S sh St" using rs_open [OF reachable_inv [OF assms(1,2)] assms(3)] by blast
  note D = opensD [OF O] and A = acting_store [OF O] and q = opens_queue_in [OF O assms(4)]
  obtain S' ex sh' where S': "gc_sender_queue (2 ^ 64) tf q (rs_heap S) = Inr (st_heap S')" "mq_sender_id (st_heap S') q = 0"
      "sf_state (sas_info (h_sas (st_heap S') (sas_of_segment (cxl_ptr_segment q)))) = segment_state_code ABANDON"
      "store_inv sh' (rs_cells S) S'" "acyclic_objs S'" "dropped ex sh' (rs_cells S) (Y \<union> {q + 16}) St S'"
      "store_inv sh' (rs_cells S) St"
    using assms(5) cl.gc_sender [OF D(2,3) q order.refl] D(2) mon.gc_sender [OF A D(3) q order.refl] A
    unfolding dropping_def D(1) Y_def by blast
  have Y: "Y \<subseteq> queue_cells q" by (simp add: Y_def)
  note E = queue_end_gone [OF O assms(4) this S'(4-7)] and Q = queue_inD [OF q]
  have "q \<notin> Y \<union> {q + 16}" "q + 8 \<notin> Y \<union> {q + 16}" using Y Q(1,9,10) by auto
  note K = queue_in_dropped(1,2) [OF q D(7) [folded D(1)] S'(6) this, unfolded D(1)]
  have "queued (st_heap S') q = queued (rs_heap S) q" if "Y = {}"
  proof (rule queue_same(2) [OF K])
    show "h_cell (st_heap S') (mq_slot q (of_nat i)) = h_cell (rs_heap S) (mq_slot q (of_nat i))" if "i < 16" for i
      using E(3) [of "mq_slot q (of_nat i)"] that \<open>Y = {}\<close> by (simp add: queue_cells_def)
    show "ring_ok (rs_heap S) q" by (rule opens_queue(4) [OF O assms(4)])
  qed
  then show ?thesis using S'(1-3) E unfolding Y_def rs_objs_def by (intro exI [of _ "st_heap S'"]) (simp split: if_splits)
qed

section \<open>At a concrete run\<close>

theorem monitor_drops_the_unreachable_witness:
  "\<exists>S (sh :: cxl_shm) q t ob h. runs (ref_step (2 ^ 28)) rs_start [Enter, Allocate, Create, Send q ob] S \<and> t \<in> rs_roots S
    \<and> recovery_test_free (2 ^ 64) t (shm_tls_offset sh) (rs_heap S) = Inr h
    \<and> {ob. reach h (rs_cells S) ob} = {ob. reach (rs_heap S) (rs_cells S - {t}) ob}"
proof -
  from demo_run obtain S sh q t ob where r: "runs (ref_step (2 ^ 28)) rs_start [Enter, Allocate, Create, Send q ob] S"
    "sh \<in> set (rs_clients S)" "t \<in> rs_roots S" by blast
  have "t \<in> rs_cells S" using r(3) by (simp add: rs_cells_def)
  from monitor_drops_the_unreachable [OF r(1) demo_fits r(2) this] show ?thesis using r(1,3) by blast
qed

theorem leaving_receiver_drops_messages_witness:
  "\<exists>S (sh :: cxl_shm) q t ob h. runs (ref_step (2 ^ 28)) rs_start [Enter, Allocate, Create, Send q ob] S
    \<and> gc_receiver_queue (2 ^ 64) (\<lambda>ref. recovery_test_free (2 ^ 64) ref (shm_tls_offset sh)) q (rs_heap S) = Inr h
    \<and> t \<in> rs_roots S \<and> rr_pptr h t = rr_pptr (rs_heap S) t
    \<and> {ob. reach h (rs_cells S) ob} = {ob. reach (rs_heap S) (rs_cells S - queue_cells q) ob}"
proof -
  from demo_run obtain S sh q t ob where r: "runs (ref_step (2 ^ 28)) rs_start [Enter, Allocate, Create, Send q ob] S"
    "sh \<in> set (rs_clients S)" "q \<in> rs_queues S" "t \<in> rs_roots S" by blast
  have "(\<lambda>ref. recovery_test_free (2 ^ 64) ref (shm_tls_offset sh)) \<in> dropping sh" by (simp add: dropping_def)
  from leaving_receiver_drops_messages [OF r(1) demo_fits r(2,3) this] show ?thesis using r(1,4) by blast
qed

theorem leaving_sender_and_its_messages_witness:
  "\<exists>S (sh :: cxl_shm) q t ob h. runs (ref_step (2 ^ 28)) rs_start [Enter, Allocate, Create, Send q ob] S
    \<and> gc_sender_queue (2 ^ 64) (test_free (2 ^ 64) sh) q (rs_heap S) = Inr h
    \<and> sf_state (sas_info (h_sas h (sas_of_segment (cxl_ptr_segment q)))) = segment_state_code ABANDON"
proof -
  from demo_run obtain S sh q t ob where r: "runs (ref_step (2 ^ 28)) rs_start [Enter, Allocate, Create, Send q ob] S"
    "sh \<in> set (rs_clients S)" "q \<in> rs_queues S" by blast
  have "test_free (2 ^ 64) sh \<in> dropping sh" by (simp add: dropping_def)
  from leaving_sender_and_its_messages [OF r(1) demo_fits r(2,3) this] show ?thesis using r(1) by blast
qed

end
