(* ===== verification/Spec2Isabelle.thy ===== *)
theory Spec2Isabelle
  imports Crash_Cases Protocol_Progress Foreign_Frees Index_Map Monitor_Sweep
    Departure
begin

text \<open>
  A verification development for CXL-SHM, a reference-counted memory manager for a memory
  region that many clients share and that outlives each of them.

  \<^bold>\<open>The program.\<close> A client (class \<open>cxl_shm\<close>) maps a region, claims a thread local state in it
  (\<open>thread_init\<close>) and from then on allocates objects with \<open>cxl_malloc\<close>. The region is divided into
  segments of 64 MiB, each owned by one client, a segment into pages of 64 KiB, a page into blocks
  of one size. A block is an object with a reference count (\<open>CXLObj\<close>), a root reference that counts
  the handles of one client to one object (\<open>RootRef\<close>, \<open>CXLRef_s\<close>), a message queue through which
  one client passes references to another (\<open>sent_to\<close>, \<open>cxl_unwrap\<close>), or a node of the key-value
  index (\<open>put\<close>, \<open>get\<close>). Objects refer to each other through embedded reference cells. Whoever
  takes the count of an object to 0 frees it, with all it alone refers to (\<open>test_free\<close>), whichever
  client it came from (\<open>cxl_free\<close>). A change of a count is one compare-and-swap; a redo log and a
  matrix of eras let the monitor (\<open>src/recovery.cpp\<close>) decide, after a crash, whether an interrupted
  change took effect, complete it if so, and take back what the client held.

  \<^bold>\<open>The region.\<close> \<open>shm_heap\<close> (\<open>Shm_Types\<close>) is the region. Structs with an area of their own (segment
  allocation states, eras, thread local states, segment and page headers) are records in maps keyed
  by their offset, with fields of the width the C++ structs give them. Memory that the code
  reinterprets, i.e. blocks and hash buckets, is a map of 64-bit cells, with the fields of the
  overlaid structs at the offsets the C++ layout has. References are offsets as in the code
  (\<open>get_offset_for_data\<close>), 0 is null, and offset arithmetic wraps at 64 bits. What the typed maps
  leave out is an access to one area through a pointer computed for another; for the blocks the
  proofs establish that this does not happen (below), for the areas before the segments it is an
  assumption of the model. A null dereference, a division by zero, a bin index out of range and the
  end of the fuel are values of type \<open>fault\<close>; every operation that can meet one returns
  \<open>fault + result\<close>, and \<open>bnd\<close> sequences such operations.

  \<^bold>\<open>The code, bottom up\<close>, one group of definitions per component, one definition per C++ function,
  under its name:
  \<^item> \<open>Shm_Types\<close>, \<open>Ref_Info\<close>, \<open>Address\<close>: constants and structs of \<open>cxlmalloc-types.h\<close> and
    \<open>cxlmalloc.h\<close>, the packed words of \<open>cxlmalloc-internal.h\<close>, address arithmetic
    (\<open>cxl_ptr_page\<close>, \<open>cxl_ptr_segment\<close>, \<open>cxl_page_start\<close>, \<open>era\<close>).
  \<^item> \<open>Page_Queue\<close> (\<open>page_queue.cpp\<close>), \<open>Thread_State\<close> (\<open>thread_init\<close> and the bins of
    \<open>cxl_shm.cpp\<close>), \<open>Segment\<close> (\<open>segment.cpp\<close>), \<open>Page\<close> (\<open>page.cpp\<close>), \<open>Alloc\<close> (\<open>alloc.cpp\<close>, the slow path
    of \<open>page.cpp\<close>, \<open>block_to_*\<close> and \<open>cxl_malloc\<close> of \<open>cxl_shm.cpp\<close>).
  \<^item> \<open>Ref_Count\<close> (\<open>link_reference\<close>, \<open>unlink_reference\<close>, \<open>test_free\<close> of \<open>cxl_shm.cpp\<close>), \<open>Cxl_Ref\<close>
    (\<open>cxl_ref.cpp\<close>, \<open>get_ref\<close>), \<open>Msg_Transfer\<close> (\<open>transfer.cpp\<close>), \<open>Hash_Index\<close> (\<open>hash_index.cpp\<close>).
  \<^item> \<open>Garbage_Collection\<close> and \<open>Recovery\<close> (\<open>recovery.cpp\<close>): \<open>normal_garbage_collection\<close> of a client
    that leaves in order, and the monitor's \<open>redo_ref_cnt\<close>, \<open>recovery_garbage_collection\<close>,
    \<open>single_recovery_loop\<close> and \<open>check_recovery\<close>.

  \<^bold>\<open>What the theorems show.\<close>
  \<^item> Layout: packing and unpacking of \<open>ref_info\<close> are inverse while id and count fit 16 bits
    (\<open>Ref_Info\<close>); from any byte of a page the headers found are those of its page and segment
    (\<open>Address\<close>).
  \<^item> Lists: the doubly linked page queues refine consing and \<open>remove1\<close>, wherever the page stands
    (\<open>Page_Queue\<close>, locale \<open>page_list\<close>).
  \<^item> The allocator. \<open>alloc_inv\<close> (\<open>Block_Lists\<close>) says that every block of every page in use is live or
    in exactly one list, \<open>client_inv\<close> (\<open>Pool\<close>) adds that the pages of a client's segments are in
    its bins or its free queue, each once. \<open>Malloc\<close>, \<open>Refill\<close>, \<open>Find_Page\<close>, \<open>Malloc_Total\<close> show that
    \<open>cxl_malloc\<close>, along every path (free list, collection of local and foreign frees, next page of
    the bin, fresh page, fresh segment), takes two blocks that were not live or meets a null page
    because no segment is left; \<open>Free_Total\<close> that \<open>cxl_free\<close> takes exactly the freed block from the
    live ones, on each of its paths, and gives an idle page and an idle segment back; \<open>Client_Start\<close> that \<open>thread_init\<close> establishes the invariant.
    \<open>Clients\<close> composes them: in every state that any number of clients reach, blocks that are out
    do not overlap, and no step of one client touches a block that stays out.
  \<^item> Reference counting. \<open>Object_Graph\<close> sees objects and reference cells as a graph in which counts
    are in-degrees; \<open>Object_Free\<close> shows that \<open>test_free\<close> returns, cascades included, and frees
    exactly what nothing leads to any more (locales \<open>unlinker\<close> and \<open>dropper\<close>: what dropping a
    reference relies on and what follows from it, interpreted for the client here and for the
    monitor in \<open>Departure\<close>); \<open>Store_Ops\<close>, \<open>Queue_Ring\<close>, \<open>Queue_Alloc\<close> do the same
    for the other building blocks. \<open>Ref_System\<close> is the whole as a step relation \<open>ref_step\<close>: any
    clients enter, allocate, embed, copy, drop and fetch handles, create queues, send and receive.
    \<open>Ref_Steps\<close> and \<open>Ref_Messages\<close> show that every step keeps \<open>rs_inv\<close>, \<open>Ref_Runs\<close> concludes for
    all runs: what is in use is exactly what handles, queues and messages lead to, memory is typed
    (root references, queues and objects lie in blocks of their kind), everything comes back once
    nothing is held, and queues deliver in order (locale \<open>fifo_channel\<close>).
  \<^item> The index: \<open>Index_Map\<close> shows that buckets stand for one map per client, that \<open>put\<close> refines
    its update and that \<open>get\<close> returns what was last put (locale \<open>key_value_store\<close>), for the 64
    clients whose tables lie in their area, and where the buckets of the others lie.
  \<^item> Concurrency within operations. The components above run one operation after the other. The two
    places where clients race on one word are modelled at the grain of the shared accesses:
    \<open>Era_Protocol\<close> has changes of counts and allocations by any number of clients with ids 1 to 1023,
    in three atomic steps: the reads and the log before the compare-and-swap, the swap, and the
    stores after it. It shows that after a crash between any two of them
    the monitor completes a change exactly if its swap took effect. \<open>Count_Refinement\<close>
    shows that its runs refine atomic counters under the same events, \<open>Protocol_Progress\<close> that
    undisturbed the steps are the operations of \<open>Ref_Count\<close> and that a client let alone finishes.
    \<open>Foreign_Frees\<close> has pushes to the free list of another client's segment against the owner's
    collection, refills, allocations and frees and the monitor's marks, and shows that no block is
    lost or listed twice, from the segment's word to the lists and use counts of its pages. Both
    embed the definitions that the sequential operations are made of, so that the two levels
    cannot drift apart.
  \<^item> The monitor's sweep (\<open>Monitor_Sweep\<close>) ends, takes a segment exactly if nothing in it looks used,
    and in every reachable state of the system spares every object somebody still refers to.
  \<^item> Leaving. \<open>Departure\<close> shows that the monitor drops a reference of a crashed client as completely
    as the client itself, and what becomes of a queue when its receiver or its sender leaves, in
    order or by a crash.
  \<^item> Where the code does less than it should (\<open>Crash_Cases\<close>, \<open>Recovery\<close> facts in \<open>Era_Protocol\<close>, the
    error theorems of \<open>Thread_State\<close>, \<open>Segment\<close> and \<open>Page\<close>): theorems state what happens, e.g. that
    the 65536th reference carries into the client id, or that an interrupted \<open>put\<close> is taken for one
    that took effect.

  \<^bold>\<open>Assumptions on the use of the library\<close> are guards of the step relations: counts stay below
  65535, a request is at most 1000 bytes and holds its embedded cells, embedded cells are zero when
  an object is made (\<open>cxl_malloc\<close> does not clear them), objects are linked without cycles (counting
  cannot free cycles), and the region fits its address space (\<open>region_fits\<close>). Each theorem with
  hypotheses is followed by an instance of them.

  \<^bold>\<open>Fuel.\<close> Loops over linked structures in shared memory recurse on a fuel of type \<open>nat\<close>. Under the
  invariants the lists are chains of distinct nonzero 64-bit addresses, so fewer than \<open>2 ^ 64\<close> turns
  are made; the total theorems are stated for a fuel of \<open>2 ^ 64\<close> or more and show that the operation
  returns with it. Loops with a bound in the code recurse on that bound.

  \<^bold>\<open>Compare-and-swap loops\<close> of the sequential operations succeed at once, as they do for a client
  that nobody interferes with; the interleaved theories lift this for reference counts and foreign
  frees. Memory is sequentially consistent, and the swap of a word is atomic.

  \<^bold>\<open>Not modelled\<close>: mapping the region, flushing and console output (operating system calls), the
  MAC address and process id of \<open>thread_init\<close> (parameters), the timing of the monitor and its
  threads (the endless \<open>recovery_loop\<close> is modelled by its rounds), pinning to cores
  (\<open>numa-config.h\<close>), benchmarks, tests and the vendored code under \<open>third-party\<close>.
\<close>

end
